(* ===== verification/Prelude.thy ===== *)
theory Prelude
  imports Main "HOL-Library.Word" "HOL-Library.Monad_Syntax"
begin

text \<open>
  Shared vocabulary of the development: the names of the C integer types, memory reads that
  can run off the end of a buffer, and the generic facts on bit masks, words and lists that
  several components use.
\<close>

unbundle bit_operations_syntax

subsection \<open>C integer types\<close>

type_synonym u8 = "8 word"
type_synonym u16 = "16 word"
type_synonym u32 = "32 word"
type_synonym u64 = "64 word"

type_synonym bytes = "u8 list"

abbreviation LLONG_MAX :: int where "LLONG_MAX \<equiv> 9223372036854775807"
abbreviation LLONG_MIN :: int where "LLONG_MIN \<equiv> - 9223372036854775808"
abbreviation ULLONG_MAX :: nat where "ULLONG_MAX \<equiv> 18446744073709551615"

type_synonym i64 = "64 word"

text \<open>The bytes of a C string literal.\<close>

definition str :: "string \<Rightarrow> bytes" where
  "str s = map (\<lambda>c. word_of_nat (of_char c)) s"

subsection \<open>Memory\<close>

text \<open>A read or a write at an index of a buffer: \<open>None\<close> when the index is outside of it.\<close>

definition rd :: "'a list \<Rightarrow> int \<Rightarrow> 'a option" where
  "rd xs i = (if 0 \<le> i \<and> i < int (length xs) then Some (xs ! nat i) else None)"

definition wr :: "'a list \<Rightarrow> int \<Rightarrow> 'a \<Rightarrow> 'a list option" where
  "wr xs i x = (if 0 \<le> i \<and> i < int (length xs) then Some (xs[nat i := x]) else None)"

lemma rd_nat [simp]: "n < length xs \<Longrightarrow> rd xs (int n) = Some (xs ! n)"
  by (simp add: rd_def)

lemma rd_None [simp]: "rd xs i = None \<longleftrightarrow> i < 0 \<or> int (length xs) \<le> i"
  by (auto simp: rd_def)

lemma rd_Some: "0 \<le> i \<Longrightarrow> i < int (length xs) \<Longrightarrow> rd xs i = Some (xs ! nat i)"
  by (simp add: rd_def)

lemma wr_nat [simp]: "n < length xs \<Longrightarrow> wr xs (int n) x = Some (xs[n := x])"
  by (simp add: wr_def)

lemma wr_Some: "0 \<le> i \<Longrightarrow> i < int (length xs) \<Longrightarrow> wr xs i x = Some (xs[nat i := x])"
  by (simp add: wr_def)

text \<open>Reads, writes and moves of \<open>n\<close> consecutive cells.\<close>

definition rdn :: "'a list \<Rightarrow> nat \<Rightarrow> nat \<Rightarrow> 'a list option" where
  "rdn xs i n = (if i + n \<le> length xs then Some (take n (drop i xs)) else None)"

definition put :: "'a list \<Rightarrow> nat \<Rightarrow> 'a list \<Rightarrow> 'a list" where
  "put xs i ys = take i xs @ ys @ drop (i + length ys) xs"

definition wrn :: "'a list \<Rightarrow> nat \<Rightarrow> 'a list \<Rightarrow> 'a list option" where
  "wrn xs i ys = (if i + length ys \<le> length xs then Some (put xs i ys) else None)"

definition memmove :: "'a list \<Rightarrow> nat \<Rightarrow> nat \<Rightarrow> nat \<Rightarrow> 'a list option" where
  "memmove xs dst src n = do { ys \<leftarrow> rdn xs src n; wrn xs dst ys }"

lemma length_put [simp]: "i + length ys \<le> length xs \<Longrightarrow> length (put xs i ys) = length xs"
  by (simp add: put_def)

lemma nth_put:
  "i + length ys \<le> length xs \<Longrightarrow> k < length xs \<Longrightarrow>
    put xs i ys ! k = (if i \<le> k \<and> k < i + length ys then ys ! (k - i) else xs ! k)"
  by (auto simp: put_def nth_append)

lemma take_drop_put_same:
  "i + length ys \<le> length xs \<Longrightarrow> take (length ys) (drop i (put xs i ys)) = ys"
  by (simp add: put_def)

lemma take_drop_put_disjoint:
  assumes "i + length ys \<le> length xs" "j + n \<le> length xs" "j + n \<le> i \<or> i + length ys \<le> j"
  shows "take n (drop j (put xs i ys)) = take n (drop j xs)"
  using assms by (intro nth_equalityI) (auto simp: nth_put)

lemma memmove_Some:
  "src + n \<le> length xs \<Longrightarrow> dst + n \<le> length xs \<Longrightarrow>
    memmove xs dst src n = Some (put xs dst (take n (drop src xs)))"
  by (simp add: memmove_def rdn_def wrn_def)

text \<open>A block of \<open>n\<close> cells that keeps the contents of an old block; new cells hold what \<open>junk\<close> gives.\<close>

definition realloc :: "(nat \<Rightarrow> 'a) \<Rightarrow> 'a list \<Rightarrow> nat \<Rightarrow> 'a list" where
  "realloc junk xs n = take n xs @ map junk [length xs ..< n]"

lemma length_realloc [simp]: "length (realloc junk xs n) = n"
  by (simp add: realloc_def)

lemma take_realloc: "k \<le> n \<Longrightarrow> k \<le> length xs \<Longrightarrow> take k (realloc junk xs n) = take k xs"
  by (simp add: realloc_def min_absorb1)

lemma nth_realloc: "k < n \<Longrightarrow> k < length xs \<Longrightarrow> realloc junk xs n ! k = xs ! k"
  by (simp add: realloc_def nth_append)

text \<open>The bytes of a NUL terminated string.\<close>

definition cstring :: "bytes \<Rightarrow> bytes" where
  "cstring = takeWhile (\<lambda>c. c \<noteq> 0)"

subsection \<open>Words\<close>

lemma unat_ucast_up [simp]:
  assumes "LENGTH('a :: len) \<le> LENGTH('b :: len)"
  shows "unat (ucast (w :: 'a word) :: 'b word) = unat w"
proof -
  have "unat w < 2 ^ LENGTH('a)" by (rule unsigned_less)
  also have "(2 :: nat) ^ LENGTH('a) \<le> 2 ^ LENGTH('b)" using assms by (intro power_increasing) simp_all
  finally show ?thesis by (simp add: unsigned_ucast_eq take_bit_nat_eq_self)
qed

end
