(* ===== verification/Dict.thy ===== *)
theory Dict
  imports Prelude "HOL-Library.Multiset"
begin

text \<open>
  The hash table with incremental rehashing (\<open>src/dict.c\<close>, \<open>src/dict.h\<close>). A bucket array is a
  list of chains, a chain the list of its entries from the head pointer on; the NULL array of a
  reset table is the empty list. A pointer to an entry is a reference (table number, bucket
  index, position in the chain). The content of freshly allocated memory is the parameter
  \<open>junk\<close>; the global \<open>dict_can_resize\<close> is the parameter \<open>can\<close>.
\<close>

subsection \<open>Types\<close>

record ('k, 'v) dictEntry =
  de_key :: 'k
  de_val :: 'v

record ('k, 'v) dictType =
  hashFunction :: "'k \<Rightarrow> u64"
  keyDup :: "('k \<Rightarrow> 'k) option"
  valDup :: "('v \<Rightarrow> 'v) option"
  keyCompare :: "('k \<Rightarrow> 'k \<Rightarrow> bool) option"

type_synonym ('k, 'v) chain = "('k, 'v) dictEntry list"

record ('k, 'v) dictht =
  ht_table :: "('k, 'v) chain list"
  ht_size :: nat
  ht_sizemask :: nat
  ht_used :: nat

record ('k, 'v) dict =
  ht0 :: "('k, 'v) dictht"
  ht1 :: "('k, 'v) dictht"
  rehashidx :: int
  iterators :: nat

type_synonym entry_ref = "nat \<times> nat \<times> nat"

datatype dict_status = DICT_OK | DICT_ERR

definition DICT_HT_INITIAL_SIZE :: nat where "DICT_HT_INITIAL_SIZE = 4"

definition dict_force_resize_ratio :: nat where "dict_force_resize_ratio = 5"

subsection \<open>Macros of dict.h\<close>

definition dictCompareKeys :: "('k, 'v) dictType \<Rightarrow> 'k \<Rightarrow> 'k \<Rightarrow> bool" where
  "dictCompareKeys T a b = (case keyCompare T of Some f \<Rightarrow> f a b | None \<Rightarrow> a = b)"

definition key_matches :: "('k, 'v) dictType \<Rightarrow> 'k \<Rightarrow> 'k \<Rightarrow> bool" where
  "key_matches T a b \<longleftrightarrow> a = b \<or> dictCompareKeys T a b"

definition dictHashKey :: "('k, 'v) dictType \<Rightarrow> 'k \<Rightarrow> u64" where
  "dictHashKey T k = hashFunction T k"

definition dictSetKey :: "('k, 'v) dictType \<Rightarrow> 'k \<Rightarrow> 'k" where
  "dictSetKey T k = (case keyDup T of Some f \<Rightarrow> f k | None \<Rightarrow> k)"

definition dictDupVal :: "('k, 'v) dictType \<Rightarrow> 'v \<Rightarrow> 'v" where
  "dictDupVal T x = (case valDup T of Some f \<Rightarrow> f x | None \<Rightarrow> x)"

definition dictIsRehashing :: "('k, 'v) dict \<Rightarrow> bool" where
  "dictIsRehashing d \<longleftrightarrow> rehashidx d \<noteq> -1"

definition dictSize :: "('k, 'v) dict \<Rightarrow> nat" where
  "dictSize d = ht_used (ht0 d) + ht_used (ht1 d)"

definition dictSlots :: "('k, 'v) dict \<Rightarrow> nat" where
  "dictSlots d = ht_size (ht0 d) + ht_size (ht1 d)"

subsection \<open>Buckets, chains and references\<close>

definition bucket :: "('k, 'v) dictht \<Rightarrow> nat \<Rightarrow> ('k, 'v) chain" where
  "bucket h i = (if i < length (ht_table h) then ht_table h ! i else [])"

definition set_bucket :: "nat \<Rightarrow> ('k, 'v) chain \<Rightarrow> ('k, 'v) dictht \<Rightarrow> ('k, 'v) dictht" where
  "set_bucket i c h = h\<lparr>ht_table := (ht_table h)[i := c]\<rparr>"

definition get_ht :: "('k, 'v) dict \<Rightarrow> nat \<Rightarrow> ('k, 'v) dictht" where
  "get_ht d t = (if t = 0 then ht0 d else ht1 d)"

definition upd_ht :: "nat \<Rightarrow> (('k, 'v) dictht \<Rightarrow> ('k, 'v) dictht) \<Rightarrow> ('k, 'v) dict \<Rightarrow> ('k, 'v) dict" where
  "upd_ht t f d = (if t = 0 then d\<lparr>ht0 := f (ht0 d)\<rparr> else d\<lparr>ht1 := f (ht1 d)\<rparr>)"

definition deref :: "('k, 'v) dict \<Rightarrow> entry_ref \<Rightarrow> ('k, 'v) dictEntry" where
  "deref d = (\<lambda>(t, i, p). bucket (get_ht d t) i ! p)"

definition dictSetVal :: "('k, 'v) dictType \<Rightarrow> ('k, 'v) dict \<Rightarrow> entry_ref \<Rightarrow> 'v \<Rightarrow> ('k, 'v) dict" where
  "dictSetVal T d = (\<lambda>(t, i, p) x.
     upd_ht t (\<lambda>h. set_bucket i ((bucket h i)[p := (bucket h i ! p)\<lparr>de_val := dictDupVal T x\<rparr>]) h) d)"

text \<open>
  \<open>unsigned int h = dictHashKey(d,key); idx = h & sizemask\<close>: the 64-bit hash is cut to 32 bits
  before the mask. In \<open>dictRehash\<close> the mask comes first and the cut second.
\<close>

definition hash_idx :: "u64 \<Rightarrow> nat \<Rightarrow> nat" where
  "hash_idx h msk = unat (ucast h :: u32) AND msk"

definition rehash_idx :: "u64 \<Rightarrow> nat \<Rightarrow> nat" where
  "rehash_idx h msk = unat (ucast (h AND word_of_nat msk) :: u32)"

fun chain_find :: "('k, 'v) dictType \<Rightarrow> 'k \<Rightarrow> ('k, 'v) chain \<Rightarrow> nat option" where
  "chain_find T k [] = None"
| "chain_find T k (he # rest) =
     (if key_matches T k (de_key he) then Some 0 else map_option Suc (chain_find T k rest))"

text \<open>
  The loop \<open>for (table = 0; table <= 1; table++)\<close> that \<open>dictFind\<close>, \<open>dictGenericDelete\<close> and
  \<open>_dictKeyIndex\<close> share: the second table is looked at only while rehashing.
\<close>

definition dict_search :: "('k, 'v) dictType \<Rightarrow> ('k, 'v) dict \<Rightarrow> 'k \<Rightarrow> entry_ref option" where
  "dict_search T d k =
     (let h = dictHashKey T k;
          idx = hash_idx h (ht_sizemask (ht0 d))
      in case chain_find T k (bucket (ht0 d) idx) of
           Some p \<Rightarrow> Some (0, idx, p)
         | None \<Rightarrow>
             if \<not> dictIsRehashing d then None
             else let idx = hash_idx h (ht_sizemask (ht1 d))
                  in map_option (\<lambda>p. (1, idx, p)) (chain_find T k (bucket (ht1 d) idx)))"

subsection \<open>Creation and resizing\<close>

definition dictReset :: "('k, 'v) dictht" where
  "dictReset = \<lparr>ht_table = [], ht_size = 0, ht_sizemask = 0, ht_used = 0\<rparr>"

definition dictCreate :: "('k, 'v) dict" where
  "dictCreate = \<lparr>ht0 = dictReset, ht1 = dictReset, rehashidx = -1, iterators = 0\<rparr>"

text \<open>The doubling loop of \<open>_dictNextPower\<close>, with \<open>i = 2 ^ k\<close>.\<close>

function next_power_loop :: "nat \<Rightarrow> nat \<Rightarrow> nat" where
  "next_power_loop k sz = (if sz \<le> 2 ^ k then 2 ^ k else next_power_loop (Suc k) sz)"
  by pat_completeness auto
termination
proof (relation "measure (\<lambda>(k, sz). sz - k)")
  fix k sz :: nat
  assume "\<not> sz \<le> 2 ^ k"
  then have "2 ^ k < sz" by simp
  with less_exp [of k] have "k < sz" by (rule less_trans)
  then show "((Suc k, sz), (k, sz)) \<in> measure (\<lambda>(k, sz). sz - k)" by simp
qed simp

declare next_power_loop.simps [simp del]

definition dictNextPower :: "nat \<Rightarrow> nat" where
  "dictNextPower sz = (if 2 ^ 63 - 1 \<le> sz then 2 ^ 63 else next_power_loop 2 sz)"

definition dictExpand :: "('k, 'v) dict \<Rightarrow> nat \<Rightarrow> ('k, 'v) dict \<times> dict_status" where
  "dictExpand d sz =
     (let realsize = dictNextPower sz in
      if dictIsRehashing d \<or> ht_used (ht0 d) > sz then (d, DICT_ERR)
      else if realsize = ht_size (ht0 d) then (d, DICT_ERR)
      else
        let n = \<lparr>ht_table = replicate realsize [], ht_size = realsize,
                 ht_sizemask = realsize - 1, ht_used = 0\<rparr>
        in if ht_table (ht0 d) = [] then (d\<lparr>ht0 := n\<rparr>, DICT_OK)
           else (d\<lparr>ht1 := n, rehashidx := 0\<rparr>, DICT_OK))"

text \<open>\<open>int minimal = d->ht[0].used\<close>: the count is converted to a 32-bit \<open>int\<close>.\<close>

definition dictResize :: "bool \<Rightarrow> ('k, 'v) dict \<Rightarrow> ('k, 'v) dict \<times> dict_status" where
  "dictResize can d =
     (if \<not> can \<or> dictIsRehashing d then (d, DICT_ERR)
      else
        let minimal = sint (word_of_nat (ht_used (ht0 d)) :: u32);
            minimal = (if minimal < int DICT_HT_INITIAL_SIZE
                       then int DICT_HT_INITIAL_SIZE else minimal)
        in dictExpand d (nat minimal))"

definition dictExpandIfNeeded :: "bool \<Rightarrow> ('k, 'v) dict \<Rightarrow> ('k, 'v) dict \<times> dict_status" where
  "dictExpandIfNeeded can d =
     (if dictIsRehashing d then (d, DICT_OK)
      else if ht_size (ht0 d) = 0 then dictExpand d DICT_HT_INITIAL_SIZE
      else if ht_used (ht0 d) \<ge> ht_size (ht0 d) \<and>
              (can \<or> ht_used (ht0 d) div ht_size (ht0 d) > dict_force_resize_ratio)
      then dictExpand d (ht_used (ht0 d) * 2)
      else (d, DICT_OK))"

subsection \<open>Incremental rehashing\<close>

text \<open>The inner loop over empty buckets: new index, remaining visits, and whether it gave up.\<close>

fun rehash_skip :: "('k, 'v) dictht \<Rightarrow> nat \<Rightarrow> nat \<Rightarrow> nat \<times> nat \<times> bool" where
  "rehash_skip h idx empty_visits =
     (if bucket h idx \<noteq> [] then (idx, empty_visits, False)
      else case empty_visits of
             0 \<Rightarrow> (idx, 0, True)
           | Suc ev \<Rightarrow> if ev = 0 then (Suc idx, 0, True) else rehash_skip h (Suc idx) ev)"

declare rehash_skip.simps [simp del]

text \<open>Moving one chain: each entry becomes the head of its bucket in the second table.\<close>

fun move_chain :: "('k, 'v) dictType \<Rightarrow> ('k, 'v) chain \<Rightarrow> ('k, 'v) dict \<Rightarrow> ('k, 'v) dict" where
  "move_chain T [] d = d"
| "move_chain T (de # nextde) d =
     (let h = rehash_idx (dictHashKey T (de_key de)) (ht_sizemask (ht1 d));
          h1 = set_bucket h (de # bucket (ht1 d) h) (ht1 d)
      in move_chain T nextde
           (d\<lparr>ht0 := (ht0 d)\<lparr>ht_used := ht_used (ht0 d) - 1\<rparr>,
              ht1 := h1\<lparr>ht_used := ht_used h1 + 1\<rparr>\<rparr>))"

fun rehash_loop :: "('k, 'v) dictType \<Rightarrow> nat \<Rightarrow> nat \<Rightarrow> ('k, 'v) dict \<Rightarrow> ('k, 'v) dict \<times> bool" where
  "rehash_loop T 0 ev d = (d, False)"
| "rehash_loop T (Suc n) ev d =
     (if ht_used (ht0 d) = 0 then (d, False)
      else case rehash_skip (ht0 d) (nat (rehashidx d)) ev of
             (idx, ev', True) \<Rightarrow> (d\<lparr>rehashidx := int idx\<rparr>, True)
           | (idx, ev', False) \<Rightarrow>
               let d = move_chain T (bucket (ht0 d) idx) d;
                   d = d\<lparr>ht0 := set_bucket idx [] (ht0 d), rehashidx := int idx + 1\<rparr>
               in rehash_loop T n ev' d)"

definition dictRehash :: "('k, 'v) dictType \<Rightarrow> ('k, 'v) dict \<Rightarrow> nat \<Rightarrow> ('k, 'v) dict \<times> nat" where
  "dictRehash T d n =
     (if \<not> dictIsRehashing d then (d, 0)
      else case rehash_loop T n (n * 10) d of
             (d, True) \<Rightarrow> (d, 1)
           | (d, False) \<Rightarrow>
               if ht_used (ht0 d) = 0
               then (d\<lparr>ht0 := ht1 d, ht1 := dictReset, rehashidx := -1\<rparr>, 0)
               else (d, 1))"

definition dictRehashStep :: "('k, 'v) dictType \<Rightarrow> ('k, 'v) dict \<Rightarrow> ('k, 'v) dict" where
  "dictRehashStep T d = (if iterators d = 0 then fst (dictRehash T d 1) else d)"

subsection \<open>Adding, finding, deleting\<close>

text \<open>
  The result of \<open>_dictKeyIndex\<close> is an \<open>int\<close>: the bucket index read as a signed 32-bit number, or
  -1. The third component is what \<open>*existing\<close> is set to.
\<close>

definition dictKeyIndex ::
  "('k, 'v) dictType \<Rightarrow> bool \<Rightarrow> ('k, 'v) dict \<Rightarrow> 'k \<Rightarrow> u64 \<Rightarrow>
   ('k, 'v) dict \<times> int \<times> entry_ref option" where
  "dictKeyIndex T can d k hash =
     (case dictExpandIfNeeded can d of
        (d, DICT_ERR) \<Rightarrow> (d, -1, None)
      | (d, DICT_OK) \<Rightarrow>
          (case dict_search T d k of
             Some r \<Rightarrow> (d, -1, Some r)
           | None \<Rightarrow>
               let h = (if dictIsRehashing d then ht1 d else ht0 d);
                   idx = hash_idx hash (ht_sizemask h)
               in (d, sint (word_of_nat idx :: u32), None)))"

definition dictAddRaw ::
  "('k, 'v) dictType \<Rightarrow> bool \<Rightarrow> 'v \<Rightarrow> ('k, 'v) dict \<Rightarrow> 'k \<Rightarrow>
   ('k, 'v) dict \<times> entry_ref option \<times> entry_ref option" where
  "dictAddRaw T can junk d k =
     (let d = (if dictIsRehashing d then dictRehashStep T d else d) in
      case dictKeyIndex T can d k (dictHashKey T k) of
        (d, index, existing) \<Rightarrow>
          if index = -1 then (d, None, existing)
          else
            let t = (if dictIsRehashing d then 1 else 0);
                i = nat index;
                entry = \<lparr>de_key = dictSetKey T k, de_val = junk\<rparr>
            in (upd_ht t (\<lambda>h. (set_bucket i (entry # bucket h i) h)\<lparr>ht_used := ht_used h + 1\<rparr>) d,
                Some (t, i, 0), existing))"

definition dictAdd ::
  "('k, 'v) dictType \<Rightarrow> bool \<Rightarrow> 'v \<Rightarrow> ('k, 'v) dict \<Rightarrow> 'k \<Rightarrow> 'v \<Rightarrow> ('k, 'v) dict \<times> dict_status" where
  "dictAdd T can junk d k x =
     (case dictAddRaw T can junk d k of
        (d, None, _) \<Rightarrow> (d, DICT_ERR)
      | (d, Some entry, _) \<Rightarrow> (dictSetVal T d entry x, DICT_OK))"

text \<open>
  \<open>dictReplace\<close> dereferences \<open>existing\<close> when nothing was added; a NULL \<open>existing\<close> there (an
  expansion that failed) is the outcome \<open>None\<close>.
\<close>

definition dictReplace ::
  "('k, 'v) dictType \<Rightarrow> bool \<Rightarrow> 'v \<Rightarrow> ('k, 'v) dict \<Rightarrow> 'k \<Rightarrow> 'v \<Rightarrow> (('k, 'v) dict \<times> nat) option" where
  "dictReplace T can junk d k x =
     (case dictAddRaw T can junk d k of
        (d, Some entry, _) \<Rightarrow> Some (dictSetVal T d entry x, 1)
      | (d, None, Some existing) \<Rightarrow> Some (dictSetVal T d existing x, 0)
      | (d, None, None) \<Rightarrow> None)"

definition dictAddOrFind ::
  "('k, 'v) dictType \<Rightarrow> bool \<Rightarrow> 'v \<Rightarrow> ('k, 'v) dict \<Rightarrow> 'k \<Rightarrow> ('k, 'v) dict \<times> entry_ref option" where
  "dictAddOrFind T can junk d k =
     (case dictAddRaw T can junk d k of
        (d, Some entry, _) \<Rightarrow> (d, Some entry)
      | (d, None, existing) \<Rightarrow> (d, existing))"

definition remove_at :: "nat \<Rightarrow> 'a list \<Rightarrow> 'a list" where
  "remove_at p xs = take p xs @ drop (Suc p) xs"

definition dictGenericDelete ::
  "('k, 'v) dictType \<Rightarrow> ('k, 'v) dict \<Rightarrow> 'k \<Rightarrow> ('k, 'v) dict \<times> ('k, 'v) dictEntry option" where
  "dictGenericDelete T d k =
     (if ht_used (ht0 d) = 0 \<and> ht_used (ht1 d) = 0 then (d, None)
      else
        let d = (if dictIsRehashing d then dictRehashStep T d else d) in
        case dict_search T d k of
          None \<Rightarrow> (d, None)
        | Some (t, i, p) \<Rightarrow>
            (upd_ht t (\<lambda>h. (set_bucket i (remove_at p (bucket h i)) h)\<lparr>ht_used := ht_used h - 1\<rparr>) d,
             Some (deref d (t, i, p))))"

definition dictDelete :: "('k, 'v) dictType \<Rightarrow> ('k, 'v) dict \<Rightarrow> 'k \<Rightarrow> ('k, 'v) dict \<times> dict_status" where
  "dictDelete T d k =
     (case dictGenericDelete T d k of
        (d, Some _) \<Rightarrow> (d, DICT_OK)
      | (d, None) \<Rightarrow> (d, DICT_ERR))"

definition dictUnlink ::
  "('k, 'v) dictType \<Rightarrow> ('k, 'v) dict \<Rightarrow> 'k \<Rightarrow> ('k, 'v) dict \<times> ('k, 'v) dictEntry option" where
  "dictUnlink T d k = dictGenericDelete T d k"

definition dictFind ::
  "('k, 'v) dictType \<Rightarrow> ('k, 'v) dict \<Rightarrow> 'k \<Rightarrow> ('k, 'v) dict \<times> entry_ref option" where
  "dictFind T d k =
     (if ht_used (ht0 d) + ht_used (ht1 d) = 0 then (d, None)
      else
        let d = (if dictIsRehashing d then dictRehashStep T d else d)
        in (d, dict_search T d k))"

definition dictFetchValue ::
  "('k, 'v) dictType \<Rightarrow> ('k, 'v) dict \<Rightarrow> 'k \<Rightarrow> ('k, 'v) dict \<times> 'v option" where
  "dictFetchValue T d k =
     (case dictFind T d k of
        (d, None) \<Rightarrow> (d, None)
      | (d, Some r) \<Rightarrow> (d, Some (de_val (deref d r))))"

definition dictEmpty :: "('k, 'v) dict \<Rightarrow> ('k, 'v) dict" where
  "dictEmpty d = d\<lparr>ht0 := dictReset, ht1 := dictReset, rehashidx := -1, iterators := 0\<rparr>"

end
