(* ===== verification/Dict_Refine.thy ===== *)
theory Dict_Refine
  imports Dict
begin

text \<open>
  The hash table refines a finite map. The locale \<open>dict_type\<close> (in \<open>Dict_Map\<close>) states what the code relies on of a
  \<open>dictType\<close>: key comparison is equality of a canonical form, and equal keys hash equally. Under
  the invariant \<open>dict_ok\<close> every operation of \<open>dict.c\<close>, including the rehashing step it performs
  on the way, acts on the abstract map as its name says.
\<close>

subsection \<open>List and multiset facts\<close>

lemma mset_concat_update:
  "i < length xs \<Longrightarrow> mset (concat (xs[i := c])) + mset (xs ! i) = mset (concat xs) + mset c"
proof -
  assume i: "i < length xs"
  have "mset (concat xs) = mset (concat (take i xs @ xs ! i # drop (Suc i) xs))"
    using id_take_nth_drop [OF i] by simp
  moreover have "mset (concat (xs[i := c])) = mset (concat (take i xs @ c # drop (Suc i) xs))"
    using i by (simp add: upd_conv_take_nth_drop)
  ultimately show ?thesis by simp
qed

lemma length_concat_mset: "length (concat xs) = size (mset (concat xs))"
  by simp

lemma remove_at_mset: "p < length xs \<Longrightarrow> add_mset (xs ! p) (mset (remove_at p xs)) = mset xs"
  by (subst (2) id_take_nth_drop [of p xs]) (simp_all add: remove_at_def)

lemma set_remove_at: "set (remove_at p xs) \<subseteq> set xs"
  by (auto simp: remove_at_def dest: in_set_takeD in_set_dropD)

lemma mset_update_at: "p < length xs \<Longrightarrow> add_mset (xs ! p) (mset (xs[p := y])) = add_mset y (mset xs)"
  by (simp add: mset_update)

subsection \<open>Index arithmetic\<close>

lemma and_mask_mod: "(x :: nat) AND (2 ^ n - Suc 0) = x mod 2 ^ n"
  by (metis One_nat_def mask_eq_exp_minus_1 take_bit_eq_mask take_bit_eq_mod)

lemma hash_idx_mod: "hash_idx h (2 ^ n - Suc 0) = unat h mod 2 ^ 32 mod 2 ^ n"
  by (simp add: hash_idx_def and_mask_mod unsigned_ucast_eq take_bit_eq_mod)

lemma hash_idx_lt: "hash_idx h (2 ^ n - Suc 0) < 2 ^ n"
  by (simp add: hash_idx_mod)

lemma rehash_idx_eq:
  assumes "msk < 2 ^ 64" shows "rehash_idx h msk = hash_idx h msk"
proof -
  have 1: "unat (word_of_nat msk :: u64) = msk"
    using assms by (simp add: unsigned_of_nat take_bit_nat_eq_self)
  have 2: "unat (h AND word_of_nat msk) = unat h AND msk"
    by (simp only: unsigned_and_eq 1)
  show ?thesis
    unfolding rehash_idx_def hash_idx_def unsigned_ucast_eq 2
    by (rule bit_eqI) (auto simp: bit_take_bit_iff bit_and_iff)
qed

lemma sint_small: "n < 2 ^ 31 \<Longrightarrow> sint (word_of_nat n :: u32) = int n"
  by (simp add: signed_of_nat signed_take_bit_int_eq_self)

subsection \<open>Invariant and abstraction\<close>

definition ht_ok :: "('k, 'v) dictType \<Rightarrow> ('k, 'v) dictht \<Rightarrow> bool" where
  "ht_ok T h \<longleftrightarrow>
     length (ht_table h) = ht_size h \<and>
     ht_sizemask h = ht_size h - 1 \<and>
     ht_used h = length (concat (ht_table h)) \<and>
     (ht_size h = 0 \<or> (\<exists>n. 2 \<le> n \<and> n \<le> 31 \<and> ht_size h = 2 ^ n)) \<and>
     (\<forall>i < ht_size h. \<forall>e \<in> set (ht_table h ! i).
        hash_idx (dictHashKey T (de_key e)) (ht_sizemask h) = i)"

definition all_entries :: "('k, 'v) dict \<Rightarrow> ('k, 'v) dictEntry list" where
  "all_entries d = concat (ht_table (ht0 d)) @ concat (ht_table (ht1 d))"

definition rehash_ok :: "('k, 'v) dict \<Rightarrow> bool" where
  "rehash_ok d \<longleftrightarrow>
     (if rehashidx d = -1 then ht1 d = dictReset
      else 0 \<le> rehashidx d \<and> rehashidx d \<le> int (ht_size (ht0 d)) \<and>
           0 < ht_size (ht0 d) \<and> 0 < ht_size (ht1 d) \<and>
           (\<forall>i < nat (rehashidx d). ht_table (ht0 d) ! i = []))"

definition dict_ok :: "('k, 'v) dictType \<Rightarrow> ('k \<Rightarrow> 'c) \<Rightarrow> ('k, 'v) dict \<Rightarrow> bool" where
  "dict_ok T canon d \<longleftrightarrow>
     ht_ok T (ht0 d) \<and> ht_ok T (ht1 d) \<and> rehash_ok d \<and>
     distinct (map (\<lambda>e. canon (de_key e)) (all_entries d))"

definition entry_map :: "('k \<Rightarrow> 'c) \<Rightarrow> ('k, 'v) dictEntry list \<Rightarrow> 'c \<rightharpoonup> 'v" where
  "entry_map canon es = map_of (map (\<lambda>e. (canon (de_key e), de_val e)) es)"

definition dict_map :: "('k \<Rightarrow> 'c) \<Rightarrow> ('k, 'v) dict \<Rightarrow> 'c \<rightharpoonup> 'v" where
  "dict_map canon d = entry_map canon (all_entries d)"

definition valid_ref :: "('k, 'v) dict \<Rightarrow> entry_ref \<Rightarrow> bool" where
  "valid_ref d = (\<lambda>(t, i, p). (t = 0 \<or> t = 1 \<and> dictIsRehashing d) \<and>
     i < ht_size (get_ht d t) \<and> p < length (bucket (get_ht d t) i))"

subsection \<open>Entry lists as maps\<close>

abbreviation ekeys :: "('k \<Rightarrow> 'c) \<Rightarrow> ('k, 'v) dictEntry list \<Rightarrow> 'c list" where
  "ekeys canon es \<equiv> map (\<lambda>e. canon (de_key e)) es"

lemma distinct_ekeys_mset:
  "mset es = mset es' \<Longrightarrow> distinct (ekeys canon es) = distinct (ekeys canon es')"
  by (metis mset_eq_imp_distinct_iff mset_map)

lemma entry_map_mset:
  assumes "mset es = mset es'" "distinct (ekeys canon es)"
  shows "entry_map canon es = entry_map canon es'"
  unfolding entry_map_def
proof (rule map_of_inject_set [THEN iffD2])
  show "distinct (map fst (map (\<lambda>e. (canon (de_key e), de_val e)) es))"
    using assms(2) by (simp add: comp_def)
  show "distinct (map fst (map (\<lambda>e. (canon (de_key e), de_val e)) es'))"
    using assms distinct_ekeys_mset [OF assms(1), of canon] by (simp add: comp_def)
  show "set (map (\<lambda>e. (canon (de_key e), de_val e)) es) =
        set (map (\<lambda>e. (canon (de_key e), de_val e)) es')"
    using mset_eq_setD [OF assms(1)] by simp
qed

lemma entry_map_Cons [simp]:
  "entry_map canon (e # es) = (entry_map canon es)(canon (de_key e) \<mapsto> de_val e)"
  by (simp add: entry_map_def)

lemma entry_map_None_iff: "entry_map canon es c = None \<longleftrightarrow> c \<notin> set (ekeys canon es)"
  by (simp add: entry_map_def map_of_eq_None_iff image_image)

lemma entry_map_member:
  "distinct (ekeys canon es) \<Longrightarrow> e \<in> set es \<Longrightarrow> entry_map canon es (canon (de_key e)) = Some (de_val e)"
  unfolding entry_map_def by (rule map_of_is_SomeI) (auto simp: comp_def)

lemma entry_map_remove:
  assumes "mset es = add_mset e (mset es')" "distinct (ekeys canon es)"
  shows "entry_map canon es' = (entry_map canon es)(canon (de_key e) := None)"
proof -
  have eq: "mset es = mset (e # es')" using assms(1) by simp
  then have "distinct (ekeys canon (e # es'))"
    using assms(2) distinct_ekeys_mset by blast
  then have "entry_map canon es' (canon (de_key e)) = None"
    by (simp add: entry_map_None_iff)
  moreover have "entry_map canon es = entry_map canon (e # es')"
    by (rule entry_map_mset [OF eq assms(2)])
  ultimately show ?thesis by (auto simp: fun_eq_iff)
qed

subsection \<open>Single tables\<close>

lemma ht_ok_reset [simp]: "ht_ok T dictReset"
  by (simp add: ht_ok_def dictReset_def)

lemma ht_okD:
  assumes "ht_ok T h"
  shows "length (ht_table h) = ht_size h" "ht_sizemask h = ht_size h - 1"
    "ht_used h = length (concat (ht_table h))"
  using assms by (simp_all add: ht_ok_def)

lemma ht_ok_idx_lt:
  "ht_ok T h \<Longrightarrow> 0 < ht_size h \<Longrightarrow> hash_idx x (ht_sizemask h) < ht_size h"
  by (auto simp: ht_ok_def hash_idx_lt)

lemma ht_ok_size_le: "ht_ok T h \<Longrightarrow> ht_size h \<le> 2 ^ 31"
  using power_increasing [of _ 31 "2 :: nat"] by (auto simp: ht_ok_def)

lemma ht_ok_rehash_idx:
  "ht_ok T h \<Longrightarrow> rehash_idx x (ht_sizemask h) = hash_idx x (ht_sizemask h)"
  using ht_ok_size_le [of T h] ht_okD(2) [of T h] by (intro rehash_idx_eq) simp

lemma in_set_concatD: "e \<in> set (concat xs) \<Longrightarrow> \<exists>ys \<in> set xs. e \<in> set ys"
  by simp

lemma ht_ok_member:
  assumes "ht_ok T h" "e \<in> set (concat (ht_table h))"
  shows "e \<in> set (bucket h (hash_idx (dictHashKey T (de_key e)) (ht_sizemask h)))"
proof -
  obtain i where "i < length (ht_table h)" "e \<in> set (ht_table h ! i)"
    using assms(2) by (metis in_set_conv_nth in_set_concatD)
  with assms(1) show ?thesis
    by (auto simp: ht_ok_def bucket_def)
qed

lemma ht_ok_set_bucket:
  assumes ok: "ht_ok T h" and i: "i < ht_size h"
    and c: "\<And>e. e \<in> set c \<Longrightarrow> hash_idx (dictHashKey T (de_key e)) (ht_sizemask h) = i"
    and u: "u + length (bucket h i) = ht_used h + length c"
  shows "ht_ok T ((set_bucket i c h)\<lparr>ht_used := u\<rparr>)"
proof -
  have len: "i < length (ht_table h)" using ok i by (simp add: ht_ok_def)
  have "size (mset (concat ((ht_table h)[i := c]))) + length (ht_table h ! i) =
        size (mset (concat (ht_table h))) + length c"
    using arg_cong [OF mset_concat_update [OF len, of c], of size] by simp
  then have "u = length (concat ((ht_table h)[i := c]))"
    using u len ht_okD(3) [OF ok] by (simp add: bucket_def)
  moreover have "\<forall>j < ht_size h. \<forall>e \<in> set ((ht_table h)[i := c] ! j).
      hash_idx (dictHashKey T (de_key e)) (ht_sizemask h) = j"
    using ok c len unfolding ht_ok_def by (metis nth_list_update_eq nth_list_update_neq)
  ultimately show ?thesis
    using ok by (simp add: ht_ok_def set_bucket_def)
qed

lemma concat_set_bucket:
  assumes "ht_ok T h" "i < ht_size h"
  shows "mset (concat (ht_table (set_bucket i c h))) + mset (bucket h i) =
         mset (concat (ht_table h)) + mset c"
  using assms(2) mset_concat_update [of i "ht_table h" c]
  by (simp add: set_bucket_def bucket_def ht_okD(1) [OF assms(1)])

lemma set_bucket_sel [simp]:
  "ht_size (set_bucket i c h) = ht_size h" "ht_sizemask (set_bucket i c h) = ht_sizemask h"
  "ht_used (set_bucket i c h) = ht_used h"
  by (simp_all add: set_bucket_def)

lemma bucket_length_le: "ht_ok T h \<Longrightarrow> length (bucket h i) \<le> ht_used h"
proof (cases "i < ht_size h")
  case True
  assume ok: "ht_ok T h"
  have "size (mset (bucket h i)) \<le> size (mset (concat (ht_table h)))"
    using arg_cong [OF concat_set_bucket [OF ok True, of "[]"], of size] by simp
  then show ?thesis using ht_okD(3) [OF ok] by simp
qed (simp add: bucket_def ht_ok_def)

lemma ht_used_0_bucket: "ht_ok T h \<Longrightarrow> ht_used h = 0 \<Longrightarrow> bucket h i = []"
  using bucket_length_le [of T h i] by simp

lemma ht_used_pos_bucket:
  assumes "ht_ok T h" "ht_used h \<noteq> 0" shows "\<exists>i < ht_size h. bucket h i \<noteq> []"
proof -
  have "concat (ht_table h) \<noteq> []" using assms ht_okD(3) by fastforce
  then obtain c where "c \<in> set (ht_table h)" "c \<noteq> []" by auto
  then obtain i where "i < length (ht_table h)" "ht_table h ! i \<noteq> []"
    by (auto simp: in_set_conv_nth)
  then show ?thesis using ht_okD(1) [OF assms(1)] by (auto simp: bucket_def)
qed

subsection \<open>Incremental rehashing keeps the entries\<close>

lemma rehash_skip_spec:
  "rehash_skip h idx ev = (idx', ev', stop) \<Longrightarrow>
   idx \<le> idx' \<and> (\<forall>i. idx \<le> i \<and> i < idx' \<longrightarrow> bucket h i = []) \<and>
   (\<not> stop \<longrightarrow> bucket h idx' \<noteq> []) \<and> (stop \<and> 0 < ev \<longrightarrow> idx < idx')"
proof (induction h idx ev rule: rehash_skip.induct)
  case (1 h idx ev)
  show ?case
  proof (cases "bucket h idx = [] \<and> 1 < ev")
    case True
    then obtain m where m: "ev = Suc m" "m \<noteq> 0" by (cases ev) auto
    with True "1.prems" have "rehash_skip h (Suc idx) m = (idx', ev', stop)"
      by (simp add: rehash_skip.simps [of h idx])
    from "1.IH" [OF _ m(1) m(2) this] True
    have IH: "Suc idx \<le> idx'" "\<forall>i. Suc idx \<le> i \<and> i < idx' \<longrightarrow> bucket h i = []"
      "\<not> stop \<longrightarrow> bucket h idx' \<noteq> []" by simp_all
    have "\<forall>i. idx \<le> i \<and> i < idx' \<longrightarrow> bucket h i = []"
      using IH(2) True by (metis Suc_leI le_neq_implies_less)
    with IH show ?thesis by auto
  next
    case False
    with "1.prems" show ?thesis
      by (auto simp: rehash_skip.simps [of h idx] less_Suc_eq split: if_splits nat.splits)
  qed
qed

lemma move_chain_ht0 [simp]:
  "ht0 (move_chain T c d) = (ht0 d)\<lparr>ht_used := ht_used (ht0 d) - length c\<rparr>"
  "rehashidx (move_chain T c d) = rehashidx d" "iterators (move_chain T c d) = iterators d"
  by (induction c arbitrary: d) (simp_all add: Let_def)

lemma move_chain_ht1:
  assumes "ht_ok T (ht1 d)" "0 < ht_size (ht1 d)"
  shows "ht_ok T (ht1 (move_chain T c d)) \<and>
    ht_size (ht1 (move_chain T c d)) = ht_size (ht1 d) \<and>
    mset (concat (ht_table (ht1 (move_chain T c d)))) = mset c + mset (concat (ht_table (ht1 d)))"
  using assms
proof (induction c arbitrary: d)
  case Nil
  then show ?case by simp
next
  case (Cons e c)
  let ?i = "hash_idx (dictHashKey T (de_key e)) (ht_sizemask (ht1 d))"
  let ?b = "e # bucket (ht1 d) ?i"
  let ?h = "(set_bucket ?i ?b (ht1 d))\<lparr>ht_used := Suc (ht_used (ht1 d))\<rparr>"
  let ?d = "d\<lparr>ht0 := (ht0 d)\<lparr>ht_used := ht_used (ht0 d) - 1\<rparr>, ht1 := ?h\<rparr>"
  have i: "?i < ht_size (ht1 d)" using ht_ok_idx_lt Cons.prems by blast
  have b: "hash_idx (dictHashKey T (de_key x)) (ht_sizemask (ht1 d)) = ?i" if "x \<in> set ?b" for x
    using that Cons.prems(1) i by (auto simp: ht_ok_def bucket_def split: if_splits)
  have ok: "ht_ok T ?h"
    by (rule ht_ok_set_bucket [OF Cons.prems(1) i b]) simp_all
  have m: "mset (concat (ht_table ?h)) = add_mset e (mset (concat (ht_table (ht1 d))))"
    using concat_set_bucket [OF Cons.prems(1) i, of ?b] by simp
  have "move_chain T (e # c) d = move_chain T c ?d"
    by (simp add: Let_def ht_ok_rehash_idx [OF Cons.prems(1)])
  with Cons.IH [of ?d] ok m Cons.prems(2) show ?case by simp
qed

definition reh_inv :: "('k, 'v) dictType \<Rightarrow> ('k, 'v) dict \<Rightarrow> bool" where
  "reh_inv T d \<longleftrightarrow> ht_ok T (ht0 d) \<and> ht_ok T (ht1 d) \<and>
     0 \<le> rehashidx d \<and> rehashidx d \<le> int (ht_size (ht0 d)) \<and>
     0 < ht_size (ht0 d) \<and> 0 < ht_size (ht1 d) \<and>
     (\<forall>i < nat (rehashidx d). ht_table (ht0 d) ! i = [])"

lemma reh_inv_iff:
  "reh_inv T d \<longleftrightarrow> ht_ok T (ht0 d) \<and> ht_ok T (ht1 d) \<and> rehash_ok d \<and> dictIsRehashing d"
  by (auto simp: reh_inv_def rehash_ok_def dictIsRehashing_def)

definition move_bucket :: "('k, 'v) dictType \<Rightarrow> nat \<Rightarrow> ('k, 'v) dict \<Rightarrow> ('k, 'v) dict" where
  "move_bucket T idx d =
     (let d = move_chain T (bucket (ht0 d) idx) d
      in d\<lparr>ht0 := set_bucket idx [] (ht0 d), rehashidx := int idx + 1\<rparr>)"

lemma move_bucket_spec:
  assumes inv: "reh_inv T d" and ne: "bucket (ht0 d) idx \<noteq> []"
    and lo: "\<And>i. i < idx \<Longrightarrow> bucket (ht0 d) i = []"
  shows "reh_inv T (move_bucket T idx d)"
    and "mset (all_entries (move_bucket T idx d)) = mset (all_entries d)"
    and "iterators (move_bucket T idx d) = iterators d"
    and "rehashidx (move_bucket T idx d) = int idx + 1"
    and "ht_size (ht0 (move_bucket T idx d)) = ht_size (ht0 d)"
proof -
  let ?c = "bucket (ht0 d) idx"
  let ?d = "move_chain T ?c d"
  have ok: "ht_ok T (ht0 d)" "ht_ok T (ht1 d)" "0 < ht_size (ht1 d)" "0 < ht_size (ht0 d)"
    using inv by (simp_all add: reh_inv_def)
  have idx: "idx < ht_size (ht0 d)"
    using ne ht_okD(1) [OF ok(1)] by (auto simp: bucket_def split: if_splits)
  have sb: "set_bucket idx [] (ht0 ?d) =
      (set_bucket idx [] (ht0 d))\<lparr>ht_used := ht_used (ht0 d) - length ?c\<rparr>"
    by (simp add: set_bucket_def)
  have ok0: "ht_ok T (set_bucket idx [] (ht0 ?d))"
    unfolding sb by (rule ht_ok_set_bucket [OF ok(1) idx])
      (use bucket_length_le [OF ok(1), of idx] in simp_all)
  have m1: "ht_ok T (ht1 ?d)" "ht_size (ht1 ?d) = ht_size (ht1 d)"
    "mset (concat (ht_table (ht1 ?d))) = mset ?c + mset (concat (ht_table (ht1 d)))"
    using move_chain_ht1 [OF ok(2,3)] by auto
  have m0: "mset (concat (ht_table (set_bucket idx [] (ht0 d)))) + mset ?c =
      mset (concat (ht_table (ht0 d)))"
    using concat_set_bucket [OF ok(1) idx, of "[]"] by simp
  have lo': "\<forall>i < Suc idx. (ht_table (ht0 d))[idx := []] ! i = []"
    using lo idx ht_okD(1) [OF ok(1)]
    by (auto simp: bucket_def less_Suc_eq nth_list_update)
  show "reh_inv T (move_bucket T idx d)"
    using ok0 m1(1,2) ok(3,4) idx lo'
    by (simp add: reh_inv_def move_bucket_def Let_def nat_add_distrib set_bucket_def)
  show "mset (all_entries (move_bucket T idx d)) = mset (all_entries d)"
    using m0 m1(3) by (simp add: all_entries_def move_bucket_def Let_def set_bucket_def ac_simps)
  show "iterators (move_bucket T idx d) = iterators d"
    and "rehashidx (move_bucket T idx d) = int idx + 1"
    and "ht_size (ht0 (move_bucket T idx d)) = ht_size (ht0 d)"
    by (simp_all add: move_bucket_def Let_def)
qed

text \<open>One pass of the outer loop, and the whole loop.\<close>

lemma reh_inv_low_buckets: "reh_inv T d \<Longrightarrow> i < nat (rehashidx d) \<Longrightarrow> bucket (ht0 d) i = []"
  by (simp add: reh_inv_def bucket_def)

lemma rehash_skip_bound:
  assumes inv: "reh_inv T d" and used: "ht_used (ht0 d) \<noteq> 0"
    and skip: "rehash_skip (ht0 d) (nat (rehashidx d)) ev = (idx, ev', stop)"
  shows "idx \<le> ht_size (ht0 d)" "\<And>i. i < idx \<Longrightarrow> bucket (ht0 d) i = []"
proof -
  show low: "bucket (ht0 d) i = []" if "i < idx" for i
    using rehash_skip_spec [OF skip] reh_inv_low_buckets [OF inv, of i] that
    by (meson linorder_not_less)
  obtain j where "j < ht_size (ht0 d)" "bucket (ht0 d) j \<noteq> []"
    using ht_used_pos_bucket used inv by (metis reh_inv_def)
  with low show "idx \<le> ht_size (ht0 d)" by (meson leI less_trans)
qed

lemma rehash_loop_spec:
  assumes "reh_inv T d" "rehash_loop T n ev d = (d', stop)"
  shows "reh_inv T d' \<and> mset (all_entries d') = mset (all_entries d) \<and>
    iterators d' = iterators d \<and> rehashidx d \<le> rehashidx d' \<and>
    ht_size (ht0 d') = ht_size (ht0 d) \<and>
    (0 < n \<and> 0 < ev \<and> ht_used (ht0 d) \<noteq> 0 \<longrightarrow> rehashidx d < rehashidx d')"
  using assms
proof (induction n arbitrary: ev d)
  case 0
  then show ?case by simp
next
  case (Suc n)
  show ?case
  proof (cases "ht_used (ht0 d) = 0")
    case True
    with Suc.prems show ?thesis by simp
  next
    case used: False
    obtain idx ev2 st where sk: "rehash_skip (ht0 d) (nat (rehashidx d)) ev = (idx, ev2, st)"
      by (metis prod_cases3)
    note sp = rehash_skip_spec [OF sk] and bd = rehash_skip_bound [OF Suc.prems(1) used sk]
    have r0: "0 \<le> rehashidx d" using Suc.prems(1) by (simp add: reh_inv_def)
    show ?thesis
    proof (cases st)
      case True
      with Suc.prems used sk have d': "d' = d\<lparr>rehashidx := int idx\<rparr>" by simp
      have "ht_table (ht0 d) ! i = []" if "i < idx" for i
        using bd(2) [OF that] bd(1) that Suc.prems(1)
        by (simp add: bucket_def reh_inv_def ht_okD(1) split: if_splits)
      then show ?thesis
        using Suc.prems(1) sp r0 bd(1) True
        by (auto simp: d' reh_inv_def all_entries_def zless_nat_eq_int_zless nat_le_iff)
    next
      case False
      then have "rehash_loop T n ev2 (move_bucket T idx d) = (d', stop)"
        using Suc.prems(2) used sk by (simp add: move_bucket_def Let_def)
      moreover have "bucket (ht0 d) idx \<noteq> []" using sp False by simp
      note mb = move_bucket_spec [OF Suc.prems(1) this bd(2), simplified]
      ultimately show ?thesis
        using Suc.IH [OF mb(1), of ev2] mb(2-) sp r0 by (auto simp: nat_le_iff)
    qed
  qed
qed

lemma all_entries_used: "ht_ok T (ht0 d) \<Longrightarrow> ht_used (ht0 d) = 0 \<Longrightarrow>
    all_entries d = concat (ht_table (ht1 d))"
  by (simp add: all_entries_def ht_okD(3))

text \<open>What a rehashing call leaves of the dictionary: the entries, the iterators, the invariant.\<close>

lemma dictRehash_spec:
  assumes ok: "dict_ok T canon d" and eq: "dictRehash T d n = (d', r)"
  shows "dict_ok T canon d'" "mset (all_entries d') = mset (all_entries d)"
    "iterators d' = iterators d"
    "r = 0 \<longleftrightarrow> \<not> dictIsRehashing d'"
    "0 < n \<Longrightarrow> dictIsRehashing d' \<Longrightarrow>
       ht_size (ht0 d') = ht_size (ht0 d) \<and> rehashidx d < rehashidx d'"
proof -
  have *: "dict_ok T canon d' \<and> mset (all_entries d') = mset (all_entries d) \<and>
      iterators d' = iterators d \<and> (r = 0 \<longleftrightarrow> \<not> dictIsRehashing d') \<and>
      (0 < n \<longrightarrow> dictIsRehashing d' \<longrightarrow>
        ht_size (ht0 d') = ht_size (ht0 d) \<and> rehashidx d < rehashidx d')"
  proof (cases "dictIsRehashing d")
    case False
    with ok eq show ?thesis by (simp add: dictRehash_def)
  next
    case True
    then have inv: "reh_inv T d" using ok by (simp add: reh_inv_iff dict_ok_def)
    obtain e stop where l: "rehash_loop T n (n * 10) d = (e, stop)" by fastforce
    note sp = rehash_loop_spec [OF inv l]
    have dist: "distinct (ekeys canon (all_entries e))"
      using sp ok distinct_ekeys_mset [of "all_entries e" "all_entries d" canon]
      by (simp add: dict_ok_def)
    show ?thesis
    proof (cases "\<not> stop \<and> ht_used (ht0 e) = 0")
      case True
      then have d': "d' = e\<lparr>ht0 := ht1 e, ht1 := dictReset, rehashidx := -1\<rparr>" "r = 0"
        using eq l \<open>dictIsRehashing d\<close> by (auto simp: dictRehash_def split: if_splits)
      have "all_entries d' = all_entries e"
        using all_entries_used [of T e] True sp by (simp add: d' reh_inv_def)
          (simp add: all_entries_def dictReset_def)
      then show ?thesis using sp dist
        by (simp add: d' dict_ok_def reh_inv_def rehash_ok_def dictIsRehashing_def)
    next
      case False
      then have d': "d' = e" "r = 1"
        using eq l True by (auto simp: dictRehash_def split: if_splits bool.splits)
      have "0 < n \<longrightarrow> ht_used (ht0 d) \<noteq> 0"
        using False l sp by (cases n) (auto split: if_splits)
      with sp dist show ?thesis by (simp add: d' dict_ok_def reh_inv_iff)
    qed
  qed
  then show "dict_ok T canon d'" "mset (all_entries d') = mset (all_entries d)"
    "iterators d' = iterators d" "r = 0 \<longleftrightarrow> \<not> dictIsRehashing d'"
    "0 < n \<Longrightarrow> dictIsRehashing d' \<Longrightarrow>
       ht_size (ht0 d') = ht_size (ht0 d) \<and> rehashidx d < rehashidx d'" by blast+
qed

lemma dictRehashStep_spec:
  assumes "dict_ok T canon d"
  shows "dict_ok T canon (dictRehashStep T d)"
    "mset (all_entries (dictRehashStep T d)) = mset (all_entries d)"
    "iterators (dictRehashStep T d) = iterators d"
  using dictRehash_spec [OF assms, of 1 "fst (dictRehash T d 1)" "snd (dictRehash T d 1)"] assms
  by (simp_all add: dictRehashStep_def)

subsection \<open>Growing the table\<close>

lemma next_power_loop_spec:
  "\<exists>n \<ge> k. next_power_loop k sz = 2 ^ n \<and> sz \<le> 2 ^ n \<and> (n = k \<or> 2 ^ (n - 1) < sz)"
proof (induction k sz rule: next_power_loop.induct)
  case (1 k sz)
  show ?case
  proof (cases "sz \<le> 2 ^ k")
    case True
    then show ?thesis by (auto simp: next_power_loop.simps [of k])
  next
    case False
    then obtain n where n: "Suc k \<le> n" "next_power_loop (Suc k) sz = 2 ^ n" "sz \<le> 2 ^ n"
      "n = Suc k \<or> 2 ^ (n - 1) < sz" using 1 by blast
    have "2 ^ (n - 1) < sz" using n(4) False by auto
    with n False show ?thesis
      by (intro exI [of _ n]) (simp add: next_power_loop.simps [of k])
  qed
qed

lemma dictNextPower_spec:
  assumes "sz \<le> 2 ^ 31"
  shows "\<exists>n. 2 \<le> n \<and> n \<le> 31 \<and> dictNextPower sz = 2 ^ n \<and> sz \<le> 2 ^ n \<and> (n = 2 \<or> 2 ^ (n - 1) < sz)"
proof -
  obtain n where n: "2 \<le> n" "next_power_loop 2 sz = 2 ^ n" "sz \<le> 2 ^ n" "n = 2 \<or> 2 ^ (n - 1) < sz"
    using next_power_loop_spec [of 2 sz] by blast
  have "n \<le> 31"
  proof (rule ccontr)
    assume "\<not> n \<le> 31"
    then have "(2 :: nat) ^ 31 \<le> 2 ^ (n - 1)" by (intro power_increasing) simp_all
    with n(4) assms \<open>\<not> n \<le> 31\<close> show False by simp
  qed
  with n assms show ?thesis by (auto simp: dictNextPower_def)
qed

lemma concat_replicate_Nil [simp]: "concat (replicate n []) = []"
  by (induction n) simp_all

lemma ht_ok_fresh:
  "2 \<le> n \<Longrightarrow> n \<le> 31 \<Longrightarrow>
   ht_ok T \<lparr>ht_table = replicate (2 ^ n) [], ht_size = 2 ^ n, ht_sizemask = 2 ^ n - 1, ht_used = 0\<rparr>"
  by (auto simp: ht_ok_def)

lemma dictExpand_spec:
  assumes ok: "dict_ok T canon d" and sz: "sz \<le> 2 ^ 31" and eq: "dictExpand d sz = (d', st)"
  shows "dict_ok T canon d'" "all_entries d' = all_entries d" "iterators d' = iterators d"
    "st = DICT_OK \<longleftrightarrow> \<not> dictIsRehashing d \<and> ht_used (ht0 d) \<le> sz \<and>
       dictNextPower sz \<noteq> ht_size (ht0 d)"
    "st = DICT_ERR \<Longrightarrow> d' = d"
    "st = DICT_OK \<Longrightarrow> 0 < ht_size (ht0 d') \<and> (dictIsRehashing d' \<longrightarrow> 0 < ht_size (ht1 d'))"
proof -
  obtain n where n: "2 \<le> n" "n \<le> 31" "dictNextPower sz = 2 ^ n"
    using dictNextPower_spec [OF sz] by blast
  note fresh = ht_ok_fresh [OF n(1,2), of T]
  have tbl: "ht_table (ht0 d) = [] \<longleftrightarrow> ht_size (ht0 d) = 0"
    using ok ht_okD(1) [of T "ht0 d"] by (auto simp: dict_ok_def)
  show "dict_ok T canon d'" "all_entries d' = all_entries d" "iterators d' = iterators d"
    "st = DICT_OK \<longleftrightarrow> \<not> dictIsRehashing d \<and> ht_used (ht0 d) \<le> sz \<and>
       dictNextPower sz \<noteq> ht_size (ht0 d)"
    "st = DICT_ERR \<Longrightarrow> d' = d"
    "st = DICT_OK \<Longrightarrow> 0 < ht_size (ht0 d') \<and> (dictIsRehashing d' \<longrightarrow> 0 < ht_size (ht1 d'))"
    using eq ok fresh tbl
    by (auto simp: dictExpand_def Let_def n dict_ok_def all_entries_def rehash_ok_def
        dictIsRehashing_def dictReset_def split: if_splits)
qed

lemma dictExpandIfNeeded_spec:
  assumes ok: "dict_ok T canon d" and small: "dictSize d \<le> 2 ^ 30"
    and eq: "dictExpandIfNeeded can d = (d', st)"
  shows "dict_ok T canon d'" "all_entries d' = all_entries d" "iterators d' = iterators d"
    "st = DICT_OK" "0 < ht_size (if dictIsRehashing d' then ht1 d' else ht0 d')"
proof -
  have used: "ht_used (ht0 d) * 2 \<le> 2 ^ 31" using small by (simp add: dictSize_def)
  have u0: "ht_used (ht0 d) = 0" if "ht_size (ht0 d) = 0"
    using that ok by (auto simp: dict_ok_def ht_ok_def)
  have np4: "dictNextPower DICT_HT_INITIAL_SIZE \<noteq> 0"
    using dictNextPower_spec [of DICT_HT_INITIAL_SIZE] by (auto simp: DICT_HT_INITIAL_SIZE_def)
  have np2: "dictNextPower (ht_used (ht0 d) * 2) \<noteq> ht_size (ht0 d)"
    if "ht_size (ht0 d) \<le> ht_used (ht0 d)" "ht_size (ht0 d) \<noteq> 0"
    using dictNextPower_spec [OF used] that by auto
  consider (idle) "d' = d" "st = DICT_OK" "dictIsRehashing d \<or> ht_size (ht0 d) \<noteq> 0"
    | (expand) sz where "dictExpand d sz = (d', st)" "sz \<le> 2 ^ 31" "\<not> dictIsRehashing d"
        "ht_used (ht0 d) \<le> sz" "dictNextPower sz \<noteq> ht_size (ht0 d)"
    using eq used u0 np4 np2
    by (fastforce simp: dictExpandIfNeeded_def DICT_HT_INITIAL_SIZE_def split: if_splits)
  then have "dict_ok T canon d' \<and> all_entries d' = all_entries d \<and> iterators d' = iterators d \<and>
    st = DICT_OK \<and> 0 < ht_size (if dictIsRehashing d' then ht1 d' else ht0 d')"
  proof cases
    case idle
    with ok show ?thesis by (auto simp: dict_ok_def rehash_ok_def dictIsRehashing_def)
  next
    case expand
    note sp = dictExpand_spec [OF ok expand(2) expand(1)]
    from sp(4) expand(3-) have "st = DICT_OK" by simp
    with sp show ?thesis by simp
  qed
  then show "dict_ok T canon d'" "all_entries d' = all_entries d" "iterators d' = iterators d"
    "st = DICT_OK" "0 < ht_size (if dictIsRehashing d' then ht1 d' else ht0 d')"
    by simp_all
qed

end
