(* ===== verification/Dict_Map.thy ===== *)
theory Dict_Map
  imports Dict_Refine
begin

text \<open>
  The operations of \<open>dict.c\<close> as operations of a map, proved inside of the locale \<open>dict_type\<close>: adding,
  replacing, deleting and looking up, each with the rehashing step it performs on the way.
\<close>

subsection \<open>Updating one bucket of a dictionary\<close>

lemma get_ht_ok: "dict_ok T canon d \<Longrightarrow> ht_ok T (get_ht d t)"
  by (simp add: dict_ok_def get_ht_def)

lemma all_entries_upd_ht:
  assumes ok: "dict_ok T canon d" and i: "i < ht_size (get_ht d t)"
  shows "mset (all_entries (upd_ht t (\<lambda>h. (set_bucket i c h)\<lparr>ht_used := u h\<rparr>) d)) +
           mset (bucket (get_ht d t) i) = mset (all_entries d) + mset c"
  using concat_set_bucket [OF get_ht_ok [OF ok] i, of c]
  by (auto simp: all_entries_def upd_ht_def get_ht_def ac_simps split: if_splits)

lemma dict_ok_upd_ht:
  assumes ok: "dict_ok T canon d" and i: "i < ht_size (get_ht d t)"
    and t: "t = 0 \<or> t = 1 \<and> dictIsRehashing d"
    and low: "t = 0 \<Longrightarrow> dictIsRehashing d \<Longrightarrow> bucket (ht0 d) i \<noteq> []"
    and c: "\<And>e. e \<in> set c \<Longrightarrow> hash_idx (dictHashKey T (de_key e)) (ht_sizemask (get_ht d t)) = i"
    and u: "u (get_ht d t) + length (bucket (get_ht d t) i) = ht_used (get_ht d t) + length c"
    and dist: "distinct (ekeys canon
      (all_entries (upd_ht t (\<lambda>h. (set_bucket i c h)\<lparr>ht_used := u h\<rparr>) d)))"
  shows "dict_ok T canon (upd_ht t (\<lambda>h. (set_bucket i c h)\<lparr>ht_used := u h\<rparr>) d)"
proof -
  let ?h = "(set_bucket i c (get_ht d t))\<lparr>ht_used := u (get_ht d t)\<rparr>"
  have h: "ht_ok T ?h" by (rule ht_ok_set_bucket [OF get_ht_ok [OF ok] i c u])
  have "rehash_ok (upd_ht t (\<lambda>h. (set_bucket i c h)\<lparr>ht_used := u h\<rparr>) d)"
  proof (cases "t = 0")
    case True
    have "(ht_table (ht0 d))[i := c] ! j = []"
      if "dictIsRehashing d" "j < nat (rehashidx d)" for j
    proof -
      have e: "ht_table (ht0 d) ! j = []" "j < ht_size (ht0 d)"
        using ok that by (auto simp: dict_ok_def rehash_ok_def dictIsRehashing_def)
      moreover have "i \<noteq> j"
        using low [OF True that(1)] e by (auto simp: bucket_def split: if_splits)
      ultimately show ?thesis by simp
    qed
    with ok True show ?thesis
      by (auto simp: dict_ok_def rehash_ok_def upd_ht_def set_bucket_def dictIsRehashing_def)
  next
    case False
    with ok t show ?thesis
      by (auto simp: dict_ok_def rehash_ok_def upd_ht_def dictIsRehashing_def)
  qed
  with ok h dist show ?thesis
    by (auto simp: dict_ok_def upd_ht_def get_ht_def split: if_splits)
qed

lemma bucket_hash:
  assumes "dict_ok T canon d" "e \<in> set (bucket (get_ht d t) i)"
  shows "hash_idx (dictHashKey T (de_key e)) (ht_sizemask (get_ht d t)) = i"
proof -
  have "i < length (ht_table (get_ht d t))" "e \<in> set (ht_table (get_ht d t) ! i)"
    using assms(2) by (auto simp: bucket_def split: if_splits)
  then show ?thesis using get_ht_ok [OF assms(1), of t] by (metis ht_ok_def)
qed

lemma bucket_entries:
  "dict_ok T canon d \<Longrightarrow> e \<in> set (bucket (get_ht d t) i) \<Longrightarrow> e \<in> set (all_entries d)"
  by (auto simp: bucket_def get_ht_def all_entries_def split: if_splits)

lemma valid_ref_entry: "dict_ok T canon d \<Longrightarrow> valid_ref d r \<Longrightarrow> deref d r \<in> set (all_entries d)"
  by (cases r) (auto simp: valid_ref_def deref_def intro!: bucket_entries [OF _ nth_mem])

lemma upd_ht_flags [simp]:
  "rehashidx (upd_ht t f d) = rehashidx d" "iterators (upd_ht t f d) = iterators d"
  "dictIsRehashing (upd_ht t f d) = dictIsRehashing d"
  by (simp_all add: upd_ht_def dictIsRehashing_def)

lemma get_upd_ht [simp]: "get_ht (upd_ht t f d) t = f (get_ht d t)"
  by (simp add: upd_ht_def get_ht_def)

lemma bucket_set_bucket [simp]:
  "ht_ok T h \<Longrightarrow> i < ht_size h \<Longrightarrow> bucket ((set_bucket i c h)\<lparr>ht_used := u\<rparr>) i = c"
  by (simp add: bucket_def set_bucket_def ht_okD(1))

lemma dictSetVal_spec:
  assumes ok: "dict_ok T canon d" and r: "valid_ref d r"
  shows "dict_ok T canon (dictSetVal T d r x)"
    "dict_map canon (dictSetVal T d r x) =
       (dict_map canon d)(canon (de_key (deref d r)) \<mapsto> dictDupVal T x)"
    "dictSize (dictSetVal T d r x) = dictSize d"
    "iterators (dictSetVal T d r x) = iterators d"
proof -
  obtain t i p where r_eq: "r = (t, i, p)" by (metis prod_cases3)
  let ?b = "bucket (get_ht d t) i"
  let ?e = "(?b ! p)\<lparr>de_val := dictDupVal T x\<rparr>"
  let ?d = "upd_ht t (\<lambda>h. (set_bucket i (?b[p := ?e]) h)\<lparr>ht_used := ht_used h\<rparr>) d"
  have v: "i < ht_size (get_ht d t)" "p < length ?b" "t = 0 \<or> t = 1 \<and> dictIsRehashing d"
    using r by (auto simp: r_eq valid_ref_def)
  have eq: "dictSetVal T d r x = ?d"
    by (simp add: dictSetVal_def r_eq upd_ht_def get_ht_def set_bucket_def)
  have b: "?b ! p \<in> set ?b" using v(2) by simp
  have "mset (all_entries ?d) + mset ?b = mset (all_entries d) + mset (?b[p := ?e])"
    by (rule all_entries_upd_ht [OF ok v(1)])
  also have "add_mset (?b ! p) \<dots> = mset (all_entries d) + add_mset ?e (mset ?b)"
    using mset_update_at [OF v(2), of ?e] by simp
  finally have m: "add_mset (?b ! p) (mset (all_entries ?d)) = add_mset ?e (mset (all_entries d))"
    by simp
  have keys: "mset (ekeys canon (all_entries ?d)) = mset (ekeys canon (all_entries d))"
    using arg_cong [OF m, of "image_mset (\<lambda>e. canon (de_key e))"] by (simp add: mset_map)
  have dist: "distinct (ekeys canon (all_entries ?d))"
    using ok mset_eq_imp_distinct_iff [OF keys] by (simp add: dict_ok_def)
  have "dict_ok T canon ?d"
  proof (rule dict_ok_upd_ht [OF ok v(1,3)])
    fix e assume "e \<in> set (?b[p := ?e])"
    then have "e = ?e \<or> e \<in> set ?b" using set_update_subset_insert by fastforce
    then show "hash_idx (dictHashKey T (de_key e)) (ht_sizemask (get_ht d t)) = i"
      using bucket_hash [OF ok b] bucket_hash [OF ok, of e t i] by auto
  qed (use v dist in \<open>auto simp: get_ht_def\<close>)
  then show "dict_ok T canon (dictSetVal T d r x)" by (simp add: eq)
  obtain es where es: "mset (all_entries d) = add_mset (?b ! p) (mset es)"
    using bucket_entries [OF ok b]
    by (metis ex_mset multi_member_split set_mset_mset)
  then have es': "mset (all_entries ?d) = add_mset ?e (mset es)" using m by simp
  have 1: "entry_map canon (all_entries d) = entry_map canon (?b ! p # es)"
    by (rule entry_map_mset) (use es ok in \<open>simp_all add: dict_ok_def\<close>)
  have 2: "entry_map canon (all_entries ?d) = entry_map canon (?e # es)"
    by (rule entry_map_mset) (use es' dist in simp_all)
  show "dict_map canon (dictSetVal T d r x) =
       (dict_map canon d)(canon (de_key (deref d r)) \<mapsto> dictDupVal T x)"
    unfolding dict_map_def eq by (simp only: 1 2) (simp add: r_eq deref_def)
  show "dictSize (dictSetVal T d r x) = dictSize d" "iterators (dictSetVal T d r x) = iterators d"
    by (simp_all add: eq dictSize_def upd_ht_def)
qed

subsection \<open>The contract of a dictType\<close>

locale dict_type =
  fixes T :: "('k, 'v) dictType" and canon :: "'k \<Rightarrow> 'c"
  assumes match: "key_matches T a b \<longleftrightarrow> canon a = canon b"
    and hash_canon: "canon a = canon b \<Longrightarrow> dictHashKey T a = dictHashKey T b"
    and dup_canon: "canon (dictSetKey T k) = canon k"
begin

lemma chain_find_Some:
  "chain_find T k c = Some p \<Longrightarrow> p < length c \<and> canon (de_key (c ! p)) = canon k"
  by (induction c arbitrary: p) (auto simp: match split: if_splits)

lemma chain_find_None:
  "chain_find T k c = None \<longleftrightarrow> (\<forall>e \<in> set c. canon (de_key e) \<noteq> canon k)"
  by (induction c) (auto simp: match)

lemma search_Some:
  assumes ok: "dict_ok T canon d" and s: "dict_search T d k = Some r"
  shows "valid_ref d r" "canon (de_key (deref d r)) = canon k"
proof -
  obtain t i p where r: "r = (t, i, p)" by (metis prod_cases3)
  have t: "t = 0 \<or> t = 1 \<and> dictIsRehashing d"
    and f: "chain_find T k (bucket (get_ht d t) i) = Some p"
    using s by (auto simp: dict_search_def r Let_def get_ht_def split: option.splits if_splits)
  note p = chain_find_Some [OF f]
  have "i < ht_size (get_ht d t)"
    using p ht_okD(1) [OF get_ht_ok [OF ok, of t]] by (auto simp: bucket_def split: if_splits)
  with p t show "valid_ref d r" "canon (de_key (deref d r)) = canon k"
    by (simp_all add: valid_ref_def r deref_def)
qed

lemma search_None:
  assumes ok: "dict_ok T canon d" and s: "dict_search T d k = None"
  shows "canon k \<notin> set (ekeys canon (all_entries d))"
proof
  assume "canon k \<in> set (ekeys canon (all_entries d))"
  then obtain e where e: "e \<in> set (all_entries d)" "canon (de_key e) = canon k" by auto
  have h: "dictHashKey T (de_key e) = dictHashKey T k" by (rule hash_canon) (rule e(2))
  have n0: "e \<notin> set (bucket (ht0 d) (hash_idx (dictHashKey T k) (ht_sizemask (ht0 d))))"
    and n1: "dictIsRehashing d \<Longrightarrow>
      e \<notin> set (bucket (ht1 d) (hash_idx (dictHashKey T k) (ht_sizemask (ht1 d))))"
    using s e(2) by (auto simp: dict_search_def Let_def chain_find_None split: option.splits if_splits)
  have ok': "ht_ok T (ht0 d)" "ht_ok T (ht1 d)" using ok by (simp_all add: dict_ok_def)
  have "e \<notin> set (concat (ht_table (ht0 d)))"
    using ht_ok_member [OF ok'(1)] n0 h by metis
  moreover have "e \<notin> set (concat (ht_table (ht1 d)))"
  proof (cases "dictIsRehashing d")
    case True
    then show ?thesis using ht_ok_member [OF ok'(2)] n1 h by metis
  next
    case False
    then have "ht1 d = dictReset"
      using ok by (simp add: dict_ok_def rehash_ok_def dictIsRehashing_def)
    then show ?thesis by (simp add: dictReset_def)
  qed
  ultimately show False using e(1) by (simp add: all_entries_def)
qed

lemma search_map:
  assumes "dict_ok T canon d"
  shows "map_option (\<lambda>r. de_val (deref d r)) (dict_search T d k) = dict_map canon d (canon k)"
proof (cases "dict_search T d k")
  case None
  have "dict_map canon d (canon k) = None"
    unfolding dict_map_def entry_map_None_iff by (rule search_None [OF assms None])
  with None show ?thesis by simp
next
  case (Some r)
  note sp = search_Some [OF assms Some]
  have "entry_map canon (all_entries d) (canon (de_key (deref d r))) = Some (de_val (deref d r))"
    by (rule entry_map_member) (use assms valid_ref_entry [OF assms sp(1)] in \<open>simp_all add: dict_ok_def\<close>)
  with Some sp(2) show ?thesis by (simp add: dict_map_def)
qed

end

subsection \<open>Operations\<close>

lemma dictSize_entries: "dict_ok T canon d \<Longrightarrow> dictSize d = length (all_entries d)"
  using ht_okD(3) [of T "ht0 d"] ht_okD(3) [of T "ht1 d"]
  by (simp add: dict_ok_def dictSize_def all_entries_def)

text \<open>Two dictionaries with the same entries in some order are the same map of the same size.\<close>

lemma same_entries:
  assumes "dict_ok T canon d" "dict_ok T canon d'" "mset (all_entries d') = mset (all_entries d)"
  shows "dict_map canon d' = dict_map canon d" "dictSize d' = dictSize d"
proof -
  show "dict_map canon d' = dict_map canon d"
    unfolding dict_map_def using assms by (intro entry_map_mset) (simp_all add: dict_ok_def)
  have "length (all_entries d') = length (all_entries d)"
    by (rule mset_eq_length) (rule assms(3))
  then show "dictSize d' = dictSize d"
    using assms(1,2) by (simp add: dictSize_entries)
qed

definition maybe_step :: "('k, 'v) dictType \<Rightarrow> ('k, 'v) dict \<Rightarrow> ('k, 'v) dict" where
  "maybe_step T d = (if dictIsRehashing d then dictRehashStep T d else d)"

lemma maybe_step_spec:
  assumes "dict_ok T canon d"
  shows "dict_ok T canon (maybe_step T d)" "dict_map canon (maybe_step T d) = dict_map canon d"
    "dictSize (maybe_step T d) = dictSize d" "iterators (maybe_step T d) = iterators d"
  using same_entries [of T canon d "maybe_step T d"] assms dictRehashStep_spec [OF assms]
  by (simp_all add: maybe_step_def)

lemma dictGenericDelete_eq:
  "dictGenericDelete T d k =
     (if dictSize d = 0 then (d, None)
      else case dict_search T (maybe_step T d) k of
          None \<Rightarrow> (maybe_step T d, None)
        | Some (t, i, p) \<Rightarrow>
            (upd_ht t (\<lambda>h. (set_bucket i (remove_at p (bucket h i)) h)\<lparr>ht_used := ht_used h - 1\<rparr>)
               (maybe_step T d),
             Some (deref (maybe_step T d) (t, i, p))))"
  unfolding dictGenericDelete_def maybe_step_def Let_def dictSize_def by simp

context dict_type
begin

lemma find_spec:
  assumes ok: "dict_ok T canon d" and f: "dictFind T d k = (d', r)"
  shows "dict_ok T canon d'" "dict_map canon d' = dict_map canon d"
    "dictSize d' = dictSize d" "iterators d' = iterators d"
    "map_option (\<lambda>r. de_val (deref d' r)) r = dict_map canon d (canon k)"
    "r = Some q \<Longrightarrow> valid_ref d' q \<and> canon (de_key (deref d' q)) = canon k"
proof -
  note st = maybe_step_spec [OF ok]
  consider "dictSize d = 0" "d' = d" "r = None"
    | "d' = maybe_step T d" "r = dict_search T (maybe_step T d) k"
    using f by (auto simp: dictFind_def maybe_step_def dictSize_def Let_def split: if_splits)
  then have "dict_ok T canon d' \<and> dict_map canon d' = dict_map canon d \<and> dictSize d' = dictSize d \<and>
    iterators d' = iterators d \<and>
    map_option (\<lambda>r. de_val (deref d' r)) r = dict_map canon d (canon k) \<and>
    (r = Some q \<longrightarrow> valid_ref d' q \<and> canon (de_key (deref d' q)) = canon k)"
  proof cases
    case 1
    then have "all_entries d = []" using dictSize_entries [OF ok] by simp
    with 1 ok show ?thesis by (simp add: dict_map_def entry_map_def)
  next
    case 2
    with st search_map [OF st(1)] search_Some [OF st(1)] show ?thesis by simp
  qed
  then show "dict_ok T canon d'" "dict_map canon d' = dict_map canon d"
    "dictSize d' = dictSize d" "iterators d' = iterators d"
    "map_option (\<lambda>r. de_val (deref d' r)) r = dict_map canon d (canon k)"
    "r = Some q \<Longrightarrow> valid_ref d' q \<and> canon (de_key (deref d' q)) = canon k" by simp_all
qed

lemma fetchValue_spec:
  assumes ok: "dict_ok T canon d" and f: "dictFetchValue T d k = (d', x)"
  shows "dict_ok T canon d'" "dict_map canon d' = dict_map canon d"
    "dictSize d' = dictSize d" "iterators d' = iterators d" "x = dict_map canon d (canon k)"
proof -
  obtain e r where e: "dictFind T d k = (e, r)" by fastforce
  with f have "d' = e" "x = map_option (\<lambda>r. de_val (deref e r)) r"
    by (auto simp: dictFetchValue_def split: option.splits)
  with find_spec [OF ok e] show "dict_ok T canon d'" "dict_map canon d' = dict_map canon d"
    "dictSize d' = dictSize d" "iterators d' = iterators d" "x = dict_map canon d (canon k)"
    by simp_all
qed

lemma genericDelete_spec:
  assumes ok: "dict_ok T canon d" and g: "dictGenericDelete T d k = (d', x)"
  shows "dict_ok T canon d'" "dict_map canon d' = (dict_map canon d)(canon k := None)"
    "map_option de_val x = dict_map canon d (canon k)"
    "dictSize d = dictSize d' + (if x = None then 0 else 1)" "iterators d' = iterators d"
proof -
  let ?e = "maybe_step T d"
  note st = maybe_step_spec [OF ok]
  consider (empty) "dictSize d = 0" "d' = d" "x = None"
    | (absent) "d' = ?e" "x = None" "dict_search T ?e k = None"
    | (present) t i p where "dict_search T ?e k = Some (t, i, p)" "x = Some (deref ?e (t, i, p))"
       "d' = upd_ht t (\<lambda>h. (set_bucket i (remove_at p (bucket h i)) h)\<lparr>ht_used := ht_used h - 1\<rparr>) ?e"
  proof (cases "dictSize d = 0")
    case True
    show ?thesis by (rule that(1)) (use g True in \<open>simp_all add: dictGenericDelete_eq\<close>)
  next
    case False
    note eq = g [unfolded dictGenericDelete_eq if_not_P [OF False]]
    show ?thesis
    proof (cases "dict_search T ?e k")
      case None
      show ?thesis by (rule that(2)) (use eq None in simp_all)
    next
      case (Some r)
      obtain t i p where r: "r = (t, i, p)" by (rule prod_cases3)
      show ?thesis by (rule that(3) [of t i p]) (use eq Some r in simp_all)
    qed
  qed
  then have "dict_ok T canon d' \<and> dict_map canon d' = (dict_map canon d)(canon k := None) \<and>
    map_option de_val x = dict_map canon d (canon k) \<and>
    dictSize d = dictSize d' + (if x = None then 0 else 1) \<and> iterators d' = iterators d"
  proof cases
    case empty
    then have "all_entries d = []" using dictSize_entries [OF ok] by simp
    with empty ok show ?thesis by (simp add: dict_map_def entry_map_def)
  next
    case absent
    with search_map [OF st(1), of k] st show ?thesis by (auto simp: fun_eq_iff)
  next
    case present
    note sp = search_Some [OF st(1) present(1)]
    let ?b = "bucket (get_ht ?e t) i"
    let ?c = "remove_at p ?b"
    let ?d = "upd_ht t (\<lambda>h. (set_bucket i ?c h)\<lparr>ht_used := ht_used h - 1\<rparr>) ?e"
    have d': "d' = ?d" unfolding present(3) by (simp add: upd_ht_def get_ht_def)
    have v: "i < ht_size (get_ht ?e t)" "p < length ?b" "t = 0 \<or> t = 1 \<and> dictIsRehashing ?e"
      using sp(1) by (auto simp: valid_ref_def)
    have "mset (all_entries ?d) + mset ?b = mset (all_entries ?e) + mset ?c"
      by (rule all_entries_upd_ht [OF st(1) v(1)])
    then have m: "mset (all_entries ?e) = add_mset (?b ! p) (mset (all_entries ?d))"
      by (simp flip: remove_at_mset [OF v(2)])
    have dist: "distinct (ekeys canon (all_entries ?e))" using st(1) by (simp add: dict_ok_def)
    then have dist': "distinct (ekeys canon (all_entries ?d))"
      using distinct_ekeys_mset [of "all_entries ?e" "?b ! p # all_entries ?d" canon] m by simp
    have ok': "dict_ok T canon ?d"
    proof (rule dict_ok_upd_ht [OF st(1) v(1,3)])
      fix e assume "e \<in> set ?c"
      then have "e \<in> set ?b" using set_remove_at by fast
      then show "hash_idx (dictHashKey T (de_key e)) (ht_sizemask (get_ht ?e t)) = i"
        by (rule bucket_hash [OF st(1)])
    next
      show "ht_used (get_ht ?e t) - 1 + length ?b = ht_used (get_ht ?e t) + length ?c"
        using bucket_length_le [OF get_ht_ok [OF st(1)], of t i] v(2)
        by (simp add: remove_at_def)
    qed (use v dist' in \<open>auto simp: get_ht_def\<close>)
    have "dict_map canon ?d = (dict_map canon ?e)(canon (de_key (?b ! p)) := None)"
      unfolding dict_map_def by (rule entry_map_remove [OF m dist])
    moreover have "dictSize ?e = Suc (dictSize ?d)"
      unfolding dictSize_entries [OF st(1)] dictSize_entries [OF ok']
      using arg_cong [OF m, of size] by simp
    moreover have "dict_map canon d (canon k) = Some (de_val (?b ! p))"
      using search_map [OF st(1), of k] present(1) st(2) by (simp add: deref_def)
    ultimately show ?thesis
      using ok' st sp(2) present(2) by (simp add: d' deref_def)
  qed
  then show "dict_ok T canon d'" "dict_map canon d' = (dict_map canon d)(canon k := None)"
    "map_option de_val x = dict_map canon d (canon k)"
    "dictSize d = dictSize d' + (if x = None then 0 else 1)" "iterators d' = iterators d" by simp_all
qed

lemma addRaw_eq:
  assumes "dictExpandIfNeeded can (maybe_step T d) = (e, DICT_OK)"
  shows "dictAddRaw T can junk d k =
    (let t = (if dictIsRehashing e then 1 else 0);
         idx = hash_idx (dictHashKey T k) (ht_sizemask (get_ht e t));
         index = (case dict_search T e k of Some r \<Rightarrow> -1 | None \<Rightarrow> sint (word_of_nat idx :: u32));
         existing = dict_search T e k
     in if index = -1 then (e, None, existing)
        else (upd_ht t (\<lambda>h. (set_bucket (nat index)
                 (\<lparr>de_key = dictSetKey T k, de_val = junk\<rparr> # bucket h (nat index)) h)
                 \<lparr>ht_used := ht_used h + 1\<rparr>) e, Some (t, nat index, 0), existing))"
  unfolding dictAddRaw_def maybe_step_def [symmetric] dictKeyIndex_def
  by (simp add: assms Let_def get_ht_def split: option.split)

lemma addRaw_present:
  assumes ok: "dict_ok T canon d" and small: "dictSize d \<le> 2 ^ 30"
    and a: "dictAddRaw T can junk d k = (d', new, ex)"
    and p: "dict_map canon d (canon k) \<noteq> None"
  shows "dict_ok T canon d'" "dict_map canon d' = dict_map canon d" "dictSize d' = dictSize d"
    "iterators d' = iterators d" "new = None"
    "\<exists>r. ex = Some r \<and> valid_ref d' r \<and> canon (de_key (deref d' r)) = canon k"
proof -
  note st = maybe_step_spec [OF ok]
  obtain e s where e: "dictExpandIfNeeded can (maybe_step T d) = (e, s)" by fastforce
  note xp = dictExpandIfNeeded_spec [OF st(1) small [folded st(3)] e]
  note same = same_entries [OF st(1) xp(1)]
  have "dict_search T e k \<noteq> None"
    using search_map [OF xp(1), of k] same xp(2) st(2) p by auto
  then obtain r where r: "dict_search T e k = Some r" by auto
  have "d' = e" "new = None" "ex = Some r"
    using a addRaw_eq [of can d e junk k] e xp(4) r by (simp_all add: Let_def)
  with xp same st search_Some [OF xp(1) r]
  show "dict_ok T canon d'" "dict_map canon d' = dict_map canon d" "dictSize d' = dictSize d"
    "iterators d' = iterators d" "new = None"
    "\<exists>r. ex = Some r \<and> valid_ref d' r \<and> canon (de_key (deref d' r)) = canon k"
    by auto
qed

lemma addRaw_absent:
  assumes ok: "dict_ok T canon d" and small: "dictSize d \<le> 2 ^ 30"
    and a: "dictAddRaw T can junk d k = (d', new, ex)"
    and p: "dict_map canon d (canon k) = None"
  shows "dict_ok T canon d'" "dict_map canon d' = (dict_map canon d)(canon k \<mapsto> junk)"
    "dictSize d' = Suc (dictSize d)" "iterators d' = iterators d" "ex = None"
    "\<exists>r. new = Some r \<and> valid_ref d' r \<and> canon (de_key (deref d' r)) = canon k"
proof -
  note st = maybe_step_spec [OF ok]
  obtain e s where e: "dictExpandIfNeeded can (maybe_step T d) = (e, s)" by fastforce
  note xp = dictExpandIfNeeded_spec [OF st(1) small [folded st(3)] e]
  note same = same_entries [OF st(1) xp(1)]
  define t where "t = (if dictIsRehashing e then 1 else 0 :: nat)"
  define i where "i = hash_idx (dictHashKey T k) (ht_sizemask (get_ht e t))"
  define x where "x = \<lparr>de_key = dictSetKey T k, de_val = junk\<rparr>"
  define c where "c = x # bucket (get_ht e t) i"
  have sz: "0 < ht_size (get_ht e t)"
    using xp(5) by (simp add: t_def get_ht_def split: if_splits)
  have i: "i < ht_size (get_ht e t)"
    unfolding i_def by (rule ht_ok_idx_lt [OF get_ht_ok [OF xp(1)] sz])
  have i31: "i < 2 ^ 31" using i ht_ok_size_le [OF get_ht_ok [OF xp(1), of t]] by linarith
  have s: "dict_search T e k = None"
    using search_map [OF xp(1), of k] same xp(2) st(2) p by auto
  have sint: "sint (word_of_nat i :: u32) = int i" by (rule sint_small [OF i31])
  have e': "dictExpandIfNeeded can (maybe_step T d) = (e, DICT_OK)" using e xp(4) by simp
  have "dictAddRaw T can junk d k =
      (upd_ht t (\<lambda>h. (set_bucket i (x # bucket h i) h)\<lparr>ht_used := ht_used h + 1\<rparr>) e, Some (t, i, 0), None)"
    unfolding addRaw_eq [OF e'] Let_def t_def [symmetric] i_def [symmetric] s x_def
    by (simp add: sint)
  then have d': "d' = upd_ht t (\<lambda>h. (set_bucket i c h)\<lparr>ht_used := ht_used h + 1\<rparr>) e"
    and ne: "new = Some (t, i, 0)" "ex = None"
    using a by (simp_all add: c_def upd_ht_def get_ht_def)
  have m: "mset (all_entries d') = mset (x # all_entries e)"
    using all_entries_upd_ht [OF xp(1) i, where c = c and u = "\<lambda>h. ht_used h + 1"] by (simp add: d' c_def)
  have cx: "canon (de_key x) = canon k" by (simp add: x_def dup_canon)
  have "distinct (ekeys canon (x # all_entries e))"
    using search_None [OF xp(1) s] xp(1) cx by (simp add: dict_ok_def)
  then have dist: "distinct (ekeys canon (all_entries d'))"
    using distinct_ekeys_mset [OF m] by blast
  have hx: "dictHashKey T (de_key x) = dictHashKey T k" by (rule hash_canon [OF cx])
  show ok': "dict_ok T canon d'"
    unfolding d'
  proof (rule dict_ok_upd_ht [OF xp(1) i])
    fix y assume "y \<in> set c"
    then show "hash_idx (dictHashKey T (de_key y)) (ht_sizemask (get_ht e t)) = i"
      using bucket_hash [OF xp(1), of y t i] hx by (auto simp: c_def i_def)
  qed (use dist in \<open>auto simp: t_def c_def d' split: if_splits\<close>)
  have "entry_map canon (all_entries d') = entry_map canon (x # all_entries e)"
    by (rule entry_map_mset [OF m dist])
  then show "dict_map canon d' = (dict_map canon d)(canon k \<mapsto> junk)"
    using same(1) xp(2) st(2) cx by (simp add: dict_map_def x_def)
  show "dictSize d' = Suc (dictSize d)"
    using arg_cong [OF m, of size] same(2) xp(2) st(3)
    by (simp add: dictSize_entries [OF ok'] dictSize_entries [OF xp(1)])
  show "iterators d' = iterators d" using xp(3) st(4) by (simp add: d')
  show "ex = None" by (rule ne(2))
  have "bucket (get_ht d' t) i = c"
    unfolding d' get_upd_ht by (rule bucket_set_bucket [OF get_ht_ok [OF xp(1)] i])
  then have "valid_ref d' (t, i, 0) \<and> canon (de_key (deref d' (t, i, 0))) = canon k"
    using i cx by (simp add: valid_ref_def deref_def c_def d' t_def)
  with ne(1) show "\<exists>r. new = Some r \<and> valid_ref d' r \<and> canon (de_key (deref d' r)) = canon k"
    by blast
qed

lemma add_spec:
  assumes ok: "dict_ok T canon d" and small: "dictSize d \<le> 2 ^ 30"
    and a: "dictAdd T can junk d k x = (d', st)"
  shows "dict_ok T canon d'" "iterators d' = iterators d"
    "st = DICT_OK \<longleftrightarrow> dict_map canon d (canon k) = None"
    "dict_map canon d' = (case dict_map canon d (canon k) of
        None \<Rightarrow> (dict_map canon d)(canon k \<mapsto> dictDupVal T x) | Some _ \<Rightarrow> dict_map canon d)"
    "dictSize d' = dictSize d + (if st = DICT_OK then 1 else 0)"
proof -
  obtain e new ex where r: "dictAddRaw T can junk d k = (e, new, ex)" by (metis prod_cases3)
  have "dict_ok T canon d' \<and> iterators d' = iterators d \<and>
    (st = DICT_OK \<longleftrightarrow> dict_map canon d (canon k) = None) \<and>
    dict_map canon d' = (case dict_map canon d (canon k) of
        None \<Rightarrow> (dict_map canon d)(canon k \<mapsto> dictDupVal T x) | Some _ \<Rightarrow> dict_map canon d) \<and>
    dictSize d' = dictSize d + (if st = DICT_OK then 1 else 0)"
  proof (cases "dict_map canon d (canon k)")
    case None
    note sp = addRaw_absent [OF ok small r None]
    then obtain q where q: "new = Some q" "valid_ref e q" "canon (de_key (deref e q)) = canon k"
      by blast
    have "d' = dictSetVal T e q x" "st = DICT_OK" using a r q by (auto simp: dictAdd_def)
    with dictSetVal_spec [OF sp(1) q(2), of x] sp(2-4) None q(3) show ?thesis by simp
  next
    case (Some y)
    then have "dict_map canon d (canon k) \<noteq> None" by simp
    note sp = addRaw_present [OF ok small r this]
    have "d' = e" "st = DICT_ERR" using a r sp(5) by (auto simp: dictAdd_def)
    with sp Some show ?thesis by simp
  qed
  then show "dict_ok T canon d'" "iterators d' = iterators d"
    "st = DICT_OK \<longleftrightarrow> dict_map canon d (canon k) = None"
    "dict_map canon d' = (case dict_map canon d (canon k) of
        None \<Rightarrow> (dict_map canon d)(canon k \<mapsto> dictDupVal T x) | Some _ \<Rightarrow> dict_map canon d)"
    "dictSize d' = dictSize d + (if st = DICT_OK then 1 else 0)" by blast+
qed

lemma replace_spec:
  assumes ok: "dict_ok T canon d" and small: "dictSize d \<le> 2 ^ 30"
  shows "\<exists>d' n. dictReplace T can junk d k x = Some (d', n) \<and> dict_ok T canon d' \<and>
    iterators d' = iterators d \<and> dict_map canon d' = (dict_map canon d)(canon k \<mapsto> dictDupVal T x) \<and>
    (n = 1 \<longleftrightarrow> dict_map canon d (canon k) = None) \<and>
    dictSize d' = (if dict_map canon d (canon k) = None then Suc (dictSize d) else dictSize d)"
proof -
  obtain e new ex where r: "dictAddRaw T can junk d k = (e, new, ex)" by (metis prod_cases3)
  show ?thesis
  proof (cases "dict_map canon d (canon k) = None")
    case True
    note sp = addRaw_absent [OF ok small r True]
    then obtain q where q: "new = Some q" "valid_ref e q" "canon (de_key (deref e q)) = canon k"
      by blast
    with dictSetVal_spec [OF sp(1) q(2), of x] sp(2-4) True r show ?thesis
      by (simp add: dictReplace_def)
  next
    case False
    note sp = addRaw_present [OF ok small r False]
    then obtain q where q: "ex = Some q" "valid_ref e q" "canon (de_key (deref e q)) = canon k"
      by blast
    with dictSetVal_spec [OF sp(1) q(2), of x] sp(2-5) False r show ?thesis
      by (simp add: dictReplace_def)
  qed
qed

end

end
