(* ===== verification/Dict_Scan.thy ===== *)
theory Dict_Scan
  imports Dict_Map
begin

text \<open>
  Cursor iteration over a dictionary (\<open>dictScan\<close> of \<open>src/dict.c\<close>). The cursor is incremented on
  its reversed bits. In the reversed order a call at a table of \<open>2 ^ n\<close> buckets covers an aligned
  interval of width \<open>2 ^ (64 - n)\<close> and returns its end, so consecutive calls cover the whole range
  whatever the table sizes are in between.
\<close>

subsection \<open>Definitions\<close>

text \<open>The loop of \<open>rev\<close>: \<open>s\<close> is halved, \<open>mask\<close> and \<open>v\<close> are updated while it is positive.\<close>

function rev_loop :: "nat \<Rightarrow> u64 \<Rightarrow> u64 \<Rightarrow> u64" where
  "rev_loop s msk v =
     (let s = s div 2 in
      if 0 < s then
        let msk = msk XOR push_bit s msk;
            v = (drop_bit s v AND msk) OR (push_bit s v AND NOT msk)
        in rev_loop s msk v
      else v)"
  by pat_completeness auto
termination by (relation "measure (\<lambda>(s, msk, v). s)") auto

declare rev_loop.simps [simp del]

definition rev_bits :: "u64 \<Rightarrow> u64" where
  "rev_bits v = rev_loop 64 (NOT 0) v"

text \<open>The last four statements of \<open>dictScan\<close>.\<close>

definition scan_next :: "u64 \<Rightarrow> u64 \<Rightarrow> u64" where
  "scan_next m0 v =
     (let v = v OR NOT m0;
          v = rev_bits v;
          v = v + 1;
          v = rev_bits v
      in v)"

text \<open>The \<open>do ... while (v & (m0 ^ m1))\<close> loop over the larger table.\<close>

fun scan_expand ::
  "nat \<Rightarrow> ('k, 'v) dictht \<Rightarrow> u64 \<Rightarrow> u64 \<Rightarrow> u64 \<Rightarrow> (u64 \<times> ('k, 'v) dictEntry list) option" where
  "scan_expand 0 t1 m0 m1 v = None"
| "scan_expand (Suc fuel) t1 m0 m1 v =
     (let es = bucket t1 (unat (v AND m1));
          v = (((v OR m0) + 1) AND NOT m0) OR (v AND m0)
      in if v AND (m0 XOR m1) \<noteq> 0
         then map_option (\<lambda>(v, es'). (v, es @ es')) (scan_expand fuel t1 m0 m1 v)
         else Some (v, es))"

text \<open>New cursor and the entries handed to the callback; \<open>None\<close> if the fuel runs out.\<close>

definition dictScan :: "('k, 'v) dict \<Rightarrow> u64 \<Rightarrow> (u64 \<times> ('k, 'v) dictEntry list) option" where
  "dictScan d v =
     (if dictSize d = 0 then Some (0, [])
      else if \<not> dictIsRehashing d then
        let t0 = ht0 d;
            m0 = word_of_nat (ht_sizemask t0)
        in Some (scan_next m0 v, bucket t0 (unat (v AND m0)))
      else
        let (t0, t1) = (if ht_size (ht0 d) > ht_size (ht1 d) then (ht1 d, ht0 d) else (ht0 d, ht1 d));
            m0 = word_of_nat (ht_sizemask t0);
            m1 = word_of_nat (ht_sizemask t1);
            es = bucket t0 (unat (v AND m0))
        in case scan_expand (ht_size t1) t1 m0 m1 v of
             None \<Rightarrow> None
           | Some (v, es') \<Rightarrow> Some (scan_next m0 v, es @ es'))"

subsection \<open>Bit reversal\<close>

lemma all_less_64: "list_all P [0..<64] \<Longrightarrow> i < 64 \<Longrightarrow> P i"
  by (simp add: list_all_iff)

definition rev_step :: "nat \<Rightarrow> u64 \<Rightarrow> u64 \<Rightarrow> u64" where
  "rev_step s msk v = (drop_bit s v AND msk) OR (push_bit s v AND NOT msk)"

lemma rev_loop_step:
  "0 < s div 2 \<Longrightarrow> msk XOR push_bit (s div 2) msk = m' \<Longrightarrow>
   rev_loop s msk v = rev_loop (s div 2) m' (rev_step (s div 2) m' v)"
  by (subst rev_loop.simps) (simp add: Let_def rev_step_def)

lemma rev_masks:
  "(NOT 0 :: u64) XOR push_bit 32 (NOT 0) = 0x00000000FFFFFFFF"
  "(0x00000000FFFFFFFF :: u64) XOR push_bit 16 0x00000000FFFFFFFF = 0x0000FFFF0000FFFF"
  "(0x0000FFFF0000FFFF :: u64) XOR push_bit 8 0x0000FFFF0000FFFF = 0x00FF00FF00FF00FF"
  "(0x00FF00FF00FF00FF :: u64) XOR push_bit 4 0x00FF00FF00FF00FF = 0x0F0F0F0F0F0F0F0F"
  "(0x0F0F0F0F0F0F0F0F :: u64) XOR push_bit 2 0x0F0F0F0F0F0F0F0F = 0x3333333333333333"
  "(0x3333333333333333 :: u64) XOR push_bit 1 0x3333333333333333 = 0x5555555555555555"
  by code_simp+

lemma rev_bits_steps:
  "rev_bits v = rev_step 1 0x5555555555555555 (rev_step 2 0x3333333333333333
     (rev_step 4 0x0F0F0F0F0F0F0F0F (rev_step 8 0x00FF00FF00FF00FF
     (rev_step 16 0x0000FFFF0000FFFF (rev_step 32 0x00000000FFFFFFFF v)))))"
proof -
  have s: "rev_loop t msk w = rev_loop s m' (rev_step s m' w)"
    if "msk XOR push_bit s msk = m'" "0 < s" "t = 2 * s" for s t msk m' w
    using rev_loop_step [of t msk m'] that by simp
  have fin: "rev_loop 1 m w = w" for m w by (subst rev_loop.simps) simp
  show ?thesis
    unfolding rev_bits_def
    by (subst s [OF rev_masks(1)], simp, simp, subst s [OF rev_masks(2)], simp, simp,
        subst s [OF rev_masks(3)], simp, simp, subst s [OF rev_masks(4)], simp, simp,
        subst s [OF rev_masks(5)], simp, simp, subst s [OF rev_masks(6)], simp, simp, rule fin)
qed

definition flip :: "nat \<Rightarrow> nat \<Rightarrow> nat" where
  "flip s i = (if even (i div s) then i + s else i - s)"

lemma rev_step_bit:
  assumes "list_all (\<lambda>i. bit msk i = even (i div s)) [0..<64]" "i < 64"
  shows "bit (rev_step s msk v) i = bit v (flip s i)"
proof -
  have m: "bit msk i = even (i div s)" by (rule all_less_64 [OF assms])
  have "odd (i div s) \<Longrightarrow> s \<le> i" by (metis div_less linorder_not_less even_zero)
  with m assms(2) show ?thesis
    by (auto simp: rev_step_def flip_def bit_or_iff bit_and_iff bit_not_iff bit_drop_bit_eq
        bit_push_bit_iff add.commute)
qed

lemma rev_step_masks:
  "list_all (\<lambda>i. bit (0x00000000FFFFFFFF :: u64) i = even (i div 32)) [0..<64]"
  "list_all (\<lambda>i. bit (0x0000FFFF0000FFFF :: u64) i = even (i div 16)) [0..<64]"
  "list_all (\<lambda>i. bit (0x00FF00FF00FF00FF :: u64) i = even (i div 8)) [0..<64]"
  "list_all (\<lambda>i. bit (0x0F0F0F0F0F0F0F0F :: u64) i = even (i div 4)) [0..<64]"
  "list_all (\<lambda>i. bit (0x3333333333333333 :: u64) i = even (i div 2)) [0..<64]"
  "list_all (\<lambda>i. bit (0x5555555555555555 :: u64) i = even (i div 1)) [0..<64]"
  by code_simp+

definition flips_ok :: "nat \<Rightarrow> bool" where
  "flips_ok i \<longleftrightarrow> flip 32 (flip 16 (flip 8 (flip 4 (flip 2 (flip 1 i))))) = 63 - i \<and>
     flip 1 i < 64 \<and> flip 2 i < 64 \<and> flip 4 i < 64 \<and> flip 8 i < 64 \<and> flip 16 i < 64"

lemma flips: "i < 64 \<Longrightarrow> flips_ok i"
proof (rule all_less_64)
  show "list_all flips_ok [0..<64]" by (simp add: upt_rec flips_ok_def flip_def)
qed

lemma flip_less:
  "i < 64 \<Longrightarrow> flip 1 i < 64" "i < 64 \<Longrightarrow> flip 2 i < 64" "i < 64 \<Longrightarrow> flip 4 i < 64"
  "i < 64 \<Longrightarrow> flip 8 i < 64" "i < 64 \<Longrightarrow> flip 16 i < 64"
  "i < 64 \<Longrightarrow> flip 32 (flip 16 (flip 8 (flip 4 (flip 2 (flip 1 i))))) = 63 - i"
  using flips [of i] by (simp_all only: flips_ok_def)

lemma bit_rev_bits: "i < 64 \<Longrightarrow> bit (rev_bits v) i = bit v (63 - i)"
  by (simp add: rev_bits_steps rev_step_bit [OF rev_step_masks(1)] rev_step_bit [OF rev_step_masks(2)]
      rev_step_bit [OF rev_step_masks(3)] rev_step_bit [OF rev_step_masks(4)]
      rev_step_bit [OF rev_step_masks(5)] rev_step_bit [OF rev_step_masks(6)] flip_less
      del: One_nat_def)

lemma rev_bits_rev_bits [simp]: "rev_bits (rev_bits v) = v"
  by (rule bit_word_eqI) (simp add: bit_rev_bits)

lemma rev_bits_inj [simp]: "rev_bits v = rev_bits w \<longleftrightarrow> v = w"
  by (metis rev_bits_rev_bits)

lemma rev_bits_0 [simp]: "rev_bits 0 = 0"
  by (rule bit_word_eqI) (simp add: bit_rev_bits)

subsection \<open>Positions in the reversed order\<close>

definition rpos :: "u64 \<Rightarrow> nat" where
  "rpos v = unat (rev_bits v)"

lemma rpos_less: "rpos v < 2 ^ 64"
  using unsigned_less [of "rev_bits v"] by (simp add: rpos_def)

lemma bit_rpos: "bit (rpos v) i \<longleftrightarrow> i < 64 \<and> bit v (63 - i)"
  by (cases "i < 64") (auto simp: rpos_def bit_unsigned_iff bit_rev_bits dest: bit_imp_le_length)

text \<open>Two cursors agree on the low \<open>n\<close> bits iff their positions lie in the same aligned interval.\<close>

lemma rpos_div_iff:
  assumes "n \<le> 64"
  shows "rpos v div 2 ^ (64 - n) = rpos w div 2 ^ (64 - n) \<longleftrightarrow> take_bit n v = take_bit n w"
proof -
  have "rpos v div 2 ^ (64 - n) = rpos w div 2 ^ (64 - n) \<longleftrightarrow>
        (\<forall>i. bit (rpos v) (64 - n + i) = bit (rpos w) (64 - n + i))"
    by (simp add: drop_bit_eq_div [symmetric] bit_eq_iff [of "drop_bit _ _"] bit_drop_bit_eq)
  also have "\<dots> \<longleftrightarrow> (\<forall>j < n. bit v j = bit w j)"
  proof
    assume L: "\<forall>i. bit (rpos v) (64 - n + i) = bit (rpos w) (64 - n + i)"
    show "\<forall>j < n. bit v j = bit w j"
    proof (intro allI impI)
      fix j assume "j < n"
      moreover have "63 - j < 64" by linarith
      ultimately show "bit v j = bit w j"
        using L [rule_format, of "n - 1 - j"] assms by (simp add: bit_rpos)
    qed
  next
    assume R: "\<forall>j < n. bit v j = bit w j"
    show "\<forall>i. bit (rpos v) (64 - n + i) = bit (rpos w) (64 - n + i)"
      using R assms by (auto simp: bit_rpos)
  qed
  also have "\<dots> \<longleftrightarrow> take_bit n v = take_bit n w"
    using assms by (auto simp: bit_eq_iff [of "take_bit _ _"] bit_take_bit_iff) (metis less_le_trans)+
  finally show ?thesis .
qed

subsection \<open>The reversed increment\<close>

lemma or_mask_nat: "(x :: nat) OR mask k = x div 2 ^ k * 2 ^ k + (2 ^ k - 1)"
proof -
  have "drop_bit k (x OR mask k) = drop_bit k x"
    by (rule bit_eqI) (auto simp: bit_drop_bit_eq bit_or_iff bit_mask_iff)
  moreover have "take_bit k (x OR mask k) = mask k"
    by (rule bit_eqI) (auto simp: bit_take_bit_iff bit_or_iff bit_mask_iff)
  ultimately show ?thesis
    using div_mult_mod_eq [of "x OR mask k" "2 ^ k"]
    by (simp add: drop_bit_eq_div take_bit_eq_mod mask_eq_exp_minus_1)
qed

lemma or_mask_nat_Suc: "Suc ((x :: nat) OR mask k) = (x div 2 ^ k + 1) * 2 ^ k"
  by (simp add: or_mask_nat)

lemma rpos_or_not_mask:
  assumes "n \<le> 64" shows "rpos (v OR NOT (mask n)) = rpos v OR mask (64 - n)"
  by (rule bit_eqI) (use assms in \<open>auto simp: bit_rpos bit_or_iff bit_not_iff bit_mask_iff\<close>)

lemma rpos_scan_next:
  assumes "n \<le> 64"
  shows "rpos (scan_next (mask n) v) = (rpos v div 2 ^ (64 - n) + 1) * 2 ^ (64 - n) mod 2 ^ 64"
proof -
  have "rpos (scan_next (mask n) v) = unat (rev_bits (v OR NOT (mask n)) + 1)"
    by (simp add: scan_next_def Let_def rpos_def)
  also have "\<dots> = Suc (rpos (v OR NOT (mask n))) mod 2 ^ 64"
    by (simp add: unat_word_ariths rpos_def)
  also have "\<dots> = (rpos v div 2 ^ (64 - n) + 1) * 2 ^ (64 - n) mod 2 ^ 64"
    by (simp only: rpos_or_not_mask [OF assms] or_mask_nat_Suc)
  finally show ?thesis .
qed

lemma mask_word: "(word_of_nat (2 ^ n - Suc 0) :: u64) = mask n"
  by (simp add: mask_eq_exp_minus_1 of_nat_diff)

lemma unat_and_mask: "n \<le> 64 \<Longrightarrow> unat ((v :: u64) AND mask n) = unat v mod 2 ^ n"
  by (simp add: take_bit_eq_mask [symmetric] unsigned_take_bit_eq take_bit_eq_mod [of _ "unat v"])

lemma hash_idx_take_bit: "n \<le> 32 \<Longrightarrow> hash_idx h (2 ^ n - Suc 0) = unat h mod 2 ^ n"
  by (simp add: hash_idx_mod mod_mod_cancel le_imp_power_dvd del: power_numeral)

lemma take_bit_unat_iff: "take_bit n v = take_bit n w \<longleftrightarrow> unat (v :: u64) mod 2 ^ n = unat w mod 2 ^ n"
  by (simp add: word_unat_eq_iff unsigned_take_bit_eq take_bit_eq_mod [of _ "unat v"]
      take_bit_eq_mod [of _ "unat w"])

subsection \<open>The loop over the larger table\<close>

definition expand_step :: "u64 \<Rightarrow> u64 \<Rightarrow> u64" where
  "expand_step m0 v = (((v OR m0) + 1) AND NOT m0) OR (v AND m0)"

lemma expand_step_unat:
  assumes "a \<le> 64"
  shows "unat (expand_step (mask a) v) =
    (unat v div 2 ^ a + 1) mod 2 ^ (64 - a) * 2 ^ a + unat v mod 2 ^ a"
proof -
  let ?x = "(v OR mask a) + 1" and ?y = "expand_step (mask a) v"
  have "unat (mask a :: u64) = mask a"
    using assms by (intro bit_eqI) (auto simp: bit_unsigned_iff bit_mask_iff)
  then have "unat ?x = Suc (unat v OR mask a) mod 2 ^ 64"
    by (simp add: unat_word_ariths unsigned_or_eq)
  also have "\<dots> = (unat v div 2 ^ a + 1) * 2 ^ a mod (2 ^ (64 - a) * 2 ^ a)"
    using assms by (simp only: or_mask_nat_Suc power_add [symmetric]) simp
  also have "\<dots> = (unat v div 2 ^ a + 1) mod 2 ^ (64 - a) * 2 ^ a"
    by (simp only: mod_mult_mult2)
  finally have x: "unat ?x div 2 ^ a = (unat v div 2 ^ a + 1) mod 2 ^ (64 - a)"
    by simp
  have "take_bit a ?y = take_bit a v"
    by (rule bit_word_eqI) (auto simp: expand_step_def bit_simps)
  then have lo: "unat ?y mod 2 ^ a = unat v mod 2 ^ a" by (simp only: take_bit_unat_iff)
  have "drop_bit a ?y = drop_bit a ?x"
    by (rule bit_word_eqI) (auto simp: expand_step_def bit_drop_bit_eq bit_or_iff bit_and_iff
        bit_not_iff bit_mask_iff dest: bit_imp_le_length)
  then have "unat (drop_bit a ?y) = unat (drop_bit a ?x)" by (rule arg_cong)
  then have "unat ?y div 2 ^ a = unat ?x div 2 ^ a"
    by (simp only: unat_drop_bit_eq) (simp only: drop_bit_eq_div)
  with lo x show ?thesis
    using div_mult_mod_eq [of "unat ?y" "2 ^ a"] by simp
qed

lemma expand_test:
  assumes "a \<le> b" "b \<le> 64"
  shows "(v :: u64) AND (mask a XOR mask b) = 0 \<longleftrightarrow> unat v div 2 ^ a mod 2 ^ (b - a) = 0"
proof -
  have "v AND (mask a XOR mask b) = 0 \<longleftrightarrow> (\<forall>i < 64. \<not> (bit v i \<and> a \<le> i \<and> i < b))"
    using assms(1) by (simp add: bit_eq_iff [of "v AND _"] bit_and_iff bit_xor_iff bit_mask_iff)
      (rule iff_allI, auto)
  also have "\<dots> \<longleftrightarrow> (\<forall>i. \<not> (i < b - a \<and> bit (unat v) (a + i)))"
  proof (intro iffI allI impI notI; elim conjE)
    fix i assume all: "\<forall>i < 64. \<not> (bit v i \<and> a \<le> i \<and> i < b)"
      and i: "i < b - a" "bit (unat v) (a + i)"
    have "a + i < 64" "a + i < b" using i(1) assms by linarith+
    with all i(2) show False by (simp add: bit_unsigned_iff)
  next
    fix i assume all: "\<forall>i. \<not> (i < b - a \<and> bit (unat v) (a + i))"
      and i: "i < 64" "bit v i" "a \<le> i" "i < b"
    have "\<not> (i - a < b - a \<and> bit (unat v) (a + (i - a)))" using all by blast
    with i show False by (simp add: bit_unsigned_iff)
  qed
  also have "\<dots> \<longleftrightarrow> take_bit (b - a) (drop_bit a (unat v)) = 0"
    by (auto simp: bit_eq_iff [of "take_bit _ _"] bit_take_bit_iff bit_drop_bit_eq)
  finally show ?thesis by (simp only: take_bit_eq_mod drop_bit_eq_div)
qed

lemma expand_index:
  assumes "a \<le> b" "b \<le> 64"
  shows "unat ((v :: u64) AND mask b) = 2 ^ a * (unat v div 2 ^ a mod 2 ^ (b - a)) + unat v mod 2 ^ a"
proof -
  have "(2 :: nat) ^ b = 2 ^ a * 2 ^ (b - a)" using assms by (simp flip: power_add)
  then show ?thesis using assms by (simp add: unat_and_mask mod_mult2_eq)
qed

lemma expand_step_parts:
  assumes "a \<le> b" "b \<le> 64"
  shows "unat (expand_step (mask a) v) mod 2 ^ a = unat v mod 2 ^ a"
    "unat (expand_step (mask a) v) div 2 ^ a mod 2 ^ (b - a) = (unat v div 2 ^ a + 1) mod 2 ^ (b - a)"
proof -
  have "(2 :: nat) ^ (b - a) dvd 2 ^ (64 - a)" using assms by (intro le_imp_power_dvd) simp
  then show "unat (expand_step (mask a) v) mod 2 ^ a = unat v mod 2 ^ a"
    "unat (expand_step (mask a) v) div 2 ^ a mod 2 ^ (b - a) = (unat v div 2 ^ a + 1) mod 2 ^ (b - a)"
    using assms by (simp_all add: expand_step_unat mod_mod_cancel)
qed

lemma scan_expand_spec:
  assumes ab: "a \<le> b" "b \<le> 64"
    and "2 ^ (b - a) - unat v div 2 ^ a mod 2 ^ (b - a) \<le> fuel"
  shows "\<exists>w es. scan_expand fuel t1 (mask a) (mask b) v = Some (w, es) \<and>
    unat w mod 2 ^ a = unat v mod 2 ^ a \<and>
    (\<forall>j. unat v div 2 ^ a mod 2 ^ (b - a) \<le> j \<and> j < 2 ^ (b - a) \<longrightarrow>
       set (bucket t1 (2 ^ a * j + unat v mod 2 ^ a)) \<subseteq> set es)"
  using assms(3)
proof (induction fuel arbitrary: v)
  case 0
  have "unat v div 2 ^ a mod 2 ^ (b - a) < 2 ^ (b - a)" by simp
  with "0.prems" show ?case by linarith
next
  case (Suc fuel)
  let ?c = "unat v div 2 ^ a mod 2 ^ (b - a)" and ?lo = "unat v mod 2 ^ a"
  let ?v = "expand_step (mask a) v"
  note parts = expand_step_parts [OF ab, of v]
  have c: "?c < 2 ^ (b - a)" by simp
  have idx: "unat (v AND mask b) = 2 ^ a * ?c + ?lo" by (rule expand_index [OF ab])
  show ?case
  proof (cases "?c + 1 < 2 ^ (b - a)")
    case True
    then have c': "unat ?v div 2 ^ a mod 2 ^ (b - a) = ?c + 1"
      by (metis parts(2) mod_add_left_eq mod_less)
    have "2 ^ (b - a) - unat ?v div 2 ^ a mod 2 ^ (b - a) \<le> fuel"
      using Suc.prems c' by linarith
    from Suc.IH [OF this] obtain w es where
      w: "scan_expand fuel t1 (mask a) (mask b) ?v = Some (w, es)" "unat w mod 2 ^ a = ?lo"
      and es: "\<And>j. ?c + 1 \<le> j \<Longrightarrow> j < 2 ^ (b - a) \<Longrightarrow> set (bucket t1 (2 ^ a * j + ?lo)) \<subseteq> set es"
      using c' parts(1) by auto
    have "?v AND (mask a XOR mask b) \<noteq> 0" using expand_test [OF ab] c' by simp
    then have "scan_expand (Suc fuel) t1 (mask a) (mask b) v =
        Some (w, bucket t1 (2 ^ a * ?c + ?lo) @ es)"
      using w(1) by (simp add: Let_def idx expand_step_def)
    moreover have "set (bucket t1 (2 ^ a * j + ?lo)) \<subseteq> set (bucket t1 (2 ^ a * ?c + ?lo) @ es)"
      if "?c \<le> j" "j < 2 ^ (b - a)" for j
      using es [of j] that by (cases "j = ?c") auto
    ultimately show ?thesis using w(2) by blast
  next
    case False
    then have c1: "?c + 1 = 2 ^ (b - a)" using c by linarith
    then have "unat ?v div 2 ^ a mod 2 ^ (b - a) = 0"
      by (metis parts(2) mod_add_left_eq mod_self)
    then have "?v AND (mask a XOR mask b) = 0" by (simp only: expand_test [OF ab])
    then have "scan_expand (Suc fuel) t1 (mask a) (mask b) v =
        Some (?v, bucket t1 (2 ^ a * ?c + ?lo))"
      by (simp add: Let_def idx expand_step_def)
    moreover have "j = ?c" if "?c \<le> j" "j < 2 ^ (b - a)" for j
      using c1 that by linarith
    ultimately show ?thesis using parts(1) by blast
  qed
qed

subsection \<open>One call covers one interval\<close>

definition scan_safe :: "('k, 'v) dict \<Rightarrow> u64 \<Rightarrow> bool" where
  "scan_safe d v \<longleftrightarrow> \<not> dictIsRehashing d \<or>
     v AND (word_of_nat (ht_sizemask (ht0 d)) XOR word_of_nat (ht_sizemask (ht1 d))) = 0"

definition small_size :: "('k, 'v) dict \<Rightarrow> nat" where
  "small_size d = (if dictIsRehashing d then min (ht_size (ht0 d)) (ht_size (ht1 d)) else ht_size (ht0 d))"

lemma ht_ok_pow2:
  assumes "ht_ok T h" "0 < ht_size h"
  obtains n where "2 \<le> n" "n \<le> 31" "ht_size h = 2 ^ n" "ht_sizemask h = 2 ^ n - Suc 0"
  using assms by (auto simp: ht_ok_def)

lemma ht_member_bucket:
  assumes "ht_ok T h" "ht_size h = 2 ^ n" "n \<le> 31" "e \<in> set (concat (ht_table h))"
  shows "e \<in> set (bucket h (unat (dictHashKey T (de_key e)) mod 2 ^ n))"
  using ht_ok_member [OF assms(1,4)] ht_okD(2) [OF assms(1)] assms(2,3)
  by (simp add: hash_idx_take_bit)

text \<open>The two tables of a rehashing dictionary in the order \<open>dictScan\<close> takes them.\<close>

lemma scan_tables:
  assumes ok: "dict_ok T canon d" and re: "dictIsRehashing d"
  obtains t0 t1 a b where "ht_ok T t0" "ht_ok T t1" "ht_size t0 = 2 ^ a" "ht_size t1 = 2 ^ b"
    "ht_sizemask t0 = 2 ^ a - Suc 0" "ht_sizemask t1 = 2 ^ b - Suc 0" "a \<le> b" "b \<le> 31"
    "(if ht_size (ht0 d) > ht_size (ht1 d) then (ht1 d, ht0 d) else (ht0 d, ht1 d)) = (t0, t1)"
    "set (all_entries d) = set (concat (ht_table t0)) \<union> set (concat (ht_table t1))"
    "small_size d = 2 ^ a"
    "\<And>v. scan_safe d v \<longleftrightarrow> v AND (mask a XOR mask b) = 0"
proof -
  have h: "ht_ok T (ht0 d)" "ht_ok T (ht1 d)" "0 < ht_size (ht0 d)" "0 < ht_size (ht1 d)"
    using ok re by (auto simp: dict_ok_def rehash_ok_def dictIsRehashing_def)
  obtain n where n: "n \<le> 31" "ht_size (ht0 d) = 2 ^ n" "ht_sizemask (ht0 d) = 2 ^ n - Suc 0"
    using ht_ok_pow2 [OF h(1,3)] by metis
  obtain m where m: "m \<le> 31" "ht_size (ht1 d) = 2 ^ m" "ht_sizemask (ht1 d) = 2 ^ m - Suc 0"
    using ht_ok_pow2 [OF h(2,4)] by metis
  show thesis
  proof (cases "m < n")
    case True
    then have "(2 :: nat) ^ m < 2 ^ n" by simp
    with True show thesis
      using that [of "ht1 d" "ht0 d" m n] h n m re
      by (auto simp: all_entries_def small_size_def scan_safe_def mask_word xor.commute)
  next
    case False
    then have "(2 :: nat) ^ n \<le> 2 ^ m" by simp
    with False show thesis
      using that [of "ht0 d" "ht1 d" n m] h n m re
      by (auto simp: all_entries_def small_size_def scan_safe_def mask_word)
  qed
qed

lemma rpos_div_unat:
  "n \<le> 64 \<Longrightarrow> rpos v div 2 ^ (64 - n) = rpos w div 2 ^ (64 - n) \<longleftrightarrow> unat v mod 2 ^ n = unat w mod 2 ^ n"
  by (simp only: rpos_div_iff take_bit_unat_iff)

text \<open>
  What a call promises: it returns, the new cursor is the end of the current interval, and an
  entry whose hash lies in the interval is emitted.
\<close>

lemma scan_covers:
  assumes ok: "dict_ok T canon d" and ne: "dictSize d \<noteq> 0" and safe: "scan_safe d v"
  obtains n w es where "n \<le> 31" "small_size d = 2 ^ n" "dictScan d v = Some (w, es)"
    "rpos w = (rpos v div 2 ^ (64 - n) + 1) * 2 ^ (64 - n) mod 2 ^ 64"
    "\<And>e. e \<in> set (all_entries d) \<Longrightarrow>
       rpos (dictHashKey T (de_key e)) div 2 ^ (64 - n) = rpos v div 2 ^ (64 - n) \<Longrightarrow> e \<in> set es"
proof (cases "dictIsRehashing d")
  case False
  have h: "ht_ok T (ht0 d)" and one: "all_entries d = concat (ht_table (ht0 d))"
    using ok False by (auto simp: dict_ok_def rehash_ok_def dictIsRehashing_def all_entries_def dictReset_def)
  have "ht_size (ht0 d) \<noteq> 0"
  proof
    assume "ht_size (ht0 d) = 0"
    then have "all_entries d = []" using h one by (simp add: ht_ok_def)
    with ne show False using dictSize_entries [OF ok] by simp
  qed
  then obtain n where n: "n \<le> 31" "ht_size (ht0 d) = 2 ^ n" "ht_sizemask (ht0 d) = 2 ^ n - Suc 0"
    using ht_ok_pow2 [OF h] by (metis gr0I)
  have s: "dictScan d v = Some (scan_next (mask n) v, bucket (ht0 d) (unat v mod 2 ^ n))"
    using ne False n by (simp add: dictScan_def mask_word unat_and_mask Let_def)
  show thesis
  proof (rule that [OF n(1) _ s])
    show "small_size d = 2 ^ n" using False n by (simp add: small_size_def)
    show "rpos (scan_next (mask n) v) = (rpos v div 2 ^ (64 - n) + 1) * 2 ^ (64 - n) mod 2 ^ 64"
      using n(1) by (intro rpos_scan_next) simp
    fix e assume e: "e \<in> set (all_entries d)"
      "rpos (dictHashKey T (de_key e)) div 2 ^ (64 - n) = rpos v div 2 ^ (64 - n)"
    have "unat (dictHashKey T (de_key e)) mod 2 ^ n = unat v mod 2 ^ n"
      using e(2) n(1) rpos_div_unat [of n] by simp
    then show "e \<in> set (bucket (ht0 d) (unat v mod 2 ^ n))"
      using ht_member_bucket [OF h n(2,1)] e(1) one by metis
  qed
next
  case True
  obtain t0 t1 a b where t: "ht_ok T t0" "ht_ok T t1" "ht_size t0 = 2 ^ a" "ht_size t1 = 2 ^ b"
    "ht_sizemask t0 = 2 ^ a - Suc 0" "ht_sizemask t1 = 2 ^ b - Suc 0" and ab: "a \<le> b" "b \<le> 31"
    and p: "(if ht_size (ht0 d) > ht_size (ht1 d) then (ht1 d, ht0 d) else (ht0 d, ht1 d)) = (t0, t1)"
    and en: "set (all_entries d) = set (concat (ht_table t0)) \<union> set (concat (ht_table t1))"
    and sm: "small_size d = 2 ^ a" and sf: "\<And>v. scan_safe d v \<longleftrightarrow> v AND (mask a XOR mask b) = 0"
    using scan_tables [OF ok True] by metis
  have ab': "b \<le> 64" "a \<le> 64" "a \<le> 31" using ab by simp_all
  have c0: "unat v div 2 ^ a mod 2 ^ (b - a) = 0"
    using safe sf expand_test [OF ab(1) ab'(1)] by simp
  have fuel: "2 ^ (b - a) - unat v div 2 ^ a mod 2 ^ (b - a) \<le> ht_size t1"
    by (simp add: t c0)
  obtain w es where w: "scan_expand (ht_size t1) t1 (mask a) (mask b) v = Some (w, es)"
    "unat w mod 2 ^ a = unat v mod 2 ^ a"
    and es: "\<And>j. j < 2 ^ (b - a) \<Longrightarrow> set (bucket t1 (2 ^ a * j + unat v mod 2 ^ a)) \<subseteq> set es"
    using scan_expand_spec [OF ab(1) ab'(1) fuel, of t1] c0 by auto
  have s: "dictScan d v = Some (scan_next (mask a) w, bucket t0 (unat v mod 2 ^ a) @ es)"
    using ne True p w(1) t ab' by (simp add: dictScan_def mask_word unat_and_mask Let_def)
  show thesis
  proof (rule that [OF ab'(3) sm s])
    have "rpos w div 2 ^ (64 - a) = rpos v div 2 ^ (64 - a)"
      using w(2) rpos_div_unat [OF ab'(2)] by simp
    then show "rpos (scan_next (mask a) w) = (rpos v div 2 ^ (64 - a) + 1) * 2 ^ (64 - a) mod 2 ^ 64"
      using rpos_scan_next [OF ab'(2), of w] by simp
    fix e assume e: "e \<in> set (all_entries d)"
      "rpos (dictHashKey T (de_key e)) div 2 ^ (64 - a) = rpos v div 2 ^ (64 - a)"
    let ?h = "unat (dictHashKey T (de_key e))"
    have lo: "?h mod 2 ^ a = unat v mod 2 ^ a" using e(2) rpos_div_unat [OF ab'(2)] by simp
    have "(2 :: nat) ^ b = 2 ^ a * 2 ^ (b - a)" using ab by (simp flip: power_add)
    then have hi: "?h mod 2 ^ b = 2 ^ a * (?h div 2 ^ a mod 2 ^ (b - a)) + unat v mod 2 ^ a"
      by (simp add: mod_mult2_eq lo)
    show "e \<in> set (bucket t0 (unat v mod 2 ^ a) @ es)"
    proof (cases "e \<in> set (concat (ht_table t0))")
      case True
      then show ?thesis using ht_member_bucket [OF t(1,3) ab'(3) True] lo by simp
    next
      case False
      then have "e \<in> set (concat (ht_table t1))" using e(1) en by blast
      from ht_member_bucket [OF t(2,4) ab(2) this]
      have "e \<in> set (bucket t1 (2 ^ a * (?h div 2 ^ a mod 2 ^ (b - a)) + unat v mod 2 ^ a))"
        by (simp only: hi)
      then show ?thesis using es [of "?h div 2 ^ a mod 2 ^ (b - a)"] by auto
    qed
  qed
qed

subsection \<open>A whole iteration\<close>

text \<open>
  A run of calls, each on the dictionary as it is at that time: the final cursor and everything
  emitted on the way.
\<close>

fun scan_run :: "('k, 'v) dict list \<Rightarrow> u64 \<Rightarrow> (u64 \<times> ('k, 'v) dictEntry list) option" where
  "scan_run [] v = Some (v, [])"
| "scan_run (d # ds) v =
     (case dictScan d v of
        None \<Rightarrow> None
      | Some (w, es) \<Rightarrow> map_option (\<lambda>(u, es'). (u, es @ es')) (scan_run ds w))"

fun scan_safe_run :: "('k, 'v) dict list \<Rightarrow> u64 \<Rightarrow> bool" where
  "scan_safe_run [] v = True"
| "scan_safe_run (d # ds) v =
     (scan_safe d v \<and> (case dictScan d v of None \<Rightarrow> False | Some (w, _) \<Rightarrow> scan_safe_run ds w))"

lemma next_interval:
  fixes P R K :: nat
  assumes "R \<le> P" "P < M * K" "0 < K" "P div K \<noteq> R div K"
  shows "(R div K + 1) * K mod (M * K) \<le> P \<and> 0 < (R div K + 1) * K mod (M * K)"
proof -
  have "R div K < P div K" using div_le_mono [OF assms(1), of K] assms(4) by linarith
  then have 1: "(R div K + 1) * K \<le> P div K * K" by (intro mult_le_mono1) simp
  also have "\<dots> \<le> P" by simp
  finally have "(R div K + 1) * K < M * K" "(R div K + 1) * K \<le> P" using assms(2) by linarith+
  then show ?thesis using assms(3) by simp
qed

lemma pow_64_split: "n \<le> 31 \<Longrightarrow> (2 :: nat) ^ 64 = 2 ^ n * 2 ^ (64 - n)"
  by (simp only: power_add [symmetric]) simp

context dict_type
begin

lemma scan_run_covers:
  assumes "\<forall>d \<in> set ds. dict_ok T canon d \<and> dict_map canon d (canon k) \<noteq> None"
    "scan_safe_run ds v" "scan_run ds v = Some (u, es)" "rpos v \<le> rpos (dictHashKey T k)"
  shows "(\<exists>e \<in> set es. canon (de_key e) = canon k) \<or>
    rpos u \<le> rpos (dictHashKey T k) \<and> (ds \<noteq> [] \<longrightarrow> 0 < rpos u)"
  using assms
proof (induction ds arbitrary: v es)
  case Nil
  then show ?case by simp
next
  case (Cons d ds)
  let ?P = "rpos (dictHashKey T k)"
  have ok: "dict_ok T canon d" and pr: "dict_map canon d (canon k) \<noteq> None"
    using Cons.prems(1) by simp_all
  then have "canon k \<in> set (ekeys canon (all_entries d))"
    using entry_map_None_iff [of canon "all_entries d" "canon k"] by (simp add: dict_map_def del: set_map)
  then obtain e where e: "e \<in> set (all_entries d)" "canon (de_key e) = canon k" by auto
  have he: "dictHashKey T (de_key e) = dictHashKey T k" by (rule hash_canon [OF e(2)])
  have ne: "dictSize d \<noteq> 0" using e(1) dictSize_entries [OF ok] by auto
  have sf: "scan_safe d v" using Cons.prems(2) by simp
  obtain n w es1 where n: "n \<le> 31" "small_size d = 2 ^ n" "dictScan d v = Some (w, es1)"
    "rpos w = (rpos v div 2 ^ (64 - n) + 1) * 2 ^ (64 - n) mod 2 ^ 64"
    and cov: "\<And>e. e \<in> set (all_entries d) \<Longrightarrow>
       rpos (dictHashKey T (de_key e)) div 2 ^ (64 - n) = rpos v div 2 ^ (64 - n) \<Longrightarrow> e \<in> set es1"
    using scan_covers [OF ok ne sf] by metis
  obtain es2 where es2: "scan_run ds w = Some (u, es2)" "es = es1 @ es2"
    using Cons.prems(3) n(3) by auto
  have sr: "scan_safe_run ds w" using Cons.prems(2) n(3) by simp
  show ?case
  proof (cases "?P div 2 ^ (64 - n) = rpos v div 2 ^ (64 - n)")
    case True
    then have "e \<in> set es1" using cov [OF e(1)] he by simp
    with e(2) es2(2) show ?thesis by auto
  next
    case False
    have w: "rpos w \<le> ?P \<and> 0 < rpos w"
      unfolding n(4) pow_64_split [OF n(1)]
      by (rule next_interval [OF Cons.prems(4) _ _ False])
        (use rpos_less pow_64_split [OF n(1)] in simp_all)
    have "(\<exists>e \<in> set es2. canon (de_key e) = canon k) \<or> rpos u \<le> ?P \<and> (ds \<noteq> [] \<longrightarrow> 0 < rpos u)"
      by (rule Cons.IH [OF _ sr es2(1)]) (use Cons.prems(1) w in simp_all)
    then show ?thesis
      using es2 w by (cases ds) auto
  qed
qed

lemma scan_complete:
  assumes "\<forall>d \<in> set ds. dict_ok T canon d \<and> dict_map canon d (canon k) \<noteq> None"
    "ds \<noteq> []" "scan_safe_run ds 0" "scan_run ds 0 = Some (0, es)"
  shows "\<exists>e \<in> set es. canon (de_key e) = canon k"
  using scan_run_covers [OF assms(1,3,4)] assms(2) by (simp add: rpos_def)

end

text \<open>While the (smaller) table does not shrink between calls, every call is safe.\<close>

lemma rpos_multiple_small:
  assumes "n \<le> 64" "2 ^ (64 - n) dvd rpos w" shows "unat w < 2 ^ n"
proof -
  have "take_bit (64 - n) (rpos w) = 0" using assms(2) by (simp add: take_bit_eq_mod dvd_eq_mod_eq_0)
  then have z: "\<not> bit (rpos w) i" if "i < 64 - n" for i
    using that by (metis bit_take_bit_iff bit_0_eq bot_apply bot_bool_def)
  have "\<not> bit w j" if "n \<le> j" for j
  proof
    assume "bit w j"
    then have "j < 64" by (auto dest: bit_imp_le_length)
    with that have "63 - j < 64 - n" "63 - j < 64" by linarith+
    with z [of "63 - j"] \<open>bit w j\<close> \<open>j < 64\<close> show False by (simp add: bit_rpos)
  qed
  then have "take_bit n w = w"
    by (intro bit_word_eqI) (auto simp: bit_take_bit_iff intro: ccontr)
  then have "unat w = unat w mod 2 ^ n"
    by (metis unsigned_take_bit_eq take_bit_eq_mod)
  moreover have "unat w mod 2 ^ n < 2 ^ n" by simp
  ultimately show ?thesis by simp
qed

lemma scan_safe_small:
  assumes "dict_ok T canon d" "unat v < small_size d" shows "scan_safe d v"
proof (cases "dictIsRehashing d")
  case True
  obtain t0 t1 a b where ab: "a \<le> b" "b \<le> 31" "small_size d = 2 ^ a"
    "\<And>v. scan_safe d v \<longleftrightarrow> v AND (mask a XOR mask b) = 0"
    using scan_tables [OF assms(1) True] by metis
  have "unat v div 2 ^ a = 0" using assms(2) ab(3) by simp
  then show ?thesis using ab expand_test [of a b v] by simp
qed (simp add: scan_safe_def)

lemma scan_safe_growing:
  assumes "\<forall>d \<in> set ds. dict_ok T canon d \<and> dictSize d \<noteq> 0" "sorted (map small_size ds)"
    "\<forall>d \<in> set ds. unat v < small_size d"
  shows "scan_safe_run ds v"
  using assms
proof (induction ds arbitrary: v)
  case Nil
  then show ?case by simp
next
  case (Cons d ds)
  have ok: "dict_ok T canon d" "dictSize d \<noteq> 0" using Cons.prems(1) by simp_all
  have sf: "scan_safe d v" using scan_safe_small [OF ok(1)] Cons.prems(3) by simp
  obtain n w es where n: "n \<le> 31" "small_size d = 2 ^ n" "dictScan d v = Some (w, es)"
    "rpos w = (rpos v div 2 ^ (64 - n) + 1) * 2 ^ (64 - n) mod 2 ^ 64"
    using scan_covers [OF ok sf] by metis
  have "2 ^ (64 - n) dvd rpos w"
    unfolding n(4) pow_64_split [OF n(1)] by (simp add: dvd_mod)
  then have "unat w < small_size d" using rpos_multiple_small [of n w] n(1,2) by simp
  then have "\<forall>d \<in> set ds. unat w < small_size d" using Cons.prems(2) by fastforce
  then have "scan_safe_run ds w" using Cons.IH Cons.prems(1,2) by simp
  with sf n(3) show ?case by simp
qed

text \<open>On an unchanged dictionary the cursor is back at 0 after one call per bucket.\<close>

lemma small_size_pos:
  assumes "dict_ok T canon d" "dictSize d \<noteq> 0"
  obtains n where "n \<le> 31" "small_size d = 2 ^ n"
  using scan_covers [OF assms, of 0] by (auto simp: scan_safe_def)

lemma scan_static_step:
  assumes "dict_ok T canon d" "dictSize d \<noteq> 0" "small_size d = 2 ^ n" "n \<le> 31"
    "unat v < 2 ^ n" "rpos v = j * 2 ^ (64 - n) mod 2 ^ 64"
  shows "\<exists>w es. scan_run (replicate i d) v = Some (w, es) \<and> rpos w = (j + i) * 2 ^ (64 - n) mod 2 ^ 64"
  using assms(5,6)
proof (induction i arbitrary: v j)
  case 0
  then show ?case by simp
next
  case (Suc i)
  let ?K = "2 ^ (64 - n) :: nat"
  have sf: "scan_safe d v" by (rule scan_safe_small [OF assms(1)]) (use Suc.prems assms(3) in simp)
  obtain m w es where m: "small_size d = 2 ^ m" "dictScan d v = Some (w, es)"
    "rpos w = (rpos v div 2 ^ (64 - m) + 1) * 2 ^ (64 - m) mod 2 ^ 64"
    using scan_covers [OF assms(1,2) sf] by metis
  have [simp]: "m = n" using m(1) assms(3) by simp
  note K = pow_64_split [OF assms(4)]
  have "rpos v div ?K = j mod 2 ^ n"
    unfolding Suc.prems(2) K by (simp only: mod_mult_mult2) simp
  then have "rpos w = (j mod 2 ^ n + 1) * ?K mod (2 ^ n * ?K)" using m(3) K by simp
  also have "\<dots> = (j + 1) * ?K mod (2 ^ n * ?K)"
    by (simp only: mod_mult_mult2 mod_add_left_eq)
  finally have w: "rpos w = (j + 1) * ?K mod 2 ^ 64" using K by simp
  have "?K dvd rpos w" unfolding w K by (simp add: dvd_mod)
  then have "unat w < 2 ^ n" using rpos_multiple_small [of n w] assms(4) by simp
  from Suc.IH [OF this w] m(2) show ?case by auto
qed

lemma scan_static:
  assumes "dict_ok T canon d" "dictSize d \<noteq> 0"
  shows "\<exists>es. scan_run (replicate (small_size d) d) 0 = Some (0, es)"
proof -
  obtain n where n: "n \<le> 31" "small_size d = 2 ^ n" by (rule small_size_pos [OF assms])
  obtain w es where w: "scan_run (replicate (2 ^ n) d) 0 = Some (w, es)"
    "rpos w = (0 + 2 ^ n) * 2 ^ (64 - n) mod 2 ^ 64"
    using scan_static_step [OF assms n(2,1), of 0 0 "2 ^ n"] by (auto simp: rpos_def)
  have "rpos w = 0" using w(2) pow_64_split [OF n(1)] by simp
  then have "w = 0" using rev_bits_inj [of w 0] by (simp add: rpos_def unat_eq_0 del: rev_bits_inj)
  with w(1) n(2) show ?thesis by auto
qed

lemma scan_safe_idle: "\<forall>d \<in> set ds. \<not> dictIsRehashing d \<Longrightarrow> scan_safe_run ds v"
  by (induction ds arbitrary: v) (auto simp: scan_safe_def dictScan_def Let_def split: option.splits)

lemma dictSize_present:
  "dict_ok T canon d \<Longrightarrow> dict_map canon d c \<noteq> None \<Longrightarrow> dictSize d \<noteq> 0"
  by (auto simp: dictSize_entries dict_map_def entry_map_def)

subsection \<open>Shrinking while a cursor is live\<close>

text \<open>
  The inner loop of \<open>dictScan\<close> counts the high bits of the cursor upwards, while the cursor itself
  advances in reversed order. A cursor taken on a 16-bucket table and used while that table is
  being rehashed into 4 buckets therefore skips buckets: here key 4 is present in every state of
  the run, the run starts at 0 and ends at 0, and key 4 is never emitted.
\<close>

definition id_type :: "(u64, unit) dictType" where
  "id_type = \<lparr>hashFunction = (\<lambda>k. k), keyDup = None, valDup = None, keyCompare = None\<rparr>"

definition dict16 :: "(u64, unit) dict" where
  "dict16 = \<lparr>ht0 = \<lparr>ht_table = (replicate 16 [])[0 := [\<lparr>de_key = 0, de_val = ()\<rparr>],
                                                 4 := [\<lparr>de_key = 4, de_val = ()\<rparr>]],
                   ht_size = 16, ht_sizemask = 15, ht_used = 2\<rparr>,
             ht1 = dictReset, rehashidx = -1, iterators = 0\<rparr>"

definition dict16_shrinking :: "(u64, unit) dict" where
  "dict16_shrinking = dict16\<lparr>ht1 := \<lparr>ht_table = replicate 4 [], ht_size = 4, ht_sizemask = 3, ht_used = 0\<rparr>,
                             rehashidx := 0\<rparr>"

lemma dict16_placed:
  "list_all (\<lambda>i. list_all (\<lambda>e. hash_idx (dictHashKey id_type (de_key e)) (ht_sizemask (ht0 dict16)) = i)
     (ht_table (ht0 dict16) ! i)) [0..<16]"
  by code_simp

lemma dict16_ok: "dict_ok id_type (\<lambda>k. k) dict16"
proof -
  have sz: "ht_size (ht0 dict16) = 16" by (simp add: dict16_def)
  have "ht_size (ht0 dict16) = 2 ^ 4" by (simp add: dict16_def)
  moreover have "length (ht_table (ht0 dict16)) = ht_size (ht0 dict16)"
    "ht_sizemask (ht0 dict16) = ht_size (ht0 dict16) - 1"
    "ht_used (ht0 dict16) = length (concat (ht_table (ht0 dict16)))"
    by (simp_all add: dict16_def numeral_nat)
  moreover have "\<forall>i < ht_size (ht0 dict16). \<forall>e \<in> set (ht_table (ht0 dict16) ! i).
      hash_idx (dictHashKey id_type (de_key e)) (ht_sizemask (ht0 dict16)) = i"
    using dict16_placed unfolding list_all_iff sz set_upt by (meson atLeastLessThan_iff zero_le)
  moreover have "(2 :: nat) \<le> 4 \<and> (4 :: nat) \<le> 31" by simp
  ultimately have "ht_ok id_type (ht0 dict16)" unfolding ht_ok_def by blast
  moreover have "distinct (map de_key (all_entries dict16))" by code_simp
  moreover have "ht1 dict16 = dictReset" "rehashidx dict16 = -1" by (simp_all add: dict16_def)
  moreover have "ht_ok id_type dictReset" by (simp add: dictReset_def ht_ok_def)
  ultimately show ?thesis by (simp add: dict_ok_def rehash_ok_def)
qed

lemma dict16_key4:
  "dict_map (\<lambda>k. k) dict16 4 = Some ()" "dict_map (\<lambda>k. k) dict16_shrinking 4 = Some ()"
  by code_simp+

lemma dict16_resize: "dictResize True dict16 = (dict16_shrinking, DICT_OK)"
proof -
  have "dictNextPower 4 = 4" by (simp add: dictNextPower_def next_power_loop.simps)
  then show ?thesis
    by (simp add: dictResize_def dict16_def dict16_shrinking_def DICT_HT_INITIAL_SIZE_def dictExpand_def
      dictIsRehashing_def)
qed

lemma dict16_calls:
  "dictScan dict16 0 = Some (8, [\<lparr>de_key = 0, de_val = ()\<rparr>])"
  "dictScan dict16_shrinking 8 = Some (2, [])"
  "dictScan dict16_shrinking 2 = Some (1, [])"
  "dictScan dict16_shrinking 1 = Some (3, [])"
  "dictScan dict16_shrinking 3 = Some (0, [])"
  by code_simp+

lemma dict16_run:
  "scan_run [dict16, dict16_shrinking, dict16_shrinking, dict16_shrinking, dict16_shrinking] 0 =
   Some (0, [\<lparr>de_key = 0, de_val = ()\<rparr>])"
  by (simp add: dict16_calls)


end
