(* ===== verification/Siphash.thy ===== *)
theory Siphash
  imports Prelude
begin

text \<open>
  The string hash of the hash tables (\<open>src/siphash.c\<close>): SipHash 1-2 over a byte buffer and its
  case-insensitive variant. The buffer \<open>in\<close> with its length \<open>inlen\<close> is a byte list; the key
  \<open>k\<close> is a list of 16 bytes. The C text of \<open>siphash_nocase\<close> is that of \<open>siphash\<close> with every
  input byte read through \<open>siptlw\<close>, so both are the same definition at two byte loads.
\<close>

subsection \<open>Definitions\<close>

definition siptlw :: "int \<Rightarrow> int" where
  "siptlw c = (if 65 \<le> c \<and> c \<le> 90 then c + (97 - 65) else c)"

definition ROTL :: "u64 \<Rightarrow> nat \<Rightarrow> u64" where
  "ROTL x b = push_bit b x OR drop_bit (64 - b) x"

text \<open>Loads of eight bytes through a byte load \<open>ld\<close>, least significant byte first.\<close>

definition load64_le :: "(u8 \<Rightarrow> u64) \<Rightarrow> bytes \<Rightarrow> u64" where
  "load64_le ld p =
     ld (p ! 0) OR push_bit 8 (ld (p ! 1)) OR push_bit 16 (ld (p ! 2)) OR
     push_bit 24 (ld (p ! 3)) OR push_bit 32 (ld (p ! 4)) OR push_bit 40 (ld (p ! 5)) OR
     push_bit 48 (ld (p ! 6)) OR push_bit 56 (ld (p ! 7))"

definition ld_byte :: "u8 \<Rightarrow> u64" where
  "ld_byte b = ucast b"

definition ld_byte_nocase :: "u8 \<Rightarrow> u64" where
  "ld_byte_nocase b = word_of_int (siptlw (uint b))"

definition U8TO64_LE :: "bytes \<Rightarrow> u64" where
  "U8TO64_LE p = load64_le ld_byte p"

definition U8TO64_LE_NOCASE :: "bytes \<Rightarrow> u64" where
  "U8TO64_LE_NOCASE p = load64_le ld_byte_nocase p"

type_synonym sipstate = "u64 \<times> u64 \<times> u64 \<times> u64"

definition SIPROUND :: "sipstate \<Rightarrow> sipstate" where
  "SIPROUND = (\<lambda>(v0, v1, v2, v3).
     let v0 = v0 + v1;
         v1 = ROTL v1 13;
         v1 = v1 XOR v0;
         v0 = ROTL v0 32;
         v2 = v2 + v3;
         v3 = ROTL v3 16;
         v3 = v3 XOR v2;
         v0 = v0 + v3;
         v3 = ROTL v3 21;
         v3 = v3 XOR v0;
         v2 = v2 + v1;
         v1 = ROTL v1 17;
         v1 = v1 XOR v2;
         v2 = ROTL v2 32
     in (v0, v1, v2, v3))"

text \<open>The \<open>for (; in != end; in += 8)\<close> loop, \<open>n\<close> iterations, and the fall-through switch.\<close>

primrec sip_blocks :: "(bytes \<Rightarrow> u64) \<Rightarrow> nat \<Rightarrow> bytes \<Rightarrow> sipstate \<Rightarrow> bytes \<times> sipstate" where
  "sip_blocks load 0 inp st = (inp, st)"
| "sip_blocks load (Suc n) inp st =
     (case st of (v0, v1, v2, v3) \<Rightarrow>
        let m = load inp;
            v3 = v3 XOR m;
            (v0, v1, v2, v3) = SIPROUND (v0, v1, v2, v3);
            v0 = v0 XOR m
        in sip_blocks load n (drop 8 inp) (v0, v1, v2, v3))"

definition sip_tail :: "(u8 \<Rightarrow> u64) \<Rightarrow> nat \<Rightarrow> bytes \<Rightarrow> u64 \<Rightarrow> u64" where
  "sip_tail ld left inp b =
     (let b = (if 7 \<le> left then b OR push_bit 48 (ld (inp ! 6)) else b);
          b = (if 6 \<le> left then b OR push_bit 40 (ld (inp ! 5)) else b);
          b = (if 5 \<le> left then b OR push_bit 32 (ld (inp ! 4)) else b);
          b = (if 4 \<le> left then b OR push_bit 24 (ld (inp ! 3)) else b);
          b = (if 3 \<le> left then b OR push_bit 16 (ld (inp ! 2)) else b);
          b = (if 2 \<le> left then b OR push_bit 8 (ld (inp ! 1)) else b);
          b = (if 1 \<le> left then b OR ld (inp ! 0) else b)
      in b)"

definition siphash_with :: "(u8 \<Rightarrow> u64) \<Rightarrow> bytes \<Rightarrow> bytes \<Rightarrow> u64" where
  "siphash_with ld inp k =
     (let inlen = length inp;
          v0 = 0x736f6d6570736575;
          v1 = 0x646f72616e646f6d;
          v2 = 0x6c7967656e657261;
          v3 = 0x7465646279746573;
          k0 = U8TO64_LE k;
          k1 = U8TO64_LE (drop 8 k);
          left = inlen mod 8;
          b = push_bit 56 (word_of_nat inlen);
          v3 = v3 XOR k1;
          v2 = v2 XOR k0;
          v1 = v1 XOR k1;
          v0 = v0 XOR k0;
          (inp, v0, v1, v2, v3) = sip_blocks (load64_le ld) (inlen div 8) inp (v0, v1, v2, v3);
          b = sip_tail ld left inp b;
          v3 = v3 XOR b;
          (v0, v1, v2, v3) = SIPROUND (v0, v1, v2, v3);
          v0 = v0 XOR b;
          v2 = v2 XOR 0xff;
          (v0, v1, v2, v3) = SIPROUND (v0, v1, v2, v3);
          (v0, v1, v2, v3) = SIPROUND (v0, v1, v2, v3)
      in v0 XOR v1 XOR v2 XOR v3)"

definition siphash :: "bytes \<Rightarrow> bytes \<Rightarrow> u64" where
  "siphash inp k = siphash_with ld_byte inp k"

definition siphash_nocase :: "bytes \<Rightarrow> bytes \<Rightarrow> u64" where
  "siphash_nocase inp k = siphash_with ld_byte_nocase inp k"

subsection \<open>Case folding commutes with hashing\<close>

definition lower_byte :: "u8 \<Rightarrow> u8" where
  "lower_byte b = word_of_int (siptlw (uint b))"

lemma siptlw_range: "0 \<le> c \<Longrightarrow> c < 256 \<Longrightarrow> 0 \<le> siptlw c \<and> siptlw c < 256"
  by (simp add: siptlw_def)

lemma ld_byte_nocase_lower: "ld_byte_nocase b = ld_byte (lower_byte b)"
proof -
  have "uint (word_of_int (siptlw (uint b)) :: u8) = siptlw (uint b)"
    using siptlw_range [of "uint b"] uint_lt2p [of b]
    by (simp add: uint_word_of_int)
  then show ?thesis
    by (simp add: ld_byte_nocase_def ld_byte_def lower_byte_def word_uint_eq_iff
        uint_word_of_int unsigned_ucast_eq)
      (use siptlw_range [of "uint b"] uint_lt2p [of b] in \<open>simp add: take_bit_eq_mod\<close>)
qed

lemma load64_le_map:
  "8 \<le> length p \<Longrightarrow> load64_le ld_byte_nocase p = load64_le ld_byte (map lower_byte p)"
  by (cases "p = []") (simp_all add: load64_le_def ld_byte_nocase_lower)

lemma sip_blocks_map:
  "8 * n \<le> length inp \<Longrightarrow>
   sip_blocks (load64_le ld_byte) n (map lower_byte inp) st =
     map_prod (map lower_byte) id (sip_blocks (load64_le ld_byte_nocase) n inp st)"
  by (induction n arbitrary: inp st)
    (auto simp: load64_le_map [symmetric] drop_map Let_def split: prod.splits)

lemma sip_blocks_rest: "fst (sip_blocks load n inp st) = drop (8 * n) inp"
  by (induction n arbitrary: inp st) (auto simp: Let_def add.commute split: prod.splits)

lemma sip_tail_map:
  "left \<le> length inp \<Longrightarrow> left \<le> 7 \<Longrightarrow>
   sip_tail ld_byte left (map lower_byte inp) b = sip_tail ld_byte_nocase left inp b"
  by (cases "inp = []") (simp_all add: sip_tail_def Let_def ld_byte_nocase_lower)

lemma siphash_nocase_lower: "siphash_nocase inp k = siphash (map lower_byte inp) k"
proof -
  have tail: "sip_tail ld_byte (length inp mod 8) (map lower_byte r) b =
      sip_tail ld_byte_nocase (length inp mod 8) r b"
    if "r = drop (8 * (length inp div 8)) inp" for r b
    by (rule sip_tail_map) (auto simp: that minus_mult_div_eq_mod)
  have blocks: "sip_blocks (load64_le ld_byte) (length inp div 8) (map lower_byte inp) st =
      map_prod (map lower_byte) id
        (sip_blocks (load64_le ld_byte_nocase) (length inp div 8) inp st)" for st
    by (rule sip_blocks_map) simp
  obtain r v0 v1 v2 v3 where e:
    "sip_blocks (load64_le ld_byte_nocase) (length inp div 8) inp
       (0x736f6d6570736575 XOR U8TO64_LE k, 0x646f72616e646f6d XOR U8TO64_LE (drop 8 k),
        0x6c7967656e657261 XOR U8TO64_LE k, 0x7465646279746573 XOR U8TO64_LE (drop 8 k))
     = (r, v0, v1, v2, v3)"
    by (metis prod_cases5)
  moreover have "r = drop (8 * (length inp div 8)) inp"
    using sip_blocks_rest [of "load64_le ld_byte_nocase" "length inp div 8" inp] e by (metis fst_conv)
  ultimately show ?thesis
    by (simp add: siphash_nocase_def siphash_def siphash_with_def blocks tail Let_def)
qed

end
