(* ===== verification/Dict_Types.thy ===== *)
theory Dict_Types
  imports Dict_Map Dict_Scan Siphash
begin

text \<open>
  The dictionary types of the server (\<open>src/server.c\<close>) and the guarantees of the dictionary for
  them. Keys are sds strings, seen as the list of their bytes; the 16-byte seed of the hash
  function (\<open>dict_hash_function_seed\<close>) is a parameter.
\<close>

subsection \<open>Hash and comparison callbacks\<close>

definition dictGenHashFunction :: "bytes \<Rightarrow> bytes \<Rightarrow> u64" where
  "dictGenHashFunction seed k = siphash k seed"

definition dictGenCaseHashFunction :: "bytes \<Rightarrow> bytes \<Rightarrow> u64" where
  "dictGenCaseHashFunction seed k = siphash_nocase k seed"

definition dictSdsHash :: "bytes \<Rightarrow> bytes \<Rightarrow> u64" where
  "dictSdsHash seed k = dictGenHashFunction seed k"

definition dictSdsCaseHash :: "bytes \<Rightarrow> bytes \<Rightarrow> u64" where
  "dictSdsCaseHash seed k = dictGenCaseHashFunction seed k"

text \<open>\<open>memcmp(a, b, n) == 0\<close> on buffers of at least \<open>n\<close> bytes.\<close>

definition memcmp_eq :: "bytes \<Rightarrow> bytes \<Rightarrow> nat \<Rightarrow> bool" where
  "memcmp_eq a b n \<longleftrightarrow> take n a = take n b"

definition dictSdsKeyCompare :: "bytes \<Rightarrow> bytes \<Rightarrow> bool" where
  "dictSdsKeyCompare key1 key2 =
     (let l1 = length key1; l2 = length key2 in
      if l1 \<noteq> l2 then False else memcmp_eq key1 key2 l1)"

text \<open>\<open>strcasecmp(a, b) == 0\<close> in the C locale: both strings up to their first NUL byte.\<close>

definition strcasecmp_eq :: "bytes \<Rightarrow> bytes \<Rightarrow> bool" where
  "strcasecmp_eq a b \<longleftrightarrow>
     map lower_byte (takeWhile (\<lambda>c. c \<noteq> 0) a) = map lower_byte (takeWhile (\<lambda>c. c \<noteq> 0) b)"

definition dictSdsKeyCaseCompare :: "bytes \<Rightarrow> bytes \<Rightarrow> bool" where
  "dictSdsKeyCaseCompare key1 key2 = strcasecmp_eq key1 key2"

definition dbDictType :: "bytes \<Rightarrow> (bytes, 'v) dictType" where
  "dbDictType seed =
     \<lparr>hashFunction = dictSdsHash seed, keyDup = None, valDup = None,
      keyCompare = Some dictSdsKeyCompare\<rparr>"

text \<open>
  Names of commands are C strings: byte lists without NUL. On them the comparison
  \<open>strcasecmp\<close> and the length-based hash see the same characters.
\<close>

typedef cstr = "{s :: bytes. 0 \<notin> set s}" morphisms cbytes Cstr
  by (rule exI [of _ "[]"]) simp

definition commandTableDictType :: "bytes \<Rightarrow> (cstr, 'v) dictType" where
  "commandTableDictType seed =
     \<lparr>hashFunction = dictSdsCaseHash seed \<circ> cbytes, keyDup = None, valDup = None,
      keyCompare = Some (\<lambda>a b. dictSdsKeyCaseCompare (cbytes a) (cbytes b))\<rparr>"

subsection \<open>The contract of the dictionary holds for them\<close>

lemma dictSdsKeyCompare_eq: "dictSdsKeyCompare a b \<longleftrightarrow> a = b"
  by (auto simp: dictSdsKeyCompare_def memcmp_eq_def Let_def)

interpretation db: dict_type "dbDictType seed" "\<lambda>k. k" for seed
  by unfold_locales
    (auto simp: key_matches_def dictCompareKeys_def dbDictType_def dictSdsKeyCompare_eq dictSetKey_def)

definition fold_case :: "cstr \<Rightarrow> bytes" where
  "fold_case s = map lower_byte (cbytes s)"

lemma cstr_takeWhile: "takeWhile (\<lambda>c. c \<noteq> 0) (cbytes s) = cbytes s"
  using cbytes [of s] by (auto simp: takeWhile_eq_all_conv)

interpretation cmd: dict_type "commandTableDictType seed" fold_case for seed
proof unfold_locales
  fix a b :: cstr
  show "key_matches (commandTableDictType seed) a b \<longleftrightarrow> fold_case a = fold_case b"
    by (auto simp: key_matches_def dictCompareKeys_def commandTableDictType_def fold_case_def
        dictSdsKeyCaseCompare_def strcasecmp_eq_def cstr_takeWhile)
  show "fold_case a = fold_case b \<Longrightarrow>
      dictHashKey (commandTableDictType seed) a = dictHashKey (commandTableDictType seed) b"
    by (simp add: dictHashKey_def commandTableDictType_def fold_case_def dictSdsCaseHash_def
        dictGenCaseHashFunction_def siphash_nocase_lower)
  show "fold_case (dictSetKey (commandTableDictType seed) a) = fold_case a"
    by (simp add: dictSetKey_def commandTableDictType_def)
qed

subsection \<open>Rehashing finishes\<close>

lemma rehash_iter_spec:
  assumes "dict_ok T canon d" "0 < n"
  shows "\<exists>m \<le> Suc (nat (int (ht_size (ht0 d)) - rehashidx d)).
    dict_ok T canon (((\<lambda>d. fst (dictRehash T d n)) ^^ m) d) \<and>
    \<not> dictIsRehashing (((\<lambda>d. fst (dictRehash T d n)) ^^ m) d) \<and>
    mset (all_entries (((\<lambda>d. fst (dictRehash T d n)) ^^ m) d)) = mset (all_entries d)"
  using assms(1)
proof (induction "nat (int (ht_size (ht0 d)) - rehashidx d)" arbitrary: d rule: less_induct)
  case less
  let ?f = "\<lambda>d. fst (dictRehash T d n)"
  show ?case
  proof (cases "dictIsRehashing d")
    case False
    with less.prems show ?thesis by (intro exI [of _ 0]) simp
  next
    case True
    let ?d = "fst (dictRehash T d n)"
    note sp = dictRehash_spec [OF less.prems, of n ?d "snd (dictRehash T d n)", simplified]
    show ?thesis
    proof (cases "dictIsRehashing ?d")
      case False
      with sp show ?thesis by (intro exI [of _ 1]) simp
    next
      case t: True
      have r: "ht_size (ht0 ?d) = ht_size (ht0 d)" "rehashidx d < rehashidx ?d"
        using sp(5) [OF assms(2) t] by simp_all
      have b: "rehashidx ?d \<le> int (ht_size (ht0 ?d))" "0 \<le> rehashidx d"
        using sp(1) less.prems t True by (auto simp: dict_ok_def rehash_ok_def dictIsRehashing_def)
      have "nat (int (ht_size (ht0 ?d)) - rehashidx ?d) < nat (int (ht_size (ht0 d)) - rehashidx d)"
        using r b by linarith
      note lt = this
      obtain m where m: "m \<le> Suc (nat (int (ht_size (ht0 ?d)) - rehashidx ?d))"
        "dict_ok T canon ((?f ^^ m) ?d)" "\<not> dictIsRehashing ((?f ^^ m) ?d)"
        "mset (all_entries ((?f ^^ m) ?d)) = mset (all_entries ?d)"
        using less.hyps [OF lt sp(1)] by blast
      have "Suc m \<le> Suc (nat (int (ht_size (ht0 d)) - rehashidx d))" using m(1) lt by linarith
      then show ?thesis
        using sp(2) m(2-) by (intro exI [of _ "Suc m"]) (simp add: funpow_Suc_right del: funpow.simps)
    qed
  qed
qed

lemma dict_ok_create [simp]: "dict_ok T canon dictCreate"
  by (simp add: dict_ok_def dictCreate_def rehash_ok_def all_entries_def dictReset_def ht_ok_def)

lemma dict_map_create [simp]: "dict_map canon dictCreate = Map.empty"
  by (simp add: dict_map_def dictCreate_def all_entries_def dictReset_def entry_map_def)

lemma dictSize_create [simp]: "dictSize dictCreate = 0"
  by (simp add: dictSize_def dictCreate_def dictReset_def)

text \<open>A small dictionary for the examples: one key, added to the empty dictionary.\<close>

definition seed0 :: bytes where "seed0 = replicate 16 0"

definition dict1 :: "(bytes, int) dict" where
  "dict1 = fst (dictAdd (dbDictType seed0) True 0 dictCreate [97] 7)"

lemma dict1_facts:
  "dict_ok (dbDictType seed0) (\<lambda>k. k) dict1" "dict_map (\<lambda>k. k) dict1 = [[97] \<mapsto> 7]"
  "dictSize dict1 = 1"
proof -
  obtain d st where d: "dictAdd (dbDictType seed0) True 0 (dictCreate :: (bytes, int) dict) [97] 7 = (d, st)"
    by fastforce
  have "dict1 = d" by (simp add: dict1_def d)
  with db.add_spec [OF dict_ok_create _ d]
  show "dict_ok (dbDictType seed0) (\<lambda>k. k) dict1" "dict_map (\<lambda>k. k) dict1 = [[97] \<mapsto> 7]"
    "dictSize dict1 = 1"
    by (auto simp: dictDupVal_def dbDictType_def)
qed

subsection \<open>Guarantees of the key space dictionary\<close>

text \<open>C6: \<open>dictAdd\<close> on the key space dictionary, whether or not a rehashing is under way and
  whatever the allocator returned: it keeps the invariant, fails exactly when the key is present,
  and then changes nothing; otherwise it adds the one binding.\<close>

theorem db_dictAdd_refines:
  assumes "dict_ok (dbDictType seed) (\<lambda>k. k) d" "dictSize d \<le> 2 ^ 30"
    "dictAdd (dbDictType seed) can junk d k x = (d', st)"
  shows "dict_ok (dbDictType seed) (\<lambda>k. k) d' \<and>
    (st = DICT_OK \<longleftrightarrow> dict_map (\<lambda>k. k) d k = None) \<and>
    dict_map (\<lambda>k. k) d' = (if st = DICT_OK then (dict_map (\<lambda>k. k) d)(k \<mapsto> x) else dict_map (\<lambda>k. k) d) \<and>
    dictSize d' = dictSize d + (if st = DICT_OK then 1 else 0)"
  using db.add_spec [OF assms]
  by (auto simp: dictDupVal_def dbDictType_def split: option.splits)

theorem db_dictAdd_refines_witness:
  "dict_map (\<lambda>k. k) (fst (dictAdd (dbDictType seed0) True 0 dict1 [98] 8)) [98] = Some 8 \<and>
   snd (dictAdd (dbDictType seed0) True 0 dict1 [97] 8) = DICT_ERR"
  using db_dictAdd_refines [OF dict1_facts(1) _ surjective_pairing, of True 0 "[98]" 8]
    db_dictAdd_refines [OF dict1_facts(1) _ surjective_pairing, of True 0 "[97]" 8]
  by (cases "snd (dictAdd (dbDictType seed0) True 0 dict1 [97] 8)") (simp_all add: dict1_facts)

text \<open>C10: \<open>dictFetchValue\<close> (through \<open>dictFind\<close>) returns the value bound to the key in the abstract
  map, and the rehashing step it may perform on the way changes neither the map nor the size.\<close>

theorem db_dictFetchValue_refines:
  assumes "dict_ok (dbDictType seed) (\<lambda>k. k) d" "dictFetchValue (dbDictType seed) d k = (d', r)"
  shows "r = dict_map (\<lambda>k. k) d k \<and> dict_ok (dbDictType seed) (\<lambda>k. k) d' \<and>
    dict_map (\<lambda>k. k) d' = dict_map (\<lambda>k. k) d \<and> dictSize d' = dictSize d"
  using db.fetchValue_spec [OF assms] by simp

theorem db_dictFetchValue_refines_witness:
  "snd (dictFetchValue (dbDictType seed0) dict1 [97]) = Some 7"
  using db_dictFetchValue_refines [OF dict1_facts(1) surjective_pairing, of "[97]"]
  by (simp add: dict1_facts)

text \<open>C8: \<open>dictDelete\<close> removes exactly the binding of its key, reports whether there was one, and
  keeps the invariant and the element count in step.\<close>

theorem db_dictDelete_refines:
  assumes "dict_ok (dbDictType seed) (\<lambda>k. k) d" "dictDelete (dbDictType seed) d k = (d', st)"
  shows "dict_ok (dbDictType seed) (\<lambda>k. k) d' \<and>
    dict_map (\<lambda>k. k) d' = (dict_map (\<lambda>k. k) d)(k := None) \<and>
    (st = DICT_OK \<longleftrightarrow> dict_map (\<lambda>k. k) d k \<noteq> None) \<and>
    dictSize d = dictSize d' + (if st = DICT_OK then 1 else 0)"
proof -
  obtain e x where g: "dictGenericDelete (dbDictType seed) d k = (e, x)" by fastforce
  have "d' = e" "st = (if x = None then DICT_ERR else DICT_OK)"
    using assms(2) g by (auto simp: dictDelete_def split: option.splits)
  with db.genericDelete_spec [OF assms(1) g] show ?thesis
    by (cases x; cases "dict_map (\<lambda>k. k) d k") simp_all
qed

theorem db_dictDelete_refines_witness:
  "snd (dictDelete (dbDictType seed0) dict1 [97]) = DICT_OK \<and>
   dict_map (\<lambda>k. k) (fst (dictDelete (dbDictType seed0) dict1 [97])) = Map.empty"
  using db_dictDelete_refines [OF dict1_facts(1) surjective_pairing, of "[97]"]
  by (simp add: dict1_facts)

text \<open>C9: \<open>dictReplace\<close> never dereferences a NULL entry: it always ends with the key bound to the
  new value, and returns 1 exactly when the key was new.\<close>

theorem db_dictReplace_refines:
  assumes "dict_ok (dbDictType seed) (\<lambda>k. k) d" "dictSize d \<le> 2 ^ 30"
  shows "\<exists>d' n. dictReplace (dbDictType seed) can junk d k x = Some (d', n) \<and>
    dict_ok (dbDictType seed) (\<lambda>k. k) d' \<and>
    dict_map (\<lambda>k. k) d' = (dict_map (\<lambda>k. k) d)(k \<mapsto> x) \<and>
    (n = 1 \<longleftrightarrow> dict_map (\<lambda>k. k) d k = None)"
  using db.replace_spec [OF assms, of can junk k x]
  by (auto simp: dictDupVal_def dbDictType_def)

theorem db_dictReplace_refines_witness:
  "\<exists>d' n. dictReplace (dbDictType seed0) True 0 dict1 [97] 9 = Some (d', n) \<and>
     dict_map (\<lambda>k. k) d' = [[97] \<mapsto> 9] \<and> n \<noteq> 1"
  using db_dictReplace_refines [OF dict1_facts(1), of True 0 "[97]" 9] by (auto simp: dict1_facts)

text \<open>C11: Incremental rehashing finishes: calling \<open>dictRehash(d, n)\<close> with a positive \<open>n\<close> at most
  one more time than there are buckets in the old table leaves a dictionary that is no longer
  rehashing, holds the same map and satisfies the invariant.\<close>

theorem db_dictRehash_finishes:
  assumes "dict_ok (dbDictType seed) (\<lambda>k. k) d" "0 < n"
  shows "\<exists>m \<le> Suc (ht_size (ht0 d)).
    let d' = ((\<lambda>d. fst (dictRehash (dbDictType seed) d n)) ^^ m) d in
    \<not> dictIsRehashing d' \<and> dict_ok (dbDictType seed) (\<lambda>k. k) d' \<and>
    dict_map (\<lambda>k. k) d' = dict_map (\<lambda>k. k) d"
proof (cases "dictIsRehashing d")
  case False
  with assms(1) show ?thesis by (intro exI [of _ 0]) simp
next
  case True
  then have "0 \<le> rehashidx d"
    using assms(1) by (auto simp: dict_ok_def rehash_ok_def dictIsRehashing_def)
  then have le: "nat (int (ht_size (ht0 d)) - rehashidx d) \<le> ht_size (ht0 d)" by simp
  obtain m where m: "m \<le> Suc (nat (int (ht_size (ht0 d)) - rehashidx d))"
    "dict_ok (dbDictType seed) (\<lambda>k. k) (((\<lambda>d. fst (dictRehash (dbDictType seed) d n)) ^^ m) d)"
    "\<not> dictIsRehashing (((\<lambda>d. fst (dictRehash (dbDictType seed) d n)) ^^ m) d)"
    "mset (all_entries (((\<lambda>d. fst (dictRehash (dbDictType seed) d n)) ^^ m) d)) = mset (all_entries d)"
    using rehash_iter_spec [OF assms] by blast
  have "m \<le> Suc (ht_size (ht0 d))" using m(1) le by linarith
  with m same_entries(1) [OF assms(1) m(2,4)] show ?thesis unfolding Let_def by blast
qed

theorem db_dictRehash_finishes_witness:
  "\<exists>m \<le> Suc (ht_size (ht0 dict1)).
    let d' = ((\<lambda>d. fst (dictRehash (dbDictType seed0) d 1)) ^^ m) dict1 in
    \<not> dictIsRehashing d' \<and> dict_ok (dbDictType seed0) (\<lambda>k. k) d' \<and>
    dict_map (\<lambda>k. k) d' = [[97] \<mapsto> 7]"
  using db_dictRehash_finishes [OF dict1_facts(1) zero_less_one] by (simp only: dict1_facts)

text \<open>C7: SCAN over the key space is complete: when a run of \<open>dictScan\<close> calls starts at cursor 0 and
  comes back to cursor 0, a key present in every state of the dictionary the calls saw has been
  emitted, whatever was inserted, deleted or moved by rehashing in between, as long as either no
  call met a rehashing in progress or the smaller table never shrank.\<close>

theorem db_dictScan_complete:
  assumes "\<forall>d \<in> set ds. dict_ok (dbDictType seed) (\<lambda>k. k) d \<and> dict_map (\<lambda>k. k) d k \<noteq> None"
    "ds \<noteq> []" "sorted (map small_size ds) \<or> (\<forall>d \<in> set ds. \<not> dictIsRehashing d)"
    "scan_run ds 0 = Some (0, es)"
  shows "\<exists>e \<in> set es. de_key e = k"
proof (rule db.scan_complete [OF assms(1,2) _ assms(4)])
  have ne: "dict_ok (dbDictType seed) (\<lambda>k. k) d \<and> dictSize d \<noteq> 0" if "d \<in> set ds" for d
  proof -
    have "dict_ok (dbDictType seed) (\<lambda>k. k) d" "dict_map (\<lambda>k. k) d k \<noteq> None"
      using that assms(1) by simp_all
    with dictSize_present [OF this] show ?thesis by simp
  qed
  have pos: "0 < small_size d" if "d \<in> set ds" for d
    by (rule small_size_pos [of "dbDictType seed" "\<lambda>k. k" d]) (use ne [OF that] in simp_all)
  show "scan_safe_run ds 0"
  proof (cases "sorted (map small_size ds)")
    case True
    show ?thesis
      by (rule scan_safe_growing [where T = "dbDictType seed" and canon = "\<lambda>k. k", OF _ True])
        (use ne pos in simp_all)
  next
    case False
    with assms(3) show ?thesis by (simp add: scan_safe_idle)
  qed
qed

theorem db_dictScan_complete_witness:
  "\<exists>es. scan_run (replicate (small_size dict1) dict1) 0 = Some (0, es) \<and> (\<exists>e \<in> set es. de_key e = [97])"
proof -
  obtain es where es: "scan_run (replicate (small_size dict1) dict1) 0 = Some (0, es)"
    using scan_static [OF dict1_facts(1)] by (auto simp: dict1_facts)
  have "small_size dict1 \<noteq> 0" by (rule small_size_pos [OF dict1_facts(1)]) (simp_all add: dict1_facts)
  with es db_dictScan_complete [of "replicate (small_size dict1) dict1" seed0 "[97]" es]
  show ?thesis by (simp add: dict1_facts)
qed

text \<open>C12: A SCAN over a key space that does not change ends: exactly one call per bucket of the smaller
  table brings the cursor back to 0, and by then every key has been emitted.\<close>

theorem db_dictScan_terminates:
  assumes "dict_ok (dbDictType seed) (\<lambda>k. k) d" "dictSize d \<noteq> 0"
  shows "\<exists>es. scan_run (replicate (small_size d) d) 0 = Some (0, es) \<and>
    dom (dict_map (\<lambda>k. k) d) \<subseteq> de_key ` set es"
proof -
  obtain es where es: "scan_run (replicate (small_size d) d) 0 = Some (0, es)"
    using scan_static [OF assms] by blast
  obtain n where n: "small_size d = 2 ^ n" using small_size_pos [OF assms] by blast
  have "scan_safe_run (replicate (small_size d) d) 0"
    by (rule scan_safe_growing [where T = "dbDictType seed" and canon = "\<lambda>k. k"]) (use assms n in auto)
  then have "k \<in> de_key ` set es" if "k \<in> dom (dict_map (\<lambda>k. k) d)" for k
    using db.scan_complete [of "replicate (small_size d) d" seed k es] assms es n that by auto
  with es show ?thesis by blast
qed

theorem db_dictScan_terminates_witness:
  "\<exists>es. scan_run (replicate (small_size dict1) dict1) 0 = Some (0, es) \<and> [97] \<in> de_key ` set es"
  using db_dictScan_terminates [OF dict1_facts(1)] by (auto simp: dict1_facts)

definition cmd1 :: "(cstr, nat) dict" where
  "cmd1 = fst (dictAdd (commandTableDictType seed0) True 0 dictCreate (Cstr [103, 101, 116]) 5)"

lemma cmd1_facts:
  "dict_ok (commandTableDictType seed0) fold_case cmd1"
  "dict_map fold_case cmd1 = [fold_case (Cstr [103, 101, 116]) \<mapsto> 5]"
proof -
  obtain d st where d: "dictAdd (commandTableDictType seed0) True 0 dictCreate (Cstr [103, 101, 116]) (5 :: nat) = (d, st)"
    by fastforce
  have "cmd1 = d" by (simp add: cmd1_def d)
  with cmd.add_spec [OF dict_ok_create _ d]
  show "dict_ok (commandTableDictType seed0) fold_case cmd1"
    "dict_map fold_case cmd1 = [fold_case (Cstr [103, 101, 116]) \<mapsto> 5]"
    by (auto simp: dictDupVal_def commandTableDictType_def)
qed

text \<open>C14: The command table is looked up without regard to case: two names that differ only in the
  case of ASCII letters fetch the same command.\<close>

theorem cmd_lookup_ignores_case:
  assumes "dict_ok (commandTableDictType seed) fold_case d" "fold_case k = fold_case k'"
  shows "snd (dictFetchValue (commandTableDictType seed) d k) =
         snd (dictFetchValue (commandTableDictType seed) d k') \<and>
    snd (dictFetchValue (commandTableDictType seed) d k) = dict_map fold_case d (fold_case k)"
  using cmd.fetchValue_spec(5) [OF assms(1) surjective_pairing, of k]
    cmd.fetchValue_spec(5) [OF assms(1) surjective_pairing, of k'] assms(2) by simp

theorem cmd_lookup_ignores_case_witness:
  "snd (dictFetchValue (commandTableDictType seed0) cmd1 (Cstr [71, 69, 84])) = Some 5"
proof -
  have "fold_case (Cstr [71, 69, 84]) = fold_case (Cstr [103, 101, 116])"
    by (simp add: fold_case_def Cstr_inverse lower_byte_def siptlw_def)
  then show ?thesis
    using cmd_lookup_ignores_case [OF cmd1_facts(1), of "Cstr [71, 69, 84]" "Cstr [103, 101, 116]"]
    by (metis cmd1_facts(2) fun_upd_same)
qed

end
