(* ===== verification/Util.thy ===== *)
theory Util
  imports Prelude
begin

text \<open>
  Conversions between integers and strings (\<open>src/util.c\<close>): \<open>digits10\<close>, \<open>sdigits10\<close>,
  \<open>ll2string\<close>, \<open>string2ll\<close>, \<open>string2l\<close> and \<open>memtoll\<close>. A \<open>long long\<close> is a 64-bit word
  read with \<open>sint\<close>, an \<open>unsigned long long\<close> the same word read with \<open>unat\<close>. The destination
  buffer of \<open>ll2string\<close> is a byte list; a write outside of it gives \<open>None\<close>.
\<close>

subsection \<open>Definitions\<close>

function digits10 :: "u64 \<Rightarrow> nat" where
  "digits10 v =
     (if v < 10 then 1
      else if v < 100 then 2
      else if v < 1000 then 3
      else if v < 1000000000000 then
        if v < 100000000 then
          if v < 1000000 then
            if v < 10000 then 4 else 5 + (if v \<ge> 100000 then 1 else 0)
          else 7 + (if v \<ge> 10000000 then 1 else 0)
        else if v < 10000000000 then 9 + (if v \<ge> 1000000000 then 1 else 0)
        else 11 + (if v \<ge> 100000000000 then 1 else 0)
      else 12 + digits10 (v div 1000000000000))"
  by pat_completeness auto
termination
  by (relation "measure unat") (auto simp: unat_div word_less_nat_alt not_less word_le_nat_alt)

declare digits10.simps [simp del]

definition sdigits10 :: "i64 \<Rightarrow> nat" where
  "sdigits10 v =
     (if sint v < 0 then
        let uv = (if sint v \<noteq> LLONG_MIN then - v else word_of_int LLONG_MAX + 1)
        in digits10 uv + 1
      else digits10 v)"

text \<open>The table of two-digit strings of \<open>ll2string\<close>.\<close>

definition digits :: bytes where
  "digits = str (''0001020304050607080910111213141516171819'' @
                 ''2021222324252627282930313233343536373839'' @
                 ''4041424344454647484950515253545556575859'' @
                 ''6061626364656667686970717273747576777879'' @
                 ''8081828384858687888990919293949596979899'')"

text \<open>The loop that writes two digits at a time from the end, and the last one or two digits.\<close>

function ll_digits :: "bytes \<Rightarrow> int \<Rightarrow> u64 \<Rightarrow> bytes option" where
  "ll_digits dst nxt val =
     (if val \<ge> 100 then
        do { let i = unat (val mod 100) * 2;
             dst \<leftarrow> wr dst nxt (digits ! (i + 1));
             dst \<leftarrow> wr dst (nxt - 1) (digits ! i);
             ll_digits dst (nxt - 2) (val div 100) }
      else if val < 10 then wr dst nxt (48 + ucast val)
      else
        do { let i = unat val * 2;
             dst \<leftarrow> wr dst nxt (digits ! (i + 1));
             wr dst (nxt - 1) (digits ! i) })"
  by pat_completeness auto
termination
  by (relation "measure (\<lambda>(dst, nxt, val). unat val)")
    (auto simp: unat_div word_le_nat_alt)

declare ll_digits.simps [simp del]

definition ll2string :: "bytes \<Rightarrow> nat \<Rightarrow> i64 \<Rightarrow> (bytes \<times> nat) option" where
  "ll2string dst dstlen svalue =
     (let (val, negative) =
        (if sint svalue < 0
         then (if sint svalue \<noteq> LLONG_MIN then - svalue else word_of_int LLONG_MAX + 1, 1)
         else (svalue, 0));
          len = digits10 val + negative
      in if len \<ge> dstlen then Some (dst, 0)
         else do {
           dst \<leftarrow> wr dst (int len) 0;
           dst \<leftarrow> ll_digits dst (int len - 1) val;
           dst \<leftarrow> (if negative = 1 then wr dst 0 45 else Some dst);
           Some (dst, len) })"

text \<open>The digit loop of \<open>string2ll\<close>: \<open>None\<close> on overflow, else the value and the bytes left.\<close>

fun string2ll_loop :: "u64 \<Rightarrow> bytes \<Rightarrow> (u64 \<times> bytes) option" where
  "string2ll_loop v [] = Some (v, [])"
| "string2ll_loop v (c # p) =
     (if 48 \<le> c \<and> c \<le> 57 then
        if v > word_of_nat ULLONG_MAX div 10 then None
        else
          let v = v * 10 in
          if v > word_of_nat ULLONG_MAX - (ucast c - 48) then None
          else string2ll_loop (v + (ucast c - 48)) p
      else Some (v, c # p))"

definition string2ll :: "bytes \<Rightarrow> i64 option" where
  "string2ll s =
     (if s = [] then None
      else if s = [48] then Some 0
      else
        let negative = (hd s = 45);
            p = (if negative then tl s else s)
        in if p = [] then None
           else if 49 \<le> hd p \<and> hd p \<le> 57 then
             case string2ll_loop (ucast (hd p) - 48) (tl p) of
               None \<Rightarrow> None
             | Some (v, rest) \<Rightarrow>
                 if rest \<noteq> [] then None
                 else if negative then
                   if v > word_of_int (- (LLONG_MIN + 1)) + 1 then None else Some (- v)
                 else if v > word_of_int LLONG_MAX then None else Some v
           else if hd p = 48 \<and> length s = 1 then Some 0
           else None)"

definition string2l :: "bytes \<Rightarrow> i64 option" where
  "string2l s =
     (case string2ll s of
        None \<Rightarrow> None
      | Some llval \<Rightarrow>
          if sint llval < LLONG_MIN \<or> sint llval > LLONG_MAX then None else Some llval)"

text \<open>
  \<open>memtoll\<close> and the part of \<open>strtoll\<close> (base 10) it uses: leading white space, a sign, digits,
  saturation at the bounds, and the rest of the string at \<open>endptr\<close>; no digits is no conversion,
  which glibc does not report in \<open>errno\<close>. The final product \<open>val*mul\<close> is a signed multiplication:
  its overflow has no defined result and is kept apart from the parse error.
\<close>

abbreviation is_digit :: "u8 \<Rightarrow> bool" where
  "is_digit c \<equiv> 48 \<le> c \<and> c \<le> 57"

definition isspace :: "u8 \<Rightarrow> bool" where
  "isspace c \<longleftrightarrow> c = 32 \<or> 9 \<le> c \<and> c \<le> 13"

definition tolower :: "u8 \<Rightarrow> u8" where
  "tolower c = (if 65 \<le> c \<and> c \<le> 90 then c + 32 else c)"

fun dec_val :: "nat \<Rightarrow> bytes \<Rightarrow> nat" where
  "dec_val a [] = a"
| "dec_val a (c # cs) = dec_val (10 * a + (unat c - 48)) cs"

definition strtoll :: "bytes \<Rightarrow> int \<times> bytes" where
  "strtoll s =
     (let s1 = dropWhile isspace s;
          neg = (s1 \<noteq> [] \<and> hd s1 = 45);
          s2 = (if s1 \<noteq> [] \<and> (hd s1 = 45 \<or> hd s1 = 43) then tl s1 else s1);
          ds = takeWhile is_digit s2;
          n = int (dec_val 0 ds)
      in if ds = [] then (0, s)
         else (if neg then max LLONG_MIN (- n) else min LLONG_MAX n, dropWhile is_digit s2))"

datatype memtoll_result = MT_error | MT_overflow | MT_val int

text \<open>The unit, already in lower case, to its multiplier.\<close>

definition mem_unit :: "bytes \<Rightarrow> int option" where
  "mem_unit u =
     (if u = [] \<or> u = str ''b'' then Some 1
      else if u = str ''k'' then Some 1000
      else if u = str ''kb'' then Some 1024
      else if u = str ''m'' then Some (1000 * 1000)
      else if u = str ''mb'' then Some (1024 * 1024)
      else if u = str ''g'' then Some (1000 * 1000 * 1000)
      else if u = str ''gb'' then Some (1024 * 1024 * 1024)
      else None)"

definition memtoll :: "bytes \<Rightarrow> memtoll_result" where
  "memtoll p =
     (let sign = (if p \<noteq> [] \<and> hd p = 45 then 1 else 0);
          digits = sign + length (takeWhile is_digit (drop sign p));
          u = map tolower (drop digits p)
      in case mem_unit u of
           None \<Rightarrow> MT_error
         | Some mul \<Rightarrow>
             if digits \<ge> 128 then MT_error
             else case strtoll (take digits p) of (val, endp) \<Rightarrow>
               if endp \<noteq> [] then MT_error
               else if val * mul < LLONG_MIN \<or> LLONG_MAX < val * mul then MT_overflow
               else MT_val (val * mul))"

subsection \<open>Decimal representation\<close>

fun dec_nat :: "nat \<Rightarrow> bytes" where
  "dec_nat n = (if n < 10 then [48 + word_of_nat n] else dec_nat (n div 10) @ [48 + word_of_nat (n mod 10)])"

declare dec_nat.simps [simp del]

definition dec_int :: "int \<Rightarrow> bytes" where
  "dec_int v = (if v < 0 then 45 # dec_nat (nat (- v)) else dec_nat (nat v))"

lemma dec_nat_small: "n < 10 \<Longrightarrow> dec_nat n = [48 + word_of_nat n]"
  by (simp add: dec_nat.simps)

lemma dec_nat_big: "10 \<le> n \<Longrightarrow> dec_nat n = dec_nat (n div 10) @ [48 + word_of_nat (n mod 10)]"
  by (subst dec_nat.simps) simp

lemma dec_nat_not_Nil [simp]: "dec_nat n \<noteq> []"
  by (subst dec_nat.simps) simp

lemma length_dec_nat_pos: "1 \<le> length (dec_nat n)"
  by (simp add: Suc_le_eq)

lemma dec_nat_hundred:
  "100 \<le> n \<Longrightarrow> dec_nat n =
     dec_nat (n div 100) @ [48 + word_of_nat (n mod 100 div 10), 48 + word_of_nat (n mod 100 mod 10)]"
proof -
  assume n: "100 \<le> n"
  have "n div 10 div 10 = n div 100" "n div 10 mod 10 = n mod 100 div 10" "n mod 10 = n mod 100 mod 10"
    using mod_mult2_eq [of n 10 10] div_mult2_eq [of n 10 10] by simp_all
  moreover have "10 \<le> n div 10" using n by linarith
  ultimately show ?thesis using n by (simp add: dec_nat_big [of n] dec_nat_big [of "n div 10"])
qed

lemma length_dec_nat_div: "10 ^ k \<le> n \<Longrightarrow> length (dec_nat n) = k + length (dec_nat (n div 10 ^ k))"
proof (induction k arbitrary: n)
  case (Suc k)
  then have "(1 :: nat) \<le> 10 ^ k" "10 * 10 ^ k \<le> n" by simp_all
  then have "10 \<le> n" "10 ^ k \<le> n div 10" by (linarith, simp add: less_eq_div_iff_mult_less_eq mult.commute)
  with Suc.IH [of "n div 10"] show ?case by (simp add: dec_nat_big div_mult2_eq)
qed simp

lemma length_dec_nat: "10 ^ k \<le> n \<Longrightarrow> n < 10 ^ Suc k \<Longrightarrow> length (dec_nat n) = Suc k"
proof -
  assume n: "10 ^ k \<le> n" "n < 10 ^ Suc k"
  then have "n div 10 ^ k < 10" by (simp add: less_mult_imp_div_less)
  with length_dec_nat_div [OF n(1)] show ?thesis by (simp add: dec_nat_small)
qed

lemma length_dec_nat_small [simp]: "n < 10 \<Longrightarrow> length (dec_nat n) = 1"
  by (simp add: dec_nat_small)

lemma length_dec_nat_le: "n < 10 ^ k \<Longrightarrow> 0 < k \<Longrightarrow> length (dec_nat n) \<le> k"
proof (induction n arbitrary: k rule: less_induct)
  case (less n)
  show ?case
  proof (cases "n < 10")
    case False
    obtain j where k: "k = Suc j" using less.prems(2) by (cases k) auto
    then have j: "k = Suc j" "0 < j" using False less.prems(1) by (simp, cases j, simp_all)
    with False have "n div 10 < 10 ^ j" using less.prems(1) by (simp add: less_mult_imp_div_less mult.commute)
    then show ?thesis using less.IH [of "n div 10" j] False j by (simp add: dec_nat_big)
  qed (use less.prems in simp)
qed

lemmas length_dec_nat_intervals =
  length_dec_nat [of 1, simplified] length_dec_nat [of 2, simplified]
  length_dec_nat [of 3, simplified] length_dec_nat [of 4, simplified]
  length_dec_nat [of 5, simplified] length_dec_nat [of 6, simplified]
  length_dec_nat [of 7, simplified] length_dec_nat [of 8, simplified]
  length_dec_nat [of 9, simplified] length_dec_nat [of 10, simplified]
  length_dec_nat [of 11, simplified]

lemma digits10_length: "digits10 v = length (dec_nat (unat v))"
proof (induction v rule: digits10.induct)
  case (1 v)
  show ?case
  proof (cases "v < 1000000000000")
    case True
    then show ?thesis
      by (subst digits10.simps)
        (simp add: word_less_nat_alt word_le_nat_alt not_less length_dec_nat_intervals split: if_split)
  next
    case False
    then have big: "\<not> v < 10" "\<not> v < 100" "\<not> v < 1000" "10 ^ 12 \<le> unat v"
      by (simp_all add: word_less_nat_alt)
    have "digits10 v = 12 + digits10 (v div 1000000000000)"
      using False big by (subst digits10.simps) simp
    also have "\<dots> = 12 + length (dec_nat (unat v div 10 ^ 12))"
      using 1 [OF big(1-3) False] by (simp add: unat_div)
    finally show ?thesis using length_dec_nat_div [OF big(4)] by simp
  qed
qed


lemma nth_concat_pairs:
  "i < length xs \<Longrightarrow> concat (map (\<lambda>x. [f x, g x]) xs) ! (i * 2) = f (xs ! i) \<and>
     concat (map (\<lambda>x. [f x, g x]) xs) ! (i * 2 + 1) = g (xs ! i)"
  by (induction xs arbitrary: i) (auto simp: nth_Cons split: nat.split)

lemma digits_concat:
  "digits = concat (map (\<lambda>i. [48 + word_of_nat (i div 10), 48 + word_of_nat (i mod 10)]) [0..<100])"
  by code_simp

lemma digits_nth:
  assumes "i < 100"
  shows "digits ! (i * 2) = 48 + word_of_nat (i div 10)" "digits ! (i * 2 + 1) = 48 + word_of_nat (i mod 10)"
proof -
  have "[0..<100] ! i = i" using assms by simp
  with nth_concat_pairs [of i "[0..<100]" "\<lambda>i. 48 + word_of_nat (i div 10) :: u8" "\<lambda>i. 48 + word_of_nat (i mod 10)"] assms
  show "digits ! (i * 2) = 48 + word_of_nat (i div 10)" "digits ! (i * 2 + 1) = 48 + word_of_nat (i mod 10)"
    unfolding digits_concat by (simp_all only: length_upt diff_zero)
qed

subsection \<open>Printing\<close>

lemma ucast_unat: "(ucast (v :: 'a :: len word) :: 'b :: len word) = word_of_nat (unat v)"
proof -
  have "int (unat v) = uint v" by (simp only: unat_eq_nat_uint nat_0_le uint_ge_0)
  then have "word_of_int (uint v) = (word_of_int (int (unat v)) :: 'b word)" by (simp only:)
  then show ?thesis by (simp only: ucast_eq of_int_of_nat_eq)
qed

lemma signed_word_inverse: "word_of_int (sint v) = (v :: 'a :: len word)"
  by simp

lemma take_update_two:
  assumes "n < length xs" "1 \<le> n"
  shows "drop (n - 1) (xs[n := b, n - 1 := a]) = a # b # drop (Suc n) xs"
  using assms by (intro nth_equalityI) (auto simp: nth_Cons nth_list_update split: nat.split)

lemma ll_digits_spec:
  assumes "length (dec_nat (unat val)) \<le> Suc n" "n < length dst"
  shows "ll_digits dst (int n) val =
    Some (take (Suc n - length (dec_nat (unat val))) dst @ dec_nat (unat val) @ drop (Suc n) dst)"
  using assms
proof (induction val arbitrary: n dst rule: measure_induct_rule [where f = unat])
  case (less val)
  let ?v = "unat val"
  show ?case
  proof (cases "val \<ge> 100")
    case True
    let ?i = "?v mod 100" and ?d = "dst[n := digits ! (?v mod 100 * 2 + 1), n - 1 := digits ! (?v mod 100 * 2)]"
    have v: "100 \<le> ?v" using True by (simp add: word_le_nat_alt)
    have sm: "unat (val div 100) < ?v" "unat (val div 100) = ?v div 100" "unat (val mod 100) = ?i"
      using v by (simp_all add: unat_div unat_mod)
    note dh = dec_nat_hundred [OF v]
    have n: "2 \<le> n" "length (dec_nat (?v div 100)) \<le> Suc (n - 2)"
      using less.prems(1) length_dec_nat_pos [of "?v div 100"] unfolding dh by simp_all
    have "ll_digits dst (int n) val = ll_digits ?d (int (n - 2)) (val div 100)"
      using True n less.prems sm(3)
      by (subst ll_digits.simps) (simp add: wr_Some of_nat_diff Let_def nat_diff_distrib)
    also have "\<dots> = Some (take (Suc (n - 2) - length (dec_nat (?v div 100))) ?d @
        dec_nat (?v div 100) @ drop (Suc (n - 2)) ?d)"
      using less.IH [OF sm(1), of "n - 2" ?d] n less.prems sm(2) by simp
    finally show ?thesis
      using n less.prems take_update_two [of n dst] digits_nth [of ?i] dh
      by (simp add: Suc_diff_Suc numeral_2_eq_2)
  next
    case False
    then have v: "?v < 100" by (simp add: word_le_nat_alt not_le)
    show ?thesis
    proof (cases "val < 10")
      case True
      then have "?v < 10" by (simp add: word_less_nat_alt)
      then show ?thesis using True False less.prems
        by (subst ll_digits.simps)
          (simp add: dec_nat_small upd_conv_take_nth_drop)
    next
      case f: False
      then have "10 \<le> ?v" by (simp add: word_less_nat_alt)
      then have d: "dec_nat ?v = [48 + word_of_nat (?v div 10), 48 + word_of_nat (?v mod 10)]"
        using v by (simp add: dec_nat_big dec_nat_small)
      have "1 \<le> n" using less.prems d by simp
      then show ?thesis using f False less.prems d take_update_two [of n dst] digits_nth [OF v]
          id_take_nth_drop [of "n - 1"]
        by (subst ll_digits.simps)
          (simp add: wr_Some Let_def nat_diff_distrib upd_conv_take_nth_drop)
    qed
  qed
qed

lemma LLONG_MIN_neg: "word_of_int LLONG_MAX + 1 = (- word_of_int LLONG_MIN :: u64)"
  by simp

lemma unat_minus_sint: "sint v < 0 \<Longrightarrow> unat (- v) = nat (- sint (v :: i64))"
proof -
  assume neg: "sint v < 0"
  have r: "- (2 ^ 63) \<le> sint v" using sint_ge [of v] by simp
  have "- v = word_of_int (- sint v)" by simp
  then have "uint (- v) = take_bit 64 (- sint v)" by (simp only: uint_word_of_int_eq) simp
  also have "\<dots> = - sint v" using neg r by (simp add: take_bit_int_eq_self)
  finally show ?thesis by (simp add: unat_eq_nat_uint)
qed

lemma unat_sint: "0 \<le> sint v \<Longrightarrow> unat v = nat (sint (v :: i64))"
proof -
  assume *: "0 \<le> sint v"
  have "uint v = take_bit 64 (sint v)" by (simp add: uint_sint)
  also have "\<dots> = sint v" using * sint_less [of v] by (simp add: take_bit_int_eq_self)
  finally show ?thesis by (simp add: unat_eq_nat_uint)
qed

definition magnitude :: "i64 \<Rightarrow> u64" where
  "magnitude v = (if sint v < 0 then - v else v)"

lemma unat_magnitude: "unat (magnitude v) = nat \<bar>sint v\<bar>"
  by (simp add: magnitude_def unat_minus_sint unat_sint)

lemma ll2string_magnitude:
  "(if sint v \<noteq> LLONG_MIN then - v else word_of_int LLONG_MAX + 1) = - v"
proof (cases "sint v = LLONG_MIN")
  case True
  then have "v = word_of_int LLONG_MIN" by (metis signed_word_inverse)
  then show ?thesis by simp
qed simp

lemma dec_int_magnitude:
  "dec_int (sint v) = (if sint v < 0 then [45] else []) @ dec_nat (unat (magnitude v))"
  by (simp add: dec_int_def unat_magnitude)

lemma sdigits10_length: "sdigits10 v = length (dec_int (sint v))"
  unfolding sdigits10_def ll2string_magnitude dec_int_magnitude
  by (simp add: digits10_length magnitude_def)

lemma ll2string_spec:
  assumes "dstlen \<le> length dst"
  shows "ll2string dst dstlen v =
    (if length (dec_int (sint v)) \<ge> dstlen then Some (dst, 0)
     else Some (dec_int (sint v) @ 0 # drop (Suc (length (dec_int (sint v)))) dst, length (dec_int (sint v))))"
proof -
  let ?m = "magnitude v" and ?neg = "if sint v < 0 then 1 else 0 :: nat"
  have eq: "ll2string dst dstlen v =
     (let len = digits10 ?m + ?neg in
      if len \<ge> dstlen then Some (dst, 0)
      else do { dst \<leftarrow> wr dst (int len) 0; dst \<leftarrow> ll_digits dst (int len - 1) ?m;
                dst \<leftarrow> (if ?neg = 1 then wr dst 0 45 else Some dst); Some (dst, len) })"
    unfolding ll2string_def ll2string_magnitude magnitude_def by (simp add: Let_def add.commute)
  have len: "digits10 ?m + ?neg = length (dec_int (sint v))"
    by (simp add: digits10_length dec_int_magnitude)
  define l where "l = length (dec_int (sint v))"
  let ?d = "dec_nat (unat ?m)"
  have l: "l = length ?d + ?neg" "1 \<le> l"
    by (simp_all add: l_def dec_int_magnitude Suc_le_eq)
  show ?thesis
  proof (cases "l \<ge> dstlen")
    case True
    then show ?thesis unfolding eq len by (simp add: l_def)
  next
    case False
    then have ld: "l < length dst" using assms by simp
    let ?r = "take ?neg dst @ ?d @ 0 # drop (Suc l) dst"
    have "drop l (dst[l := 0]) = 0 # drop (Suc l) dst"
      using ld by (simp add: drop_update_swap Cons_nth_drop_Suc [symmetric])
    then have "ll_digits (dst[l := 0]) (int l - 1) ?m = Some ?r"
      using ll_digits_spec [of ?m "l - 1" "dst[l := 0]"] l ld by (simp add: of_nat_diff split: if_splits)
    moreover have "(if ?neg = 1 then wr ?r 0 45 else Some ?r) = Some (dec_int (sint v) @ 0 # drop (Suc l) dst)"
      using ld by (cases dst) (simp_all add: wr_def dec_int_magnitude)
    ultimately show ?thesis
      unfolding eq len l_def [symmetric] using False wr_nat [OF ld, of 0] by simp
  qed
qed

subsection \<open>Parsing\<close>

lemma dec_val_ge: "a \<le> dec_val a cs"
proof (induction cs arbitrary: a)
  case (Cons c cs)
  have "a \<le> 10 * a + (unat c - 48)" by simp
  also have "\<dots> \<le> dec_val (10 * a + (unat c - 48)) cs" by (rule Cons.IH)
  finally show ?case by simp
qed simp

lemma digit_unat: "is_digit c \<longleftrightarrow> 48 \<le> unat c \<and> unat c \<le> 57"
  by (simp add: word_le_nat_alt)

lemma digit_sub: "is_digit c \<Longrightarrow> unat (ucast c - 48 :: u64) = unat c - 48"
  by (simp add: digit_unat unat_sub word_le_nat_alt)

lemma digit_char: "is_digit c \<Longrightarrow> 48 + word_of_nat (unat c - 48) = c"
  by (rule word_unat_eq_iff [THEN iffD2]) (simp add: digit_unat unat_word_ariths unsigned_of_nat take_bit_nat_eq_self)

lemma string2ll_loop_iff:
  "string2ll_loop v cs = Some (w, []) \<longleftrightarrow> list_all is_digit cs \<and> unat w = dec_val (unat v) cs"
proof (induction cs arbitrary: v)
  case Nil
  then show ?case by (auto simp: word_unat_eq_iff)
next
  case (Cons c cs)
  show ?case
  proof (cases "is_digit c")
    case True
    define d where "d = unat c - 48"
    define D where "D = (ucast c - 48 :: u64)"
    have d: "d \<le> 9" "unat D = d"
      using True digit_sub [OF True] unfolding d_def D_def digit_unat by auto
    have w: "unat w < 2 ^ 64" using unsigned_less [of w] by simp
    have mx: "unat (word_of_nat ULLONG_MAX - D) = ULLONG_MAX - d"
      using d by (simp add: unat_sub word_le_nat_alt)
    have step: "string2ll_loop v (c # cs) =
        (if 1844674407370955161 < unat v then None
         else if ULLONG_MAX - d < unat (v * 10) then None else string2ll_loop (v * 10 + D) cs)"
      using True mx by (simp add: Let_def word_less_nat_alt D_def)
    show ?thesis
    proof (cases "10 * unat v + d < 2 ^ 64")
      case fits: True
      have ten: "unat (v * 10) = 10 * unat v" using fits by (simp add: unat_word_ariths)
      have sum: "unat (v * 10 + D) = 10 * unat v + d"
        using fits by (simp add: unat_word_ariths(1) ten d(2))
      have "\<not> 1844674407370955161 < unat v" "\<not> ULLONG_MAX - d < 10 * unat v" using fits by auto
      then have "string2ll_loop v (c # cs) = string2ll_loop (v * 10 + D) cs"
        unfolding step ten by simp
      then show ?thesis using Cons.IH True sum by (simp add: d_def)
    next
      case False
      have "unat (v * 10) = 10 * unat v" if "unat v \<le> 1844674407370955161"
        using that by (simp add: unat_word_ariths)
      then have "string2ll_loop v (c # cs) = None"
        unfolding step using False d(1) by auto
      moreover have "unat w \<noteq> dec_val (unat v) (c # cs)"
        using dec_val_ge [of "10 * unat v + d" cs] False w by (simp add: d_def)
      ultimately show ?thesis by simp
    qed
  next
    case False
    then have "string2ll_loop v (c # cs) = Some (v, c # cs)"
      by (simp only: string2ll_loop.simps if_False)
    moreover have "\<not> list_all is_digit (c # cs)" using False by auto
    ultimately show ?thesis by (simp only: option.inject prod.inject list.distinct simp_thms)
  qed
qed

lemma dec_nat_val: "0 < a \<Longrightarrow> list_all is_digit cs \<Longrightarrow> dec_nat (dec_val a cs) = dec_nat a @ cs"
proof (induction cs arbitrary: a)
  case (Cons c cs)
  define d where "d = unat c - 48"
  have d: "d < 10" "48 + word_of_nat d = c"
    using Cons.prems(2) digit_char [of c] digit_unat [of c] by (auto simp: d_def)
  then have "dec_nat (10 * a + d) = dec_nat a @ [c]"
    using Cons.prems(1) by (simp add: dec_nat_big)
  moreover have "dec_nat (dec_val (10 * a + d) cs) = dec_nat (10 * a + d) @ cs"
    using Cons.IH [of "10 * a + d"] Cons.prems by simp
  ultimately show ?case by (simp add: d_def)
qed simp

lemma dec_val_append: "dec_val a (xs @ ys) = dec_val (dec_val a xs) ys"
  by (induction xs arbitrary: a) simp_all

lemma unat_digit: "n < 10 \<Longrightarrow> unat (48 + word_of_nat n :: u8) = 48 + n"
  by (simp add: unat_word_ariths unsigned_of_nat take_bit_nat_eq_self)

lemma dec_nat_Cons:
  assumes "0 < n"
  obtains c cs where "dec_nat n = c # cs" "49 \<le> c" "c \<le> 57" "list_all is_digit cs"
    "dec_val (unat c - 48) cs = n"
proof -
  have "\<exists>c cs. dec_nat n = c # cs \<and> 49 \<le> c \<and> c \<le> 57 \<and> list_all is_digit cs \<and> dec_val (unat c - 48) cs = n"
    using assms
  proof (induction n rule: less_induct)
    case (less n)
    show ?case
    proof (cases "n < 10")
      case True
      then show ?thesis using less.prems
        by (simp add: dec_nat_small word_le_nat_alt unat_digit)
    next
      case False
      then have "n div 10 < n" "0 < n div 10" by simp_all
      with less.IH obtain c cs where "dec_nat (n div 10) = c # cs" "49 \<le> c" "c \<le> 57" "list_all is_digit cs"
        "dec_val (unat c - 48) cs = n div 10" by blast
      moreover have "is_digit (48 + word_of_nat (n mod 10))"
        unfolding digit_unat by (simp add: unat_digit)
      ultimately show ?thesis using False
        by (simp add: dec_nat_big dec_val_append unat_digit)
    qed
  qed
  with that show thesis by blast
qed

text \<open>The unsigned accumulator against the two bounds of \<open>string2ll\<close>.\<close>

lemma uint_unat: "uint v = int (unat v)"
  by (simp only: unat_eq_nat_uint nat_0_le uint_ge_0)

lemma sint_unat: "unat (v :: i64) < 2 ^ 63 \<Longrightarrow> sint v = int (unat v)"
  unfolding uint_unat [symmetric] sint_uint
  by (rule signed_take_bit_int_eq_self) (auto simp: uint_unat simp del: of_nat_unat)

lemma sint_neg_unat:
  assumes "0 < unat (v :: i64)" "unat v \<le> 2 ^ 63" shows "sint (- v) = - int (unat v)"
proof -
  have eq: "- v = word_of_int (- uint v)" by simp
  have "sint (- v) = signed_take_bit 63 (- uint v)" unfolding eq signed_of_int by simp
  also have "\<dots> = - uint v"
    by (rule signed_take_bit_int_eq_self) (use assms in \<open>auto simp: uint_unat simp del: of_nat_unat\<close>)
  finally show ?thesis by (simp only: uint_unat)
qed

lemma dec_nat_first: "49 \<le> c \<Longrightarrow> c \<le> 57 \<Longrightarrow> list_all is_digit cs \<Longrightarrow> dec_nat (dec_val (unat c - 48) cs) = c # cs"
  using dec_nat_val [of "unat c - 48" cs] digit_char [of c]
  by (simp add: word_le_nat_alt dec_nat_small)

lemma digits_iff:
  assumes "0 < n"
  shows "dec_nat n = s \<longleftrightarrow> s \<noteq> [] \<and> 49 \<le> hd s \<and> hd s \<le> 57 \<and> list_all is_digit (tl s) \<and>
    n = dec_val (unat (hd s) - 48) (tl s)"
proof
  obtain c cs where "dec_nat n = c # cs" "49 \<le> c" "c \<le> 57" "list_all is_digit cs" "dec_val (unat c - 48) cs = n"
    by (rule dec_nat_Cons [OF assms])
  then show "dec_nat n = s \<Longrightarrow> s \<noteq> [] \<and> 49 \<le> hd s \<and> hd s \<le> 57 \<and> list_all is_digit (tl s) \<and>
    n = dec_val (unat (hd s) - 48) (tl s)" by auto
qed (use dec_nat_first [of "hd s" "tl s"] in simp)

lemma loop_dec_nat:
  assumes "p \<noteq> []" "49 \<le> hd p" "hd p \<le> 57"
  shows "string2ll_loop (ucast (hd p) - 48) (tl p) = Some (w, []) \<longleftrightarrow> 0 < unat w \<and> p = dec_nat (unat w)"
proof -
  have d: "is_digit (hd p)" using assms by (simp add: word_le_nat_alt)
  have "0 < dec_val (unat (hd p) - 48) (tl p)"
    using dec_val_ge [of "unat (hd p) - 48" "tl p"] assms(2) by (simp add: word_le_nat_alt)
  then show ?thesis
    unfolding string2ll_loop_iff digit_sub [OF d]
    using digits_iff [of "unat w" p] assms by (cases "unat w = 0") auto
qed

lemma string2ll_bounds:
  "word_of_int (- (LLONG_MIN + 1)) + 1 < v \<longleftrightarrow> 2 ^ 63 < unat (v :: u64)"
  "word_of_int LLONG_MAX < v \<longleftrightarrow> 2 ^ 63 - 1 < unat v"
  by (simp_all add: word_less_nat_alt)

text \<open>The body of \<open>string2ll\<close> after the sign: \<open>p\<close> parses to \<open>w\<close> exactly if it is its decimal form.\<close>

lemma string2ll_eq:
  "string2ll s = Some v \<longleftrightarrow>
     s = [48] \<and> v = 0 \<or>
     (\<exists>w. 0 < unat w \<and>
        (s = 45 # dec_nat (unat w) \<and> unat w \<le> 2 ^ 63 \<and> v = - w \<or>
         s = dec_nat (unat w) \<and> unat w < 2 ^ 63 \<and> v = w))"
  (is "?L \<longleftrightarrow> ?R")
proof -
  have hd1: "49 \<le> hd (dec_nat (unat w)) \<and> hd (dec_nat (unat w)) \<le> 57" if "0 < unat w" for w :: u64
    by (rule dec_nat_Cons [OF that]) simp
  have n45: "hd (dec_nat (unat w)) \<noteq> 45 \<and> dec_nat (unat w) \<noteq> [48]" if "0 < unat w" for w :: u64
    using hd1 [OF that] by (auto simp: word_le_nat_alt)
  show ?thesis
  proof (cases "s = [] \<or> s = [48]")
    case True
    then show ?thesis using n45 by (fastforce simp: string2ll_def dest: sym)
  next
    case False
    define neg where "neg = (hd s = 45)"
    define p where "p = (if neg then tl s else s)"
    have one: "\<not> (hd p = 48 \<and> length s = 1)" if "p \<noteq> []"
      using that False by (cases s) (auto simp: p_def split: if_splits)
    have "string2ll s =
      (if p \<noteq> [] \<and> 49 \<le> hd p \<and> hd p \<le> 57 then
         case string2ll_loop (ucast (hd p) - 48) (tl p) of None \<Rightarrow> None
         | Some (v, rest) \<Rightarrow>
             if rest \<noteq> [] then None
             else if neg then if 2 ^ 63 < unat v then None else Some (- v)
             else if 2 ^ 63 - 1 < unat v then None else Some v
       else None)"
      using False one
      unfolding string2ll_def Let_def neg_def [symmetric] p_def [symmetric] string2ll_bounds by auto
    then have eq: "?L \<longleftrightarrow> p \<noteq> [] \<and> 49 \<le> hd p \<and> hd p \<le> 57 \<and>
        (\<exists>w. string2ll_loop (ucast (hd p) - 48) (tl p) = Some (w, []) \<and>
          (if neg then unat w \<le> 2 ^ 63 \<and> v = - w else unat w < 2 ^ 63 \<and> v = w))"
      by (auto split: option.splits if_splits)
    have s: "s = (if neg then 45 # p else p)" using False by (cases s) (auto simp: neg_def p_def)
    have "?L \<longleftrightarrow> (\<exists>w. 0 < unat w \<and> p = dec_nat (unat w) \<and>
          (if neg then unat w \<le> 2 ^ 63 \<and> v = - w else unat w < 2 ^ 63 \<and> v = w))"
    proof (cases "p \<noteq> [] \<and> 49 \<le> hd p \<and> hd p \<le> 57")
      case True
      then show ?thesis unfolding eq using loop_dec_nat [of p] by auto
    next
      case False
      then have "p \<noteq> dec_nat (unat w)" if "0 < unat w" for w :: u64 using hd1 [OF that] by auto
      with False show ?thesis unfolding eq by auto
    qed
    also have "\<dots> \<longleftrightarrow> ?R"
    proof (cases neg)
      case True
      then have "s = 45 # p" using s by simp
      moreover have "45 # p \<noteq> dec_nat (unat w)" if "0 < unat w" for w :: u64
        using n45 [OF that] by (metis list.sel(1))
      ultimately show ?thesis using True by auto
    next
      case nn: False
      then have "s = p" by (simp add: p_def)
      moreover have "p \<noteq> 45 # q" for q using nn unfolding neg_def \<open>s = p\<close> by auto
      ultimately show ?thesis using nn False by simp
    qed
    finally show ?thesis .
  qed
qed

lemma string2ll_iff: "string2ll s = Some v \<longleftrightarrow> s = dec_int (sint v)"
proof -
  have pos: "(\<exists>w. 0 < unat w \<and> s = dec_nat (unat w) \<and> unat w < 2 ^ 63 \<and> v = w) \<longleftrightarrow>
      0 < sint v \<and> s = dec_int (sint v)"
  proof
    assume "0 < sint v \<and> s = dec_int (sint v)"
    then show "\<exists>w. 0 < unat w \<and> s = dec_nat (unat w) \<and> unat w < 2 ^ 63 \<and> v = w"
      using sint_less [of v] unat_sint [of v] by (auto simp: dec_int_def)
  qed (auto simp: dec_int_def sint_unat simp del: of_nat_unat)
  have neg: "(\<exists>w. 0 < unat w \<and> s = 45 # dec_nat (unat w) \<and> unat w \<le> 2 ^ 63 \<and> v = - w) \<longleftrightarrow>
      sint v < 0 \<and> s = dec_int (sint v)"
  proof
    assume "sint v < 0 \<and> s = dec_int (sint v)"
    then show "\<exists>w. 0 < unat w \<and> s = 45 # dec_nat (unat w) \<and> unat w \<le> 2 ^ 63 \<and> v = - w"
      using sint_ge [of v] unat_minus_sint [of v] by (intro exI [of _ "- v"]) (auto simp: dec_int_def)
  qed (auto simp: dec_int_def sint_neg_unat simp del: of_nat_unat)
  have zero: "sint v = 0 \<longleftrightarrow> v = 0" by (metis signed_word_inverse signed_0 of_int_0)
  have "string2ll s = Some v \<longleftrightarrow> s = [48] \<and> v = 0 \<or> sint v < 0 \<and> s = dec_int (sint v) \<or>
      0 < sint v \<and> s = dec_int (sint v)"
    unfolding string2ll_eq pos [symmetric] neg [symmetric] by blast
  also have "\<dots> \<longleftrightarrow> s = dec_int (sint v)"
    using zero by (cases "sint v" "0 :: int" rule: linorder_cases) (auto simp: dec_int_def dec_nat_small)
  finally show ?thesis .
qed

subsection \<open>Sizes\<close>

lemma length_dec_int_le: "length (dec_int (sint (v :: i64))) \<le> 20"
proof -
  have "unat (magnitude v) < 10 ^ 19"
    using sint_ge [of v] sint_less [of v] by (simp add: unat_magnitude nat_less_iff abs_less_iff)
  then have "length (dec_nat (unat (magnitude v))) \<le> 19"
    using length_dec_nat_le [of "unat (magnitude v)" 19] by simp
  then show ?thesis by (simp add: dec_int_magnitude)
qed

lemma dec_nat_digits: "list_all is_digit (dec_nat n)"
proof (cases "n = 0")
  case False
  then obtain c cs where "dec_nat n = c # cs" "49 \<le> c" "c \<le> 57" "list_all is_digit cs"
    using dec_nat_Cons [of n] by blast
  then show ?thesis by (auto simp: word_le_nat_alt)
qed (simp add: dec_nat_small)

lemma dec_val_dec_nat: "dec_val 0 (dec_nat n) = n"
proof (cases "n = 0")
  case False
  then obtain c cs where "dec_nat n = c # cs" "dec_val (unat c - 48) cs = n"
    using dec_nat_Cons [of n] by blast
  then show ?thesis by simp
qed (simp add: dec_nat_small)

lemma mem_unit_letters:
  assumes "mem_unit (map tolower u) = Some mul" shows "1 \<le> mul" "u \<noteq> [] \<Longrightarrow> \<not> is_digit (hd u)"
proof -
  show "1 \<le> mul" using assms by (auto simp: mem_unit_def split: if_splits)
  have "tolower c \<noteq> 98" "tolower c \<noteq> 107" "tolower c \<noteq> 109" "tolower c \<noteq> 103" if "is_digit c" for c
    using that by (auto simp: tolower_def word_le_nat_alt word_unat_eq_iff unat_word_ariths)
  then show "u \<noteq> [] \<Longrightarrow> \<not> is_digit (hd u)"
    using assms by (cases u) (auto simp: mem_unit_def str_def split: if_splits)
qed

lemma takeWhile_dec_nat:
  "(u \<noteq> [] \<Longrightarrow> \<not> is_digit (hd u)) \<Longrightarrow> takeWhile is_digit (dec_nat n @ u) = dec_nat n"
  using dec_nat_digits [of n] by (cases u) (auto simp: takeWhile_append list_all_iff)

lemma hd_dec_nat: "is_digit (hd (dec_nat n))"
  using dec_nat_digits [of n] by (cases "dec_nat n") auto

lemma strtoll_dec_nat: "int n \<le> LLONG_MAX \<Longrightarrow> strtoll (dec_nat n) = (int n, [])"
proof -
  assume n: "int n \<le> LLONG_MAX"
  have h: "\<not> isspace (hd (dec_nat n))" "hd (dec_nat n) \<noteq> 45" "hd (dec_nat n) \<noteq> 43"
    using hd_dec_nat [of n] by (auto simp: isspace_def word_le_nat_alt word_unat_eq_iff)
  have dw: "dropWhile isspace (dec_nat n) = dec_nat n"
    using h(1) by (cases "dec_nat n") auto
  have tw: "takeWhile is_digit (dec_nat n) = dec_nat n" "dropWhile is_digit (dec_nat n) = []"
    using dec_nat_digits [of n] by (auto simp: list_all_iff takeWhile_eq_all_conv dropWhile_eq_Nil_conv)
  show ?thesis using h n by (simp add: strtoll_def Let_def dw tw dec_val_dec_nat)
qed

subsection \<open>Guarantees\<close>

text \<open>C22: \<open>ll2string\<close> never writes outside of a buffer of at least \<open>dstlen\<close> bytes: it either
  refuses because the text and its terminator do not fit, leaving the buffer as it is, or writes
  the decimal text, a NUL byte and nothing else, and returns the length of the text.\<close>

theorem ll2string_correct:
  assumes "dstlen \<le> length dst"
  shows "ll2string dst dstlen v =
    (if length (dec_int (sint v)) \<ge> dstlen then Some (dst, 0)
     else Some (dec_int (sint v) @ 0 # drop (Suc (length (dec_int (sint v)))) dst, length (dec_int (sint v))))"
  by (rule ll2string_spec [OF assms])

theorem ll2string_correct_witness:
  "ll2string [1, 2, 3, 4] 4 (- 12) = Some (str ''-12'' @ [0], 3) \<and> ll2string [1, 2, 3] 3 (- 12) = Some ([1, 2, 3], 0)"
  using ll2string_correct [of 4 "[1, 2, 3, 4]" "- 12"] ll2string_correct [of 3 "[1, 2, 3]" "- 12"]
  by (simp add: dec_int_def dec_nat_big dec_nat_small str_def)

text \<open>C21: Printing and parsing are inverse: with at least 21 bytes \<open>ll2string\<close> always succeeds, and the
  only string \<open>string2ll\<close> parses to \<open>v\<close> is the one \<open>ll2string\<close> prints for \<open>v\<close>. In particular
  \<open>string2ll\<close> accepts no leading zero, no plus sign, no blank and no value out of range.\<close>

theorem ll2string_string2ll_inverse:
  assumes "21 \<le> dstlen" "dstlen \<le> length dst"
  shows "\<exists>buf len. ll2string dst dstlen v = Some (buf, len) \<and> len < dstlen \<and> buf ! len = 0 \<and>
    (\<forall>s. string2ll s = Some v \<longleftrightarrow> s = take len buf)"
  using ll2string_spec [OF assms(2), of v] length_dec_int_le [of v] assms(1)
  by (simp add: string2ll_iff)

theorem ll2string_string2ll_inverse_witness:
  "\<exists>buf len. ll2string (replicate 21 0) 21 (- 5) = Some (buf, len) \<and> string2ll (take len buf) = Some (- 5)"
  using ll2string_string2ll_inverse [of 21 "replicate 21 0" "- 5"] by force



end
