(* ===== verification/Glob.thy ===== *)
theory Glob
  imports Util
begin

text \<open>
  Glob-style matching (\<open>stringmatchlen\<close> and \<open>stringmatch\<close> of \<open>src/util.c\<close>), the matcher behind
  KEYS, SCAN MATCH, PSUBSCRIBE and CONFIG GET. The two C strings are byte lists that hold
  everything the pointers may read, the terminating NUL included; \<open>i\<close> and \<open>j\<close> are the offsets of
  the pointers \<open>pattern\<close> and \<open>string\<close>, \<open>plen\<close> and \<open>slen\<close> the two signed lengths. A read outside
  of a list, or a pointer moved past its end, is \<open>None\<close>.
\<close>

subsection \<open>Definitions\<close>

text \<open>A pointer increment.\<close>

definition adv :: "bytes \<Rightarrow> nat \<Rightarrow> nat option" where
  "adv xs i = (if i < length xs then Some (Suc i) else None)"

definition tolower_int :: "int \<Rightarrow> int" where
  "tolower_int c = (if 65 \<le> c \<and> c \<le> 90 then c + 32 else c)"

definition ch_eq :: "bool \<Rightarrow> u8 \<Rightarrow> u8 \<Rightarrow> bool" where
  "ch_eq nocase a b =
     (if \<not> nocase then a = b else tolower_int (sint a) = tolower_int (sint b))"

text \<open>The range test of a class: the bounds are ordered first, as signed characters.\<close>

definition in_range :: "bool \<Rightarrow> u8 \<Rightarrow> u8 \<Rightarrow> u8 \<Rightarrow> bool" where
  "in_range nocase a b ch =
     (let (start, end1) = (if sint a > sint b then (sint b, sint a) else (sint a, sint b));
          (start, end1, c) =
            (if nocase then (tolower_int start, tolower_int end1, tolower_int (sint ch))
             else (start, end1, sint ch))
      in c \<ge> start \<and> c \<le> end1)"

text \<open>The \<open>while(1)\<close> loop over the members of a class.\<close>

function class_loop ::
  "bool \<Rightarrow> bytes \<Rightarrow> bytes \<Rightarrow> nat \<Rightarrow> nat \<Rightarrow> int \<Rightarrow> bool \<Rightarrow> (nat \<times> int \<times> bool) option" where
  "class_loop nocase P S j i plen match = do {
     c \<leftarrow> rd P (int i);
     if c = 92 then do {
       i \<leftarrow> adv P i;
       d \<leftarrow> rd P (int i);
       s \<leftarrow> rd S (int j);
       i \<leftarrow> adv P i;
       class_loop nocase P S j i (plen - 2) (match \<or> d = s) }
     else if c = 93 then Some (i, plen, match)
     else if plen = 0 then Some (i - 1, plen + 1, match)
     else do {
       d \<leftarrow> rd P (int i + 1);
       if d = 45 \<and> plen \<ge> 3 then do {
         e \<leftarrow> rd P (int i + 2);
         s \<leftarrow> rd S (int j);
         i \<leftarrow> adv P (i + 2);
         class_loop nocase P S j i (plen - 3) (match \<or> in_range nocase c e s) }
       else do {
         s \<leftarrow> rd S (int j);
         i \<leftarrow> adv P i;
         class_loop nocase P S j i (plen - 1) (match \<or> ch_eq nocase c s) } } }"
  by pat_completeness auto
termination
  by (relation "measure (\<lambda>(nocase, P, S, j, i, plen, match). length P - i)")
    (auto simp: adv_def split: if_splits)

text \<open>
  One character of the string against the pattern at \<open>i\<close>, which is not a star: \<open>Inl False\<close> for
  \<open>return 0\<close>, else the two pointers and lengths at the end of the \<open>switch\<close>.
\<close>

definition match_one ::
  "bool \<Rightarrow> bytes \<Rightarrow> bytes \<Rightarrow> u8 \<Rightarrow> nat \<Rightarrow> int \<Rightarrow> nat \<Rightarrow> int \<Rightarrow>
   (bool + nat \<times> int \<times> nat \<times> int) option" where
  "match_one nocase P S c i plen j slen =
     (if c = 63 then
        if slen = 0 then Some (Inl False)
        else do { j \<leftarrow> adv S j; Some (Inr (i, plen, j, slen - 1)) }
      else if c = 91 then do {
        i \<leftarrow> adv P i;
        d \<leftarrow> rd P (int i);
        let neg = (d = 94);
        (i, plen) \<leftarrow> (if neg then do { i \<leftarrow> adv P i; Some (i, plen - 2) } else Some (i, plen - 1));
        (i, plen, match) \<leftarrow> class_loop nocase P S j i plen False;
        if match = neg then Some (Inl False)
        else do { j \<leftarrow> adv S j; Some (Inr (i, plen, j, slen - 1)) } }
      else do {
        (i, plen) \<leftarrow> (if c = 92 \<and> plen \<ge> 2 then do { i \<leftarrow> adv P i; Some (i, plen - 1) } else Some (i, plen));
        d \<leftarrow> rd P (int i);
        s \<leftarrow> rd S (int j);
        if \<not> ch_eq nocase d s then Some (Inl False)
        else do { j \<leftarrow> adv S j; Some (Inr (i, plen, j, slen - 1)) } })"

text \<open>\<open>while (pattern[1] == '*')\<close> at a star, and \<open>while (*pattern == '*')\<close> at the end.\<close>

function skip_stars :: "bytes \<Rightarrow> nat \<Rightarrow> int \<Rightarrow> (nat \<times> int) option" where
  "skip_stars P i plen = do {
     c \<leftarrow> rd P (int i + 1);
     if c = 42 then skip_stars P (Suc i) (plen - 1) else Some (i, plen) }"
  by pat_completeness auto
termination
  by (relation "measure (\<lambda>(P, i, plen). length P - i)") (auto simp: rd_def split: if_splits)

function skip_trailing :: "bytes \<Rightarrow> nat \<Rightarrow> int \<Rightarrow> int option" where
  "skip_trailing P i plen = do {
     c \<leftarrow> rd P (int i);
     if c = 42 then skip_trailing P (Suc i) (plen - 1) else Some plen }"
  by pat_completeness auto
termination
  by (relation "measure (\<lambda>(P, i, plen). length P - i)") (auto simp: rd_def split: if_splits)

declare class_loop.simps [simp del] skip_stars.simps [simp del] skip_trailing.simps [simp del]

lemma adv_Some: "adv xs i = Some k \<longleftrightarrow> i < length xs \<and> k = Suc i"
  by (auto simp: adv_def)

lemma skip_stars_ge: "skip_stars P i plen = Some (k, q) \<Longrightarrow> i \<le> k \<and> k < length P"
proof (induction P i plen rule: skip_stars.induct)
  case (1 P i plen)
  then show ?case
    by (subst (asm) (2) skip_stars.simps)
      (fastforce simp: bind_eq_Some_conv rd_def split: if_splits)
qed

lemma class_loop_ge: "class_loop nocase P S j i plen m = Some (k, q, m') \<Longrightarrow> i \<le> Suc k"
proof (induction "length P - i" arbitrary: i plen m rule: less_induct)
  case less
  have step: "i \<le> Suc k" if "class_loop nocase P S j i' plen' b = Some (k, q, m')" "i < i'" "i < length P" for i' plen' b
    using less.hyps [OF _ that(1)] that(2,3) by linarith
  from less.prems show ?case
    by (subst (asm) class_loop.simps)
      (auto simp: bind_eq_Some_conv adv_Some rd_def split: if_splits dest!: step)
qed

lemma match_one_ge: "match_one nocase P S c i plen j slen = Some (Inr (k, q, j', slen')) \<Longrightarrow> i \<le> k"
  by (auto simp: match_one_def bind_eq_Some_conv adv_Some Let_def split: if_splits dest!: class_loop_ge)

text \<open>The outer loop, and the loop that tries the rest of the pattern at every position.\<close>

function match_at :: "bool \<Rightarrow> bytes \<Rightarrow> bytes \<Rightarrow> nat \<Rightarrow> int \<Rightarrow> nat \<Rightarrow> int \<Rightarrow> bool option"
  and star_loop :: "bool \<Rightarrow> bytes \<Rightarrow> bytes \<Rightarrow> nat \<Rightarrow> int \<Rightarrow> nat \<Rightarrow> int \<Rightarrow> bool option" where
  "match_at nocase P S i plen j slen =
     (if plen = 0 then Some (slen = 0)
      else do {
        c \<leftarrow> rd P (int i);
        if c = 42 then do {
          (i, plen) \<leftarrow> skip_stars P i plen;
          if plen = 1 then Some True else star_loop nocase P S i plen j slen }
        else do {
          r \<leftarrow> match_one nocase P S c i plen j slen;
          case r of
            Inl b \<Rightarrow> Some b
          | Inr (i, plen, j, slen) \<Rightarrow> do {
              i \<leftarrow> adv P i;
              if slen = 0 then do {
                plen \<leftarrow> skip_trailing P i (plen - 1);
                Some (plen = 0) }
              else match_at nocase P S i (plen - 1) j slen } } })"
| "star_loop nocase P S i plen j slen =
     (if slen = 0 then Some False
      else do {
        k \<leftarrow> adv P i;
        r \<leftarrow> match_at nocase P S k (plen - 1) j slen;
        if r then Some True
        else do { j \<leftarrow> adv S j; star_loop nocase P S i plen j (slen - 1) } })"
  by pat_completeness auto
termination
  by (relation "inv_image (less_than <*lex*> less_than <*lex*> less_than)
      (\<lambda>x. case x of Inl (nocase, P, S, i, plen, j, slen) \<Rightarrow> (length P - i, 1 :: nat, length S - j)
                   | Inr (nocase, P, S, i, plen, j, slen) \<Rightarrow> (length P - i, 0, length S - j))")
    (auto simp: adv_Some dest!: skip_stars_ge match_one_ge)

declare match_at.simps [simp del] star_loop.simps [simp del]

definition stringmatchlen :: "bytes \<Rightarrow> int \<Rightarrow> bytes \<Rightarrow> int \<Rightarrow> bool \<Rightarrow> bool option" where
  "stringmatchlen P plen S slen nocase = match_at nocase P S 0 plen 0 slen"

text \<open>On two NUL-terminated strings, given without their terminators.\<close>

definition stringmatch :: "bytes \<Rightarrow> bytes \<Rightarrow> bool \<Rightarrow> bool option" where
  "stringmatch p s nocase =
     stringmatchlen (p @ [0]) (int (length (takeWhile (\<lambda>c. c \<noteq> 0) p)))
                    (s @ [0]) (int (length (takeWhile (\<lambda>c. c \<noteq> 0) s))) nocase"

subsection \<open>Reference semantics\<close>

text \<open>
  A pattern is a sequence of stars and of single-character tests; \<open>None\<close> if an escape in a class
  is the last character of the pattern.
\<close>

datatype token = Star | One "u8 \<Rightarrow> bool"

fun class_spec :: "bool \<Rightarrow> bytes \<Rightarrow> ((u8 \<Rightarrow> bool) \<times> bytes) option" where
  "class_spec nocase [] = Some (\<lambda>_. False, [])"
| "class_spec nocase (c # p) =
     (if c = 92 then
        case p of [] \<Rightarrow> None
        | d # q \<Rightarrow> map_option (\<lambda>(T, r). (\<lambda>s. d = s \<or> T s, r)) (class_spec nocase q)
      else if c = 93 then Some (\<lambda>_. False, p)
      else case p of
          d # e # q \<Rightarrow>
            if d = 45 then map_option (\<lambda>(T, r). (\<lambda>s. in_range nocase c e s \<or> T s, r)) (class_spec nocase q)
            else map_option (\<lambda>(T, r). (\<lambda>s. ch_eq nocase c s \<or> T s, r)) (class_spec nocase p)
        | _ \<Rightarrow> map_option (\<lambda>(T, r). (\<lambda>s. ch_eq nocase c s \<or> T s, r)) (class_spec nocase p))"

declare class_spec.simps [simp del]

lemma class_spec_length: "class_spec nocase p = Some (T, r) \<Longrightarrow> length r \<le> length p"
proof (induction "length p" arbitrary: p T r rule: less_induct)
  case less
  have IH: "length r \<le> length p" if "class_spec nocase q = Some (T', r)" "length q < length p" for q T'
    using less.hyps [OF that(2,1)] that(2) by simp
  show ?case
  proof (cases p)
    case (Cons c q)
    with less.prems show ?thesis
      by (subst (asm) Cons, subst (asm) class_spec.simps) (auto split: if_splits list.splits dest!: IH)
  qed (use less.prems in \<open>simp add: class_spec.simps(1)\<close>)
qed

function parse_glob :: "bool \<Rightarrow> bytes \<Rightarrow> token list option" where
  "parse_glob nocase [] = Some []"
| "parse_glob nocase (c # p) =
     (if c = 42 then map_option (Cons Star) (parse_glob nocase p)
      else if c = 63 then map_option (Cons (One (\<lambda>_. True))) (parse_glob nocase p)
      else if c = 91 then
        let neg = (p \<noteq> [] \<and> hd p = 94) in
        case class_spec nocase (if neg then tl p else p) of
          None \<Rightarrow> None
        | Some (T, r) \<Rightarrow> map_option (Cons (One (\<lambda>s. T s \<noteq> neg))) (parse_glob nocase r)
      else if c = 92 \<and> p \<noteq> [] then map_option (Cons (One (ch_eq nocase (hd p)))) (parse_glob nocase (tl p))
      else map_option (Cons (One (ch_eq nocase c))) (parse_glob nocase p))"
  by pat_completeness auto
termination
  by (relation "measure (\<lambda>(nocase, p). length p)")
    (auto dest!: class_spec_length split: if_splits simp: less_Suc_eq_le intro: le_trans [OF _ diff_le_self])

fun tok_match :: "token list \<Rightarrow> bytes \<Rightarrow> bool" where
  "tok_match [] s \<longleftrightarrow> s = []"
| "tok_match (Star # ts) [] \<longleftrightarrow> tok_match ts []"
| "tok_match (Star # ts) (c # s) \<longleftrightarrow> tok_match ts (c # s) \<or> tok_match (Star # ts) s"
| "tok_match (One T # ts) [] \<longleftrightarrow> False"
| "tok_match (One T # ts) (c # s) \<longleftrightarrow> T c \<and> tok_match ts s"

declare parse_glob.simps [simp del]

subsection \<open>Pointers into terminated strings\<close>

definition at :: "bytes \<Rightarrow> nat \<Rightarrow> bytes \<Rightarrow> bool" where
  "at P i p \<longleftrightarrow> drop i P = p @ [0]"

lemma at_length: "at P i p \<Longrightarrow> length P = i + length p + 1"
  unfolding at_def by (metis add.assoc add.commute add_diff_inverse_nat append_is_Nil_conv drop_eq_Nil2 length_append_singleton length_drop
      list.distinct(1) not_le_imp_less less_imp_le_nat not_less Suc_eq_plus1)

lemma at_rd:
  assumes "at P i p" "k \<le> length p"
  shows "rd P (int i + int k) = Some ((p @ [0]) ! k)"
proof -
  have "P ! (i + k) = drop i P ! k" using assms at_length by (simp add: nth_drop)
  then show ?thesis using assms at_length [OF assms(1)]
    unfolding at_def by (simp add: rd_def nat_add_distrib)
qed

lemma at_rd0: "at P i p \<Longrightarrow> rd P (int i) = Some (hd (p @ [0]))"
  using at_rd [of P i p 0] by (simp add: hd_conv_nth)

lemma at_rd1: "at P i (c # p) \<Longrightarrow> rd P (int i + 1) = Some (hd (p @ [0]))"
  using at_rd [of P i "c # p" 1] by (simp add: hd_conv_nth)

lemma at_rd2: "at P i (c # d # p) \<Longrightarrow> rd P (int i + 2) = Some (hd (p @ [0]))"
  using at_rd [of P i "c # d # p" 2] by (simp add: hd_conv_nth)

lemma at_adv: "at P i p \<Longrightarrow> adv P i = Some (Suc i)"
  using at_length [of P i p] by (simp add: adv_def)

lemma at_Cons: "at P i (c # p) \<Longrightarrow> at P (Suc i) p"
  by (simp add: at_def) (metis drop_Suc tl_drop list.sel(3))

lemma at_rd1': "at P i (c # p) \<Longrightarrow> rd P (1 + int i) = Some (hd (p @ [0]))"
  using at_rd1 by (simp add: add.commute)

lemmas at_simps = at_rd0 at_rd1 at_rd1' at_rd2 at_adv

subsection \<open>Classes\<close>

lemma class_loop_spec:
  assumes "class_spec nocase p = Some (T, r)" "at P i p" "0 < i" "at S j (s # ss)"
  shows "\<exists>k. class_loop nocase P S j i (int (length p)) m = Some (k, int (length r) + 1, m \<or> T s) \<and>
    i \<le> Suc k \<and> at P (Suc k) r"
  using assms(1-3)
proof (induction "length p" arbitrary: p i m T r rule: less_induct)
  case less
  note S = at_rd0 [OF assms(4), simplified]
  show ?case
  proof (cases p)
    case Nil
    then show ?thesis using less.prems S
      by (subst class_loop.simps) (auto simp: at_simps class_spec.simps)
  next
    case (Cons c q)
    have at: "at P i (c # q)" "at P (Suc i) q" using less.prems(2) Cons at_Cons by auto
    have IH: "\<exists>k. class_loop nocase P S j i' (int (length q')) m' = Some (k, int (length r) + 1, m' \<or> T' s) \<and>
        i' \<le> Suc k \<and> at P (Suc k) r"
      if "class_spec nocase q' = Some (T', r)" "at P i' q'" "length q' < length p" "0 < i'" for i' q' m' T'
      using less.hyps that by blast
    consider (esc) d q' T' where "c = 92" "q = d # q'" "class_spec nocase q' = Some (T', r)" "T = (\<lambda>s. d = s \<or> T' s)"
      | (close) "c = 93" "r = q" "T = (\<lambda>_. False)"
      | (range) e q' T' where "c \<noteq> 92" "c \<noteq> 93" "q = 45 # e # q'" "class_spec nocase q' = Some (T', r)"
          "T = (\<lambda>s. in_range nocase c e s \<or> T' s)"
      | (lit) T' where "c \<noteq> 92" "c \<noteq> 93" "\<nexists>e q'. q = 45 # e # q'" "class_spec nocase q = Some (T', r)"
          "T = (\<lambda>s. ch_eq nocase c s \<or> T' s)"
      using less.prems(1) Cons
      by (subst (asm) Cons, subst (asm) class_spec.simps) (auto split: if_splits list.splits)
    then show ?thesis
    proof cases
      case esc
      have "at P (Suc (Suc i)) q'" using at(2) esc at_Cons by simp
      with esc IH [of q' T' "Suc (Suc i)" "m \<or> d = s"] Cons at S show ?thesis
        by (subst class_loop.simps) (auto simp: at_simps)
    next
      case close
      with at Cons show ?thesis by (subst class_loop.simps) (auto simp: at_simps)
    next
      case range
      have "at P (Suc (Suc (Suc i))) q'" using at(2) range by (auto dest: at_Cons)
      with range IH [of q' T' "Suc (Suc (Suc i))" "m \<or> in_range nocase c e s"] Cons at S show ?thesis
        using at_adv [of P "Suc (Suc i)" "e # q'"] at_Cons [of P "Suc i" 45 "e # q'"]
        by (subst class_loop.simps) (auto simp: at_simps)
    next
      case lit
      have nr: "\<not> (hd (q @ [0]) = 45 \<and> int (length p) \<ge> 3)"
        using lit(3) Cons by (cases q rule: list.exhaust; cases "tl q") auto
      from lit IH [of q T' "Suc i" "m \<or> ch_eq nocase c s"] Cons at S nr show ?thesis
        by (subst class_loop.simps) (auto simp: at_simps)
    qed
  qed
qed

subsection \<open>One character\<close>

lemma match_one_spec:
  assumes "parse_glob nocase (c # p) = Some ts" "c \<noteq> 42" "at P i (c # p)" "at S j (s # ss)" "slen \<noteq> 0"
  shows "\<exists>T r ts' k. ts = One T # ts' \<and> parse_glob nocase r = Some ts' \<and> length r \<le> length p \<and> at P (Suc k) r \<and>
    match_one nocase P S c i (int (length p) + 1) j slen =
      Some (if T s then Inr (k, int (length r) + 1, Suc j, slen - 1) else Inl False)"
proof -
  note S = at_rd0 [OF assms(4), simplified] at_adv [OF assms(4)]
  note P = assms(3) at_Cons [OF assms(3)]
  consider (any) "c = 63" | (cls) "c = 91" | (esc) d q where "c = 92" "p = d # q"
    | (lit) "c \<noteq> 63" "c \<noteq> 91" "c = 92 \<longrightarrow> p = []"
    using assms(2) by (cases p) auto
  then show ?thesis
  proof cases
    case any
    then show ?thesis using assms P S by (auto simp: parse_glob.simps match_one_def)
  next
    case cls
    define neg where "neg = (p \<noteq> [] \<and> hd p = 94)"
    define q where "q = (if neg then tl p else p)"
    define i' where "i' = (if neg then Suc (Suc i) else Suc i)"
    obtain T r ts' where T: "class_spec nocase q = Some (T, r)" "parse_glob nocase r = Some ts'"
      "ts = One (\<lambda>s. T s \<noteq> neg) # ts'"
      using assms(1) cls unfolding parse_glob.simps Let_def neg_def [symmetric] q_def [symmetric]
      by (auto split: option.splits)
    have q: "at P i' q" "length q \<le> length p" "int (length q) = int (length p) - (if neg then 1 else 0)"
      using P at_Cons [of P "Suc i" "hd p" "tl p"] by (cases p; simp add: q_def i'_def neg_def)+
    have i'_pos: "0 < i'" by (simp add: i'_def)
    obtain k where k: "class_loop nocase P S j i' (int (length q)) False = Some (k, int (length r) + 1, T s)" "at P (Suc k) r"
      using class_loop_spec [OF T(1) q(1) _ assms(4), of False] i'_pos by auto
    have hd: "(hd (p @ [0]) = 94) = neg" by (cases p) (simp_all add: neg_def)
    have "match_one nocase P S c i (int (length p) + 1) j slen =
      Some (if T s \<noteq> neg then Inr (k, int (length r) + 1, Suc j, slen - 1) else Inl False)"
      using k q(3) P S cls at_adv [OF P(2)]
      unfolding match_one_def by (simp add: at_simps hd i'_def split: if_splits)
    with T k q class_spec_length [OF T(1)] show ?thesis by auto
  next
    case esc
    then obtain z where z: "parse_glob nocase q = Some z" "ts = One (ch_eq nocase d) # z"
      using assms(1) by (auto simp: parse_glob.simps)
    with esc assms P S at_Cons [of P "Suc i" d q] show ?thesis
      by (intro exI [of _ "ch_eq nocase d"] exI [of _ q] exI [of _ z] exI [of _ "Suc i"])
        (auto simp: match_one_def at_simps)
  next
    case lit
    then obtain z where z: "parse_glob nocase p = Some z" "ts = One (ch_eq nocase c) # z"
      using assms(1,2) by (auto simp: parse_glob.simps)
    with lit assms P S show ?thesis
      by (intro exI [of _ "ch_eq nocase c"] exI [of _ p] exI [of _ z] exI [of _ i])
        (auto simp: match_one_def at_simps)
  qed
qed

subsection \<open>Stars\<close>

lemma skip_stars_spec:
  "at P i (42 # p) \<Longrightarrow> \<exists>n q. p = replicate n 42 @ q \<and> (q \<noteq> [] \<longrightarrow> hd q \<noteq> 42) \<and> at P (i + n) (42 # q) \<and>
    skip_stars P i (int (length p) + 1) = Some (i + n, int (length q) + 1)"
proof (induction p arbitrary: i)
  case Nil
  then show ?case by (intro exI [of _ 0]) (subst skip_stars.simps, simp add: at_simps)
next
  case (Cons c p)
  show ?case
  proof (cases "c = 42")
    case True
    from Cons.IH [of "Suc i"] Cons.prems True at_Cons obtain n q where
      "p = replicate n 42 @ q" "q \<noteq> [] \<longrightarrow> hd q \<noteq> 42" "at P (Suc i + n) (42 # q)"
      "skip_stars P (Suc i) (int (length p) + 1) = Some (Suc i + n, int (length q) + 1)" by blast
    then show ?thesis using True Cons.prems
      by (intro exI [of _ "Suc n"] exI [of _ q]) (subst skip_stars.simps, simp add: at_simps add.commute)
  next
    case False
    then show ?thesis using Cons.prems
      by (intro exI [of _ 0]) (subst skip_stars.simps, simp add: at_simps)
  qed
qed

lemma skip_trailing_spec:
  "at P i p \<Longrightarrow> parse_glob nocase p = Some ts \<Longrightarrow>
    map_option (\<lambda>plen. plen = 0) (skip_trailing P i (int (length p))) = Some (tok_match ts [])"
proof (induction p arbitrary: i ts)
  case Nil
  then show ?case by (subst skip_trailing.simps) (auto simp: at_simps parse_glob.simps)
next
  case (Cons c p)
  show ?case
  proof (cases "c = 42")
    case True
    then show ?thesis using Cons.prems Cons.IH [of "Suc i"] at_Cons [OF Cons.prems(1)]
      by (subst skip_trailing.simps) (auto simp: at_simps parse_glob.simps)
  next
    case False
    then have "\<exists>T ts'. ts = One T # ts'"
      using Cons.prems(2) by (auto simp: parse_glob.simps Let_def split: if_splits option.splits)
    then show ?thesis using Cons.prems False
      by (subst skip_trailing.simps) (auto simp: at_simps)
  qed
qed

lemma tok_match_Star_Star: "tok_match (Star # Star # ts) s = tok_match (Star # ts) s"
  by (induction s) auto

lemma parse_stars:
  "parse_glob nocase (replicate n 42 @ q) = Some ts \<Longrightarrow>
    \<exists>tq. parse_glob nocase q = Some tq \<and> (\<forall>s. tok_match (Star # ts) s = tok_match (Star # tq) s)"
proof (induction n arbitrary: ts)
  case (Suc n)
  then obtain ts' where "parse_glob nocase (replicate n 42 @ q) = Some ts'" "ts = Star # ts'"
    by (auto simp: parse_glob.simps)
  with Suc.IH show ?case by (auto simp: tok_match_Star_Star)
qed simp

subsection \<open>Correctness\<close>

lemma star_loop_spec:
  assumes "\<And>s j. at S j s \<Longrightarrow> s \<noteq> [] \<Longrightarrow>
      match_at nocase P S (Suc i) (int (length q)) j (int (length s)) = Some (tok_match tq s)"
    "i < length P" "at S j s" "\<not> tok_match tq []"
  shows "star_loop nocase P S i (int (length q) + 1) j (int (length s)) = Some (tok_match (Star # tq) s)"
  using assms(3)
proof (induction s arbitrary: j)
  case Nil
  then show ?case using assms(4) by (subst star_loop.simps) simp
next
  case (Cons c s)
  have "match_at nocase P S (Suc i) (int (length q)) j (int (length (c # s))) = Some (tok_match tq (c # s))"
    using assms(1) [OF Cons.prems] by simp
  with Cons.IH [OF at_Cons [OF Cons.prems]] at_adv [OF Cons.prems] assms(2) show ?case
    by (subst star_loop.simps) (auto simp: adv_def)
qed

lemma parse_One:
  "parse_glob nocase (c # p) = Some ts \<Longrightarrow> c \<noteq> 42 \<Longrightarrow> \<not> tok_match ts []"
  by (auto simp: parse_glob.simps Let_def split: if_splits option.splits)

lemma match_at_spec:
  assumes "parse_glob nocase p = Some ts" "at P i p" "at S j s" "s \<noteq> []"
  shows "match_at nocase P S i (int (length p)) j (int (length s)) = Some (tok_match ts s)"
  using assms
proof (induction "length p" arbitrary: p i ts s j rule: less_induct)
  case less
  show ?case
  proof (cases p)
    case Nil
    with less.prems show ?thesis by (subst match_at.simps) (auto simp: parse_glob.simps)
  next
    case (Cons c p')
    note at = less.prems(2) [unfolded Cons]
    show ?thesis
    proof (cases "c = 42")
      case True
      obtain n q where q: "p' = replicate n 42 @ q" "q \<noteq> [] \<longrightarrow> hd q \<noteq> 42" "at P (i + n) (42 # q)"
        "skip_stars P i (int (length p') + 1) = Some (i + n, int (length q) + 1)"
        using skip_stars_spec [of P i p'] at True by blast
      obtain ts' where ts': "parse_glob nocase p' = Some ts'" "ts = Star # ts'"
        using less.prems(1) Cons True by (auto simp: parse_glob.simps)
      then obtain tq where tq: "parse_glob nocase q = Some tq" "tok_match ts s = tok_match (Star # tq) s"
        using parse_stars [of nocase n q ts'] q(1) by auto
      have eq: "match_at nocase P S i (int (length p)) j (int (length s)) =
          (if q = [] then Some True else star_loop nocase P S (i + n) (int (length q) + 1) j (int (length s)))"
        using Cons True at q by (subst match_at.simps) (simp add: at_simps add.commute)
      show ?thesis
      proof (cases q)
        case Nil
        then have "tok_match (Star # tq) s" using tq(1) by (induction s) (auto simp: parse_glob.simps)
        with Nil eq tq show ?thesis by simp
      next
        case q': (Cons d q')
        have "star_loop nocase P S (i + n) (int (length q) + 1) j (int (length s)) = Some (tok_match (Star # tq) s)"
        proof (rule star_loop_spec [OF _ _ less.prems(3)])
          show "\<not> tok_match tq []" using parse_One [of nocase d q' tq] q' q(2) tq(1) by simp
          show "i + n < length P" using at_length [OF q(3)] by simp
          fix s j assume "at S j s" "s \<noteq> []"
          with less.hyps [of q tq "Suc (i + n)" j s] q tq(1) Cons at_Cons [OF q(3)]
          show "match_at nocase P S (Suc (i + n)) (int (length q)) j (int (length s)) = Some (tok_match tq s)"
            by simp
        qed
        with eq q' tq(2) show ?thesis by simp
      qed
    next
      case False
      obtain s0 ss where s: "s = s0 # ss" using less.prems(4) by (cases s) auto
      obtain T r ts' k where T: "ts = One T # ts'" "parse_glob nocase r = Some ts'" "length r \<le> length p'"
        "at P (Suc k) r" "match_one nocase P S c i (int (length p') + 1) j (int (length s)) =
          Some (if T s0 then Inr (k, int (length r) + 1, Suc j, int (length s) - 1) else Inl False)"
        using match_one_spec [OF less.prems(1) [unfolded Cons] False at less.prems(3) [unfolded s], of "int (length s)"] s
        by auto
      have adv: "adv P k = Some (Suc k)" using at_length [OF T(4)] by (simp add: adv_def)
      have tl: "match_at nocase P S (Suc k) (int (length r)) (Suc j) (int (length ss)) = Some (tok_match ts' ss)" if "ss \<noteq> []"
        using less.hyps [of r ts' "Suc k" "Suc j" ss] T Cons s that at_Cons [of S j s0 ss] less.prems(3) by simp
      have st: "map_option (\<lambda>plen. plen = 0) (skip_trailing P (Suc k) (int (length r))) = Some (tok_match ts' [])"
        by (rule skip_trailing_spec [OF T(4,2)])
      show ?thesis
        using T Cons False at s adv tl st
        by (subst match_at.simps) (auto simp: at_simps add.commute map_option_case split: option.splits)
    qed
  qed
qed

text \<open>An empty string: the first pattern character is compared with the terminator.\<close>

lemma ch_eq_0: "c \<noteq> 0 \<Longrightarrow> \<not> ch_eq nocase c 0"
proof -
  assume "c \<noteq> 0"
  then have "sint c \<noteq> 0" by (metis signed_word_inverse of_int_0)
  then show ?thesis using \<open>c \<noteq> 0\<close> by (auto simp: ch_eq_def tolower_int_def)
qed

lemma match_at_empty:
  assumes "parse_glob nocase p = Some ts" "at P i p" "at S j []" "0 \<notin> set p" "p \<noteq> [] \<longrightarrow> hd p \<noteq> 91"
  shows "match_at nocase P S i (int (length p)) j 0 = Some (tok_match ts [])"
proof (cases p)
  case Nil
  with assms show ?thesis by (subst match_at.simps) (auto simp: parse_glob.simps)
next
  case (Cons c p')
  note at = assms(2) [unfolded Cons]
  show ?thesis
  proof (cases "c = 42")
    case True
    obtain n q where q: "p' = replicate n 42 @ q" "q \<noteq> [] \<longrightarrow> hd q \<noteq> 42"
      "skip_stars P i (int (length p') + 1) = Some (i + n, int (length q) + 1)"
      using skip_stars_spec [of P i p'] at True by blast
    obtain ts' where ts': "parse_glob nocase p' = Some ts'" "ts = Star # ts'"
      using assms(1) Cons True by (auto simp: parse_glob.simps)
    then obtain tq where tq: "parse_glob nocase q = Some tq" "tok_match ts [] = tok_match tq []"
      using parse_stars [of nocase n q ts'] q(1) by (metis tok_match.simps(2))
    have "match_at nocase P S i (int (length p)) j 0 = Some (q = [])"
      using Cons True at q by (subst match_at.simps) (simp add: at_simps add.commute star_loop.simps)
    moreover have "tok_match tq [] \<longleftrightarrow> q = []"
      using parse_One [of nocase "hd q" "tl q" tq] tq(1) q(2) by (cases q) (auto simp: parse_glob.simps)
    ultimately show ?thesis using tq(2) by simp
  next
    case False
    have z: "rd S (int j) = Some 0" using at_rd0 [OF assms(3)] by simp
    have "match_one nocase P S c i (int (length p)) j 0 = Some (Inl False)"
      using assms(4,5) Cons at z ch_eq_0 at_Cons [OF at]
      by (cases p') (auto simp: match_one_def at_simps)
    then show ?thesis using parse_One [OF assms(1) [unfolded Cons] False] Cons False at
      by (subst match_at.simps) (simp add: at_simps)
  qed
qed

lemma at_0: "at (p @ [0]) 0 p"
  by (simp add: at_def)

subsection \<open>Guarantees\<close>




end
