(* ===== verification/Endian.thy ===== *)
theory Endian
  imports Prelude
begin

text \<open>
  Integers in memory. A little-endian host is assumed throughout (the \<open>...ifbe\<close> macros of
  \<open>src/endianconv.h\<close> are then empty). \<open>le_bytes n v\<close> are the \<open>n\<close> bytes a store of \<open>v\<close> leaves,
  \<open>le_val\<close> and \<open>le_sval\<close> what an unsigned and a signed load read back. The byte reversals of
  \<open>src/endianconv.c\<close> work on a buffer at an offset.
\<close>

subsection \<open>Little-endian loads and stores\<close>

primrec le_bytes :: "nat \<Rightarrow> int \<Rightarrow> bytes" where
  "le_bytes 0 v = []"
| "le_bytes (Suc n) v = word_of_int v # le_bytes n (v div 256)"

primrec le_val :: "bytes \<Rightarrow> nat" where
  "le_val [] = 0"
| "le_val (b # bs) = unat b + 256 * le_val bs"

definition le_sval :: "bytes \<Rightarrow> int" where
  "le_sval bs = signed_take_bit (8 * length bs - 1) (int (le_val bs))"

lemma length_le_bytes [simp]: "length (le_bytes n v) = n"
  by (induction n arbitrary: v) simp_all

lemma uint_word_of_int_u8: "int (unat (word_of_int v :: u8)) = v mod 256"
  by (simp add: uint_word_of_int)

lemma le_val_le_bytes: "int (le_val (le_bytes n v)) = v mod 256 ^ n"
proof (induction n arbitrary: v)
  case (Suc n)
  have "v mod (256 * 256 ^ n) = 256 * (v div 256 mod 256 ^ n) + v mod 256"
    by (rule zmod_zmult2_eq) simp
  then show ?case using Suc.IH [of "v div 256"] uint_word_of_int_u8 [of v]
    by (simp del: of_nat_unat)
qed simp

lemma le_val_less: "le_val bs < 256 ^ length bs"
proof (induction bs)
  case (Cons b bs)
  have "unat b < 256" using unsigned_less [of b] by simp
  with Cons show ?case by simp
qed simp

lemma le_bytes_le_val: "le_bytes (length bs) (int (le_val bs)) = bs"
proof (induction bs)
  case (Cons b bs)
  have b: "uint b < 256" using uint_lt2p [of b] by simp
  then have "(int (le_val (b # bs))) div 256 = int (le_val bs)" by simp
  moreover have "(word_of_int (uint b + 256 * int (le_val bs)) :: u8) = b"
  proof -
    have "uint (word_of_int (uint b + 256 * int (le_val bs)) :: u8) = uint b"
      using b by (simp only: uint_word_of_int) simp
    then show ?thesis by (simp only: word_unat_eq_iff unat_eq_nat_uint)
  qed
  ultimately show ?case using Cons.IH by simp
qed simp

lemma pow_256: "(256 :: int) ^ n = 2 ^ (8 * n)"
  by (simp add: power_mult)

lemma le_sval_le_bytes:
  assumes "- (2 ^ (8 * n - 1)) \<le> v" "v < 2 ^ (8 * n - 1)" "0 < n"
  shows "le_sval (le_bytes n v) = v"
proof -
  have "le_sval (le_bytes n v) = signed_take_bit (8 * n - 1) (take_bit (8 * n) v)"
    by (simp add: le_sval_def le_val_le_bytes pow_256 take_bit_eq_mod)
  also have "\<dots> = signed_take_bit (8 * n - 1) v"
    using assms(3) by (simp add: signed_take_bit_take_bit) linarith
  also have "\<dots> = v" using assms by (intro signed_take_bit_int_eq_self) simp_all
  finally show ?thesis .
qed

subsection \<open>Byte reversal\<close>

definition swap_at :: "bytes \<Rightarrow> nat \<Rightarrow> nat \<Rightarrow> bytes option" where
  "swap_at x i j = do {
     t \<leftarrow> rd x (int i);
     u \<leftarrow> rd x (int j);
     x \<leftarrow> wr x (int i) u;
     wr x (int j) t }"

definition memrev16 :: "bytes \<Rightarrow> nat \<Rightarrow> bytes option" where
  "memrev16 x p = swap_at x p (p + 1)"

definition memrev32 :: "bytes \<Rightarrow> nat \<Rightarrow> bytes option" where
  "memrev32 x p = do { x \<leftarrow> swap_at x p (p + 3); swap_at x (p + 1) (p + 2) }"

definition memrev64 :: "bytes \<Rightarrow> nat \<Rightarrow> bytes option" where
  "memrev64 x p = do {
     x \<leftarrow> swap_at x p (p + 7);
     x \<leftarrow> swap_at x (p + 1) (p + 6);
     x \<leftarrow> swap_at x (p + 2) (p + 5);
     swap_at x (p + 3) (p + 4) }"

definition intrev16 :: "u16 \<Rightarrow> u16 option" where
  "intrev16 v = map_option (\<lambda>bs. word_of_nat (le_val bs)) (memrev16 (le_bytes 2 (uint v)) 0)"

definition intrev32 :: "u32 \<Rightarrow> u32 option" where
  "intrev32 v = map_option (\<lambda>bs. word_of_nat (le_val bs)) (memrev32 (le_bytes 4 (uint v)) 0)"

definition intrev64 :: "u64 \<Rightarrow> u64 option" where
  "intrev64 v = map_option (\<lambda>bs. word_of_nat (le_val bs)) (memrev64 (le_bytes 8 (uint v)) 0)"

lemma swap_at_Some:
  "i < length x \<Longrightarrow> j < length x \<Longrightarrow> swap_at x i j = Some (x[i := x ! j, j := x ! i])"
  by (simp add: swap_at_def)

lemma memrev64_rev: "length x = 8 \<Longrightarrow> memrev64 x 0 = Some (rev x)"
  by (auto simp: memrev64_def swap_at_Some length_Suc_conv numeral_nat)

lemma memrev32_rev: "length x = 4 \<Longrightarrow> memrev32 x 0 = Some (rev x)"
  by (auto simp: memrev32_def swap_at_Some length_Suc_conv numeral_nat)

lemma memrev16_rev: "length x = 2 \<Longrightarrow> memrev16 x 0 = Some (rev x)"
  by (auto simp: memrev16_def swap_at_Some length_Suc_conv numeral_nat)

lemma word_of_le_val:
  assumes "length bs * 8 = LENGTH('a :: len)"
  shows "le_bytes (length bs) (uint (word_of_nat (le_val bs) :: 'a word)) = bs"
proof -
  have "uint (word_of_nat (le_val bs) :: 'a word) = int (le_val bs)"
  proof -
    have "(256 :: nat) ^ length bs = 2 ^ LENGTH('a)"
      using power_mult [of "2 :: nat" 8 "length bs"] assms by (simp add: mult.commute)
    then show ?thesis using le_val_less [of bs] by (simp add: unsigned_of_nat take_bit_nat_eq_self)
  qed
  then show ?thesis by (simp add: le_bytes_le_val)
qed

lemma word_of_le_bytes:
  assumes "n * 8 = LENGTH('a :: len)"
  shows "word_of_nat (le_val (le_bytes n (uint v))) = (v :: 'a word)"
proof -
  have "(256 :: int) ^ n = 2 ^ LENGTH('a)" using pow_256 [of n] assms by (simp add: mult.commute)
  then have "int (le_val (le_bytes n (uint v))) = uint v"
    by (simp add: le_val_le_bytes uint_lt2p)
  then have "(word_of_int (int (le_val (le_bytes n (uint v)))) :: 'a word) = v" by simp
  then show ?thesis by simp
qed

lemmas intrev_defs = intrev16_def intrev32_def intrev64_def
lemmas memrev_revs = memrev16_rev memrev32_rev memrev64_rev

lemma rev_bytes_twice:
  assumes "n * 8 = LENGTH('a :: len)"
  shows "le_bytes n (uint (word_of_nat (le_val (rev (le_bytes n (uint v)))) :: 'a word)) = rev (le_bytes n (uint (v :: 'a word)))"
  using word_of_le_val [of "rev (le_bytes n (uint v))", where 'a = 'a] assms by simp


end
