(* ===== verification/Set_Store.thy ===== *)
theory Set_Store
  imports Prelude
begin

text \<open>
  The contract of a container of distinct elements, as the set commands use it: \<open>elems\<close> is the
  set it holds, \<open>len\<close> the number it reports, \<open>cap\<close> the number it is safe to hold, \<open>valid\<close> the
  elements it can store. Adding and removing report whether they changed the set. \<open>None\<close> is a
  memory error. The client lemma says that any sequence of commands runs without one and has the
  effect of the same sequence on a mathematical set.
\<close>

datatype 'a set_op = Op_add 'a | Op_remove 'a

fun op_value :: "'a set_op \<Rightarrow> 'a" where
  "op_value (Op_add x) = x"
| "op_value (Op_remove x) = x"

fun run_set_ops ::
  "('s \<Rightarrow> 'a \<Rightarrow> ('s \<times> bool) option) \<Rightarrow> ('s \<Rightarrow> 'a \<Rightarrow> ('s \<times> bool) option) \<Rightarrow> 's \<Rightarrow> 'a set_op list \<Rightarrow>
   ('s \<times> bool list) option" where
  "run_set_ops add remove s [] = Some (s, [])"
| "run_set_ops add remove s (c # cs) = do {
     (s, b) \<leftarrow> (case c of Op_add x \<Rightarrow> add s x | Op_remove x \<Rightarrow> remove s x);
     (s, bs) \<leftarrow> run_set_ops add remove s cs;
     Some (s, b # bs) }"

text \<open>The same commands on a mathematical set, with their replies.\<close>

fun set_ops_spec :: "'a set \<Rightarrow> 'a set_op list \<Rightarrow> 'a set \<times> bool list" where
  "set_ops_spec A [] = (A, [])"
| "set_ops_spec A (Op_add x # cs) = (case set_ops_spec (insert x A) cs of (B, bs) \<Rightarrow> (B, (x \<notin> A) # bs))"
| "set_ops_spec A (Op_remove x # cs) = (case set_ops_spec (A - {x}) cs of (B, bs) \<Rightarrow> (B, (x \<in> A) # bs))"

locale set_store =
  fixes inv :: "'s \<Rightarrow> bool" and elems :: "'s \<Rightarrow> 'a set" and len :: "'s \<Rightarrow> nat" and cap :: nat
    and valid :: "'a \<Rightarrow> bool"
    and add :: "'s \<Rightarrow> 'a \<Rightarrow> ('s \<times> bool) option" and remove :: "'s \<Rightarrow> 'a \<Rightarrow> ('s \<times> bool) option"
    and find :: "'s \<Rightarrow> 'a \<Rightarrow> bool option"
  assumes len_card: "inv s \<Longrightarrow> finite (elems s) \<and> len s = card (elems s)"
    and add_law: "inv s \<Longrightarrow> valid x \<Longrightarrow> len s < cap \<Longrightarrow>
      \<exists>s'. add s x = Some (s', x \<notin> elems s) \<and> inv s' \<and> elems s' = insert x (elems s)"
    and remove_law: "inv s \<Longrightarrow> valid x \<Longrightarrow> len s \<le> cap \<Longrightarrow>
      \<exists>s'. remove s x = Some (s', x \<in> elems s) \<and> inv s' \<and> elems s' = elems s - {x}"
    and find_law: "inv s \<Longrightarrow> valid x \<Longrightarrow> find s x = Some (x \<in> elems s)"
begin

lemma len_insert: "inv s \<Longrightarrow> inv s' \<Longrightarrow> elems s' = insert x (elems s) \<Longrightarrow> len s' \<le> Suc (len s)"
  using len_card [of s] len_card [of s'] by (simp add: card_insert_if)

lemma len_delete: "inv s \<Longrightarrow> inv s' \<Longrightarrow> elems s' = elems s - {x} \<Longrightarrow> len s' \<le> len s"
  using len_card [of s] len_card [of s'] by (simp add: card_Diff1_le)

lemma run_ops:
  assumes "inv s" "\<forall>c \<in> set cs. valid (op_value c)" "len s + length cs \<le> cap"
  shows "\<exists>s'. run_set_ops add remove s cs = Some (s', snd (set_ops_spec (elems s) cs)) \<and> inv s' \<and>
    elems s' = fst (set_ops_spec (elems s) cs)"
  using assms
proof (induction cs arbitrary: s)
  case (Cons c cs)
  have "\<exists>s1 b. (case c of Op_add x \<Rightarrow> add s x | Op_remove x \<Rightarrow> remove s x) = Some (s1, b) \<and> inv s1 \<and>
      len s1 \<le> Suc (len s) \<and>
      set_ops_spec (elems s) (c # cs) = (fst (set_ops_spec (elems s1) cs), b # snd (set_ops_spec (elems s1) cs))"
  proof (cases c)
    case (Op_add x)
    with add_law [of s x] Cons.prems obtain s1 where "add s x = Some (s1, x \<notin> elems s)" "inv s1"
      "elems s1 = insert x (elems s)" by auto
    with Op_add Cons.prems(1) len_insert show ?thesis by (auto split: prod.splits)
  next
    case (Op_remove x)
    with remove_law [of s x] Cons.prems obtain s1 where "remove s x = Some (s1, x \<in> elems s)" "inv s1"
      "elems s1 = elems s - {x}" by auto
    with Op_remove Cons.prems(1) len_delete [of s s1 x] show ?thesis by (auto split: prod.splits)
  qed
  then obtain s1 b where s1: "(case c of Op_add x \<Rightarrow> add s x | Op_remove x \<Rightarrow> remove s x) = Some (s1, b)" "inv s1"
    "len s1 \<le> Suc (len s)"
    "set_ops_spec (elems s) (c # cs) = (fst (set_ops_spec (elems s1) cs), b # snd (set_ops_spec (elems s1) cs))"
    by blast
  with Cons.IH [of s1] Cons.prems obtain s' where
    "run_set_ops add remove s1 cs = Some (s', snd (set_ops_spec (elems s1) cs))" "inv s'"
    "elems s' = fst (set_ops_spec (elems s1) cs)" by auto
  with s1 show ?case by simp
qed simp

lemma find_after_add:
  assumes "inv s" "valid x" "valid y" "len s < cap" "add s x = Some (s', b)"
  shows "find s' y = Some (y = x \<or> y \<in> elems s)"
  using add_law [OF assms(1,2,4)] find_law [of s' y] assms(3,5) by auto

end

end
