(* ===== verification/Intset.thy ===== *)
theory Intset
  imports Endian Set_Store
begin

text \<open>
  Sets of integers in one block of memory (\<open>src/intset.c\<close>): a sorted array of 16, 32 or 64 bit
  integers, searched by bisection and widened in place when a larger integer arrives. The field
  \<open>contents\<close> is the byte array behind the header. Operations that read or write outside of it
  return \<open>None\<close>; \<open>junk\<close> gives the bytes a grown block holds at first, and \<open>zrealloc\<close> itself is
  taken to succeed, as it aborts the process otherwise.
\<close>

subsection \<open>Definitions\<close>

definition INTSET_ENC_INT16 :: nat where "INTSET_ENC_INT16 = 2"
definition INTSET_ENC_INT32 :: nat where "INTSET_ENC_INT32 = 4"
definition INTSET_ENC_INT64 :: nat where "INTSET_ENC_INT64 = 8"

lemmas intset_encs [simp] = INTSET_ENC_INT16_def INTSET_ENC_INT32_def INTSET_ENC_INT64_def

record intset =
  encoding :: nat
  is_length :: nat
  contents :: bytes

definition intsetValueEncoding :: "int \<Rightarrow> nat" where
  "intsetValueEncoding v =
     (if v < - (2 ^ 31) \<or> v > 2 ^ 31 - 1 then INTSET_ENC_INT64
      else if v < - (2 ^ 15) \<or> v > 2 ^ 15 - 1 then INTSET_ENC_INT32
      else INTSET_ENC_INT16)"

definition intsetGetEncoded :: "intset \<Rightarrow> nat \<Rightarrow> nat \<Rightarrow> int option" where
  "intsetGetEncoded is pos enc =
     (if enc = INTSET_ENC_INT64 then map_option le_sval (rdn (contents is) (pos * 8) 8)
      else if enc = INTSET_ENC_INT32 then map_option le_sval (rdn (contents is) (pos * 4) 4)
      else map_option le_sval (rdn (contents is) (pos * 2) 2))"

definition intsetGet_at :: "intset \<Rightarrow> nat \<Rightarrow> int option" where
  "intsetGet_at is pos = intsetGetEncoded is pos (encoding is)"

definition intsetSet :: "intset \<Rightarrow> nat \<Rightarrow> int \<Rightarrow> intset option" where
  "intsetSet is pos v =
     (if encoding is = INTSET_ENC_INT64 then
        map_option (\<lambda>c. is\<lparr>contents := c\<rparr>) (wrn (contents is) (pos * 8) (le_bytes 8 v))
      else if encoding is = INTSET_ENC_INT32 then
        map_option (\<lambda>c. is\<lparr>contents := c\<rparr>) (wrn (contents is) (pos * 4) (le_bytes 4 v))
      else
        map_option (\<lambda>c. is\<lparr>contents := c\<rparr>) (wrn (contents is) (pos * 2) (le_bytes 2 v)))"

definition intsetNew :: intset where
  "intsetNew = \<lparr>encoding = INTSET_ENC_INT16, is_length = 0, contents = []\<rparr>"

text \<open>\<open>uint32_t size = len*encoding\<close> wraps.\<close>

definition intsetResize :: "(nat \<Rightarrow> u8) \<Rightarrow> intset \<Rightarrow> nat \<Rightarrow> intset" where
  "intsetResize junk is len =
     (let sz = (len * encoding is) mod 2 ^ 32
      in is\<lparr>contents := take sz (contents is) @ map junk [length (contents is)..<sz]\<rparr>)"

text \<open>
  The bisection. \<open>min\<close> and \<open>max\<close> are non-negative \<open>int\<close>s, so their sum as \<open>unsigned int\<close> does not
  wrap. The result is the final \<open>min\<close>, \<open>mid\<close> and \<open>cur\<close>.
\<close>

function search_loop :: "intset \<Rightarrow> int \<Rightarrow> int \<Rightarrow> int \<Rightarrow> int \<Rightarrow> int \<Rightarrow> (int \<times> int \<times> int) option" where
  "search_loop is v mn mx mid cur =
     (if mx \<ge> mn then
        let mid = (mn + mx) div 2 in
        case intsetGet_at is (nat mid) of
          None \<Rightarrow> None
        | Some cur \<Rightarrow>
            if v > cur then search_loop is v (mid + 1) mx mid cur
            else if v < cur then search_loop is v mn (mid - 1) mid cur
            else Some (mn, mid, cur)
      else Some (mn, mid, cur))"
  by pat_completeness auto
termination
  by (relation "measure (\<lambda>(is, v, mn, mx, mid, cur). nat (mx - mn + 1))") auto

declare search_loop.simps [simp del]

definition intsetSearch :: "intset \<Rightarrow> int \<Rightarrow> (bool \<times> nat) option" where
  "intsetSearch is v =
     (if is_length is = 0 then Some (False, 0)
      else do {
        lst \<leftarrow> intsetGet_at is (is_length is - 1);
        if v > lst then Some (False, is_length is)
        else do {
          fst1 \<leftarrow> intsetGet_at is 0;
          if v < fst1 then Some (False, 0)
          else do {
            (mn, mid, cur) \<leftarrow> search_loop is v 0 (int (is_length is) - 1) (-1) (-1);
            if v = cur then Some (True, nat mid) else Some (False, nat mn) } } })"

text \<open>\<open>while(length--) _intsetSet(is,length+prepend,_intsetGetEncoded(is,length,curenc));\<close>\<close>

fun upgrade_loop :: "intset \<Rightarrow> nat \<Rightarrow> nat \<Rightarrow> nat \<Rightarrow> intset option" where
  "upgrade_loop is 0 prepend curenc = Some is"
| "upgrade_loop is (Suc len) prepend curenc = do {
     v \<leftarrow> intsetGetEncoded is len curenc;
     is \<leftarrow> intsetSet is (len + prepend) v;
     upgrade_loop is len prepend curenc }"

definition intsetUpgradeAndAdd :: "(nat \<Rightarrow> u8) \<Rightarrow> intset \<Rightarrow> int \<Rightarrow> intset option" where
  "intsetUpgradeAndAdd junk is v =
     (let curenc = encoding is;
          newenc = intsetValueEncoding v;
          len = is_length is;
          prepend = (if v < 0 then 1 else 0);
          is = is\<lparr>encoding := newenc\<rparr>;
          is = intsetResize junk is (is_length is + 1)
      in do {
        is \<leftarrow> upgrade_loop is len prepend curenc;
        is \<leftarrow> (if prepend = 1 then intsetSet is 0 v else intsetSet is (is_length is) v);
        Some (is\<lparr>is_length := is_length is + 1\<rparr>) })"

definition intsetMoveTail :: "intset \<Rightarrow> nat \<Rightarrow> nat \<Rightarrow> intset option" where
  "intsetMoveTail is from to =
     (let n = is_length is - from;
          sz = (if encoding is = INTSET_ENC_INT64 then 8
                else if encoding is = INTSET_ENC_INT32 then 4 else 2)
      in map_option (\<lambda>c. is\<lparr>contents := c\<rparr>) (memmove (contents is) (to * sz) (from * sz) (n * sz)))"

definition intsetAdd :: "(nat \<Rightarrow> u8) \<Rightarrow> intset \<Rightarrow> int \<Rightarrow> (intset \<times> bool) option" where
  "intsetAdd junk is v =
     (if intsetValueEncoding v > encoding is then
        map_option (\<lambda>is. (is, True)) (intsetUpgradeAndAdd junk is v)
      else do {
        (found, pos) \<leftarrow> intsetSearch is v;
        if found then Some (is, False)
        else do {
          let is = intsetResize junk is (is_length is + 1);
          is \<leftarrow> (if pos < is_length is then intsetMoveTail is pos (pos + 1) else Some is);
          is \<leftarrow> intsetSet is pos v;
          Some (is\<lparr>is_length := is_length is + 1\<rparr>, True) } })"

definition intsetRemove :: "(nat \<Rightarrow> u8) \<Rightarrow> intset \<Rightarrow> int \<Rightarrow> (intset \<times> bool) option" where
  "intsetRemove junk is v =
     (if intsetValueEncoding v \<le> encoding is then do {
        (found, pos) \<leftarrow> intsetSearch is v;
        if \<not> found then Some (is, False)
        else do {
          let len = is_length is;
          is \<leftarrow> (if pos < len - 1 then intsetMoveTail is (pos + 1) pos else Some is);
          let is = intsetResize junk is (len - 1);
          Some (is\<lparr>is_length := len - 1\<rparr>, True) } }
      else Some (is, False))"

definition intsetFind :: "intset \<Rightarrow> int \<Rightarrow> bool option" where
  "intsetFind is v =
     (if intsetValueEncoding v \<le> encoding is then map_option fst (intsetSearch is v) else Some False)"

text \<open>\<open>r\<close> is the result of \<open>rand()\<close>; the remainder by an empty set's length is a division by zero.\<close>

definition intsetRandom :: "nat \<Rightarrow> intset \<Rightarrow> int option" where
  "intsetRandom r is = (if is_length is = 0 then None else intsetGet_at is (r mod is_length is))"

text \<open>\<open>Some None\<close> is the return value 0.\<close>

definition intsetGet :: "intset \<Rightarrow> nat \<Rightarrow> int option option" where
  "intsetGet is pos = (if pos < is_length is then map_option Some (intsetGet_at is pos) else Some None)"

definition intsetLen :: "intset \<Rightarrow> nat" where
  "intsetLen is = is_length is"

definition intsetBlobLen :: "intset \<Rightarrow> nat" where
  "intsetBlobLen is = 8 + (is_length is * encoding is) mod 2 ^ 32"

subsection \<open>Slots\<close>

definition slot :: "nat \<Rightarrow> bytes \<Rightarrow> nat \<Rightarrow> bytes" where
  "slot e cs k = take e (drop (k * e) cs)"

lemma slot_bound: "k < n \<Longrightarrow> k * e + e \<le> n * (e :: nat)"
  by (metis Suc_leI add.commute mult_Suc mult_le_mono1)

lemma slot_put_same: "k * e + e \<le> length cs \<Longrightarrow> length bs = e \<Longrightarrow> slot e (put cs (k * e) bs) k = bs"
  using take_drop_put_same [of "k * e" bs cs] by (simp add: slot_def)

lemma slot_put_other:
  assumes "k * e + e \<le> length cs" "j * e + e \<le> length cs" "length bs = e" "j \<noteq> k"
  shows "slot e (put cs (k * e) bs) j = slot e cs j"
  unfolding slot_def
proof (rule take_drop_put_disjoint)
  show "j * e + e \<le> k * e \<or> k * e + length bs \<le> j * e"
    using assms(3,4) slot_bound [of j k e] slot_bound [of k j e] by (metis linorder_neqE_nat)
qed (use assms in simp_all)

lemma slot_put_block:
  assumes "t * e + n * e \<le> length cs" "f * e + n * e \<le> length cs" "j * e + e \<le> length cs"
  shows "slot e (put cs (t * e) (take (n * e) (drop (f * e) cs))) j =
    (if t \<le> j \<and> j < t + n then slot e cs (j - t + f) else slot e cs j)"
proof (cases "t \<le> j \<and> j < t + n")
  case True
  then obtain d where d: "j = t + d" "d < n" by (metis le_iff_add add_less_cancel_left)
  have "d * e + e \<le> n * e" using slot_bound [OF d(2)] .
  then show ?thesis using True d assms unfolding slot_def
    by (intro nth_equalityI) (auto simp: nth_put algebra_simps)
next
  case False
  then have "j * e + e \<le> t * e \<or> t * e + n * e \<le> j * e"
    using slot_bound [of j t e] by (metis add_mult_distrib mult_le_mono1 not_less)
  then show ?thesis using False assms unfolding slot_def
    by (subst take_drop_put_disjoint) auto
qed

lemma slot_resize: "k * e + e \<le> sz \<Longrightarrow> k * e + e \<le> length cs \<Longrightarrow> slot e (take sz cs @ zs) k = slot e cs k"
  by (intro nth_equalityI) (auto simp: slot_def nth_append)

subsection \<open>Representation\<close>

definition fits :: "nat \<Rightarrow> int \<Rightarrow> bool" where
  "fits e v \<longleftrightarrow> - (2 ^ (8 * e - 1)) \<le> v \<and> v < 2 ^ (8 * e - 1)"

definition is_enc :: "nat \<Rightarrow> bool" where
  "is_enc e \<longleftrightarrow> e = 2 \<or> e = 4 \<or> e = 8"

text \<open>The block holds the integers \<open>xs\<close>, in this order.\<close>

definition rep :: "intset \<Rightarrow> int list \<Rightarrow> bool" where
  "rep is xs \<longleftrightarrow> is_enc (encoding is) \<and> is_length is = length xs \<and>
     length (contents is) = length xs * encoding is \<and>
     (\<forall>k < length xs. slot (encoding is) (contents is) k = le_bytes (encoding is) (xs ! k)) \<and>
     (\<forall>x \<in> set xs. fits (encoding is) x)"

lemma fits_encoding: "fits 8 v \<Longrightarrow> fits (intsetValueEncoding v) v"
  by (auto simp: fits_def intsetValueEncoding_def)

lemma is_enc_value [simp]: "is_enc (intsetValueEncoding v)"
  by (simp add: is_enc_def intsetValueEncoding_def)

lemma fits_le: "is_enc e \<Longrightarrow> is_enc e' \<Longrightarrow> e \<le> e' \<Longrightarrow> fits e v \<Longrightarrow> fits e' v"
  by (auto simp: is_enc_def fits_def)

lemma fits_iff: "is_enc e \<Longrightarrow> fits 8 v \<Longrightarrow> fits e v \<longleftrightarrow> intsetValueEncoding v \<le> e"
  by (auto simp: is_enc_def fits_def intsetValueEncoding_def)

lemma get_slot:
  assumes "is_enc e" "k * e + e \<le> length (contents is)"
  shows "intsetGetEncoded is k e = Some (le_sval (slot e (contents is) k))"
  using assms by (auto simp: is_enc_def intsetGetEncoded_def rdn_def slot_def)

lemma get_value:
  assumes "is_enc e" "k * e + e \<le> length (contents is)" "slot e (contents is) k = le_bytes e v" "fits e v"
  shows "intsetGetEncoded is k e = Some v"
proof -
  have "0 < e" using assms(1) by (auto simp: is_enc_def)
  then show ?thesis using get_slot [OF assms(1,2)] assms(3,4) le_sval_le_bytes [of e v] by (simp add: fits_def)
qed

lemma set_slot:
  assumes "is_enc (encoding is)" "k * encoding is + encoding is \<le> length (contents is)"
  shows "intsetSet is k v =
    Some (is\<lparr>contents := put (contents is) (k * encoding is) (le_bytes (encoding is) v)\<rparr>)"
  using assms by (auto simp: is_enc_def intsetSet_def wrn_def)

lemma rep_get: "rep is xs \<Longrightarrow> k < length xs \<Longrightarrow> intsetGet_at is k = Some (xs ! k)"
  unfolding intsetGet_at_def
  by (rule get_value) (auto simp: rep_def slot_bound)

lemma rep_length: "rep is xs \<Longrightarrow> is_length is = length xs"
  by (simp add: rep_def)

subsection \<open>Bisection\<close>

lemma sorted_nth_le: "sorted_wrt (<) (xs :: int list) \<Longrightarrow> i \<le> j \<Longrightarrow> j < length xs \<Longrightarrow> xs ! i \<le> xs ! j"
  using sorted_wrt_nth_less [of "(<)" xs i j] by (cases "i = j") auto

lemma search_loop_spec:
  assumes "rep is xs" "sorted_wrt (<) xs"
    and "0 \<le> mn" "mx < int (length xs)" "mn \<le> mx + 1" "mn \<le> mx \<or> cur \<noteq> v"
    and "\<forall>i. int i < mn \<longrightarrow> xs ! i < v" "\<forall>i < length xs. mx < int i \<longrightarrow> v < xs ! i"
  shows "\<exists>mn' mid' cur'. search_loop is v mn mx mid cur = Some (mn', mid', cur') \<and>
      (if cur' = v then 0 \<le> mid' \<and> nat mid' < length xs \<and> xs ! nat mid' = v
       else 0 \<le> mn' \<and> mn' \<le> int (length xs) \<and>
         (\<forall>i < length xs. if int i < mn' then xs ! i < v else v < xs ! i))"
  using assms(3-)
proof (induction "nat (mx - mn + 1)" arbitrary: mn mx mid cur rule: less_induct)
  case less
  show ?case
  proof (cases "mn \<le> mx")
    case False
    with less.prems show ?thesis by (subst search_loop.simps) auto
  next
    case True
    define m where "m = (mn + mx) div 2"
    have m: "mn \<le> m" "m \<le> mx" "0 \<le> m" using True less.prems(1) by (auto simp: m_def)
    then have nm: "nat m < length xs" using less.prems(2) by linarith
    have g: "intsetGet_at is (nat m) = Some (xs ! nat m)" by (rule rep_get [OF assms(1) nm])
    have eq: "search_loop is v mn mx mid cur =
        (if v > xs ! nat m then search_loop is v (m + 1) mx m (xs ! nat m)
         else if v < xs ! nat m then search_loop is v mn (m - 1) m (xs ! nat m)
         else Some (mn, m, xs ! nat m))"
      using True g by (subst search_loop.simps) (simp add: m_def [symmetric])
    consider "v > xs ! nat m" | "v < xs ! nat m" | "v = xs ! nat m" by linarith
    then show ?thesis
    proof cases
      case 1
      have "xs ! i < v" if "int i < m + 1" for i
        using sorted_nth_le [OF assms(2), of i "nat m"] that nm 1 by linarith
      with less.hyps [of mx "m + 1" "xs ! nat m" m] less.prems 1 m show ?thesis unfolding eq by auto
    next
      case 2
      have "v < xs ! i" if "i < length xs" "m - 1 < int i" for i
        using sorted_nth_le [OF assms(2), of "nat m" i] that m(3) 2 by linarith
      then have "\<forall>i < length xs. m - 1 < int i \<longrightarrow> v < xs ! i" by blast
      moreover have "search_loop is v mn mx mid cur = search_loop is v mn (m - 1) m (xs ! nat m)"
        unfolding eq using 2 by simp
      ultimately show ?thesis using less.hyps [of "m - 1" mn "xs ! nat m" m] less.prems 2 m by simp
    next
      case 3
      with m nm show ?thesis unfolding eq by auto
    qed
  qed
qed

text \<open>The position found is the one of the value, or the one where it belongs.\<close>

lemma intsetSearch_spec:
  assumes "rep is xs" "sorted_wrt (<) xs"
  shows "\<exists>pos. intsetSearch is v = Some (v \<in> set xs, pos) \<and> pos \<le> length xs \<and>
    (if v \<in> set xs then pos < length xs \<and> xs ! pos = v
     else (\<forall>x \<in> set (take pos xs). x < v) \<and> (\<forall>x \<in> set (drop pos xs). v < x))"
proof (cases "xs = []")
  case True
  with assms(1) show ?thesis by (simp add: intsetSearch_def rep_def)
next
  case False
  then have n: "0 < length xs" "length xs - 1 < length xs" by simp_all
  note g = rep_get [OF assms(1) n(1)] rep_get [OF assms(1) n(2)] rep_length [OF assms(1)]
  have ge: "xs ! 0 \<le> x" and le: "x \<le> xs ! (length xs - 1)" if "x \<in> set xs" for x
    using that sorted_nth_le [OF assms(2), of 0] sorted_nth_le [OF assms(2), of _ "length xs - 1"] n
    by (auto simp: in_set_conv_nth)
  consider (above) "xs ! (length xs - 1) < v" | (below) "v < xs ! 0" "v \<le> xs ! (length xs - 1)"
    | (mid) "xs ! 0 \<le> v" "v \<le> xs ! (length xs - 1)" by linarith
  then show ?thesis
  proof cases
    case above
    then have "\<forall>x \<in> set xs. x < v" using le by force
    with above g n show ?thesis by (force simp: intsetSearch_def)
  next
    case below
    then have "\<forall>x \<in> set xs. v < x" using ge by force
    with below g n show ?thesis by (force simp: intsetSearch_def)
  next
    case mid
    obtain mn' mid' cur' where r: "search_loop is v 0 (int (length xs) - 1) (-1) (-1) = Some (mn', mid', cur')"
      "if cur' = v then 0 \<le> mid' \<and> nat mid' < length xs \<and> xs ! nat mid' = v
       else 0 \<le> mn' \<and> mn' \<le> int (length xs) \<and> (\<forall>i < length xs. if int i < mn' then xs ! i < v else v < xs ! i)"
      using search_loop_spec [OF assms, of 0 "int (length xs) - 1" "-1" v "-1"] n by auto
    have eq: "intsetSearch is v = (if v = cur' then Some (True, nat mid') else Some (False, nat mn'))"
      using mid g n r(1) by (simp add: intsetSearch_def)
    show ?thesis
    proof (cases "cur' = v")
      case True
      with r(2) eq show ?thesis by (metis (full_types) less_imp_le_nat nth_mem)
    next
      case False
      then have mn: "nat mn' \<le> length xs" and sp: "\<And>i. i < length xs \<Longrightarrow> if i < nat mn' then xs ! i < v else v < xs ! i"
        using r(2) by (auto simp: nat_le_iff zless_nat_eq_int_zless)
      then have "v \<notin> set xs" by (metis in_set_conv_nth less_irrefl)
      moreover have "\<forall>x \<in> set (take (nat mn') xs). x < v" "\<forall>x \<in> set (drop (nat mn') xs). v < x"
        using sp mn by (auto simp: in_set_conv_nth)
      ultimately show ?thesis using eq False mn by auto
    qed
  qed
qed

subsection \<open>Insertion and removal\<close>

lemma resize_facts:
  assumes "is_enc (encoding is)" "n * 8 < 2 ^ 32"
  shows "length (contents (intsetResize junk is n)) = n * encoding is"
    "encoding (intsetResize junk is n) = encoding is" "is_length (intsetResize junk is n) = is_length is"
    "\<And>e k. k * e + e \<le> n * encoding is \<Longrightarrow> k * e + e \<le> length (contents is) \<Longrightarrow>
       slot e (contents (intsetResize junk is n)) k = slot e (contents is) k"
proof -
  have "n * encoding is \<le> n * 8" using assms(1) by (auto simp: is_enc_def)
  then have "n * encoding is < 2 ^ 32" using assms(2) by linarith
  then have m: "(n * encoding is) mod 2 ^ 32 = n * encoding is" by (rule mod_less)
  show "length (contents (intsetResize junk is n)) = n * encoding is"
    "encoding (intsetResize junk is n) = encoding is" "is_length (intsetResize junk is n) = is_length is"
    unfolding intsetResize_def m by (simp_all add: Let_def)
  show "slot e (contents (intsetResize junk is n)) k = slot e (contents is) k"
    if "k * e + e \<le> n * encoding is" "k * e + e \<le> length (contents is)" for e k
    unfolding intsetResize_def m Let_def using that by (simp add: slot_resize)
qed

lemma move_tail:
  assumes "is_enc (encoding is)" "length (contents is) = m * encoding is"
    "from \<le> is_length is" "is_length is \<le> m" "to + (is_length is - from) \<le> m"
  shows "\<exists>cs. intsetMoveTail is from to = Some (is\<lparr>contents := cs\<rparr>) \<and> length cs = m * encoding is \<and>
    (\<forall>j < m. slot (encoding is) cs j =
       slot (encoding is) (contents is)
         (if to \<le> j \<and> j < to + (is_length is - from) then j - to + from else j))"
proof -
  let ?e = "encoding is" and ?n = "is_length is - from"
  have sz: "(if ?e = INTSET_ENC_INT64 then 8 else if ?e = INTSET_ENC_INT32 then 4 else 2) = ?e"
    using assms(1) by (auto simp: is_enc_def)
  have b: "from * ?e + ?n * ?e \<le> length (contents is)" "to * ?e + ?n * ?e \<le> length (contents is)"
    using assms(2-) by (simp_all add: add_mult_distrib [symmetric])
  let ?cs = "put (contents is) (to * ?e) (take (?n * ?e) (drop (from * ?e) (contents is)))"
  have "intsetMoveTail is from to = Some (is\<lparr>contents := ?cs\<rparr>)"
    unfolding intsetMoveTail_def sz Let_def using memmove_Some [OF b] by simp
  moreover have "length ?cs = m * ?e" using b assms(2) by simp
  moreover have "\<forall>j < m. slot ?e ?cs j = slot ?e (contents is) (if to \<le> j \<and> j < to + ?n then j - to + from else j)"
    using slot_put_block [OF b(2,1)] slot_bound assms(2) by simp
  ultimately show ?thesis by blast
qed

lemma nth_insert_at:
  "p \<le> length xs \<Longrightarrow> k \<le> length xs \<Longrightarrow>
    (take p xs @ v # drop p xs) ! k = (if k < p then xs ! k else if k = p then v else xs ! (k - 1))"
  by (auto simp: nth_append nth_Cons split: nat.split intro!: arg_cong [where f = "(!) xs"])

lemma insert_spec:
  assumes "rep is xs" "pos \<le> length xs" "fits (encoding is) v" "(length xs + 1) * 8 < 2 ^ 32"
  shows "\<exists>is'. (do {
      let is = intsetResize junk is (is_length is + 1);
      is \<leftarrow> (if pos < is_length is then intsetMoveTail is pos (pos + 1) else Some is);
      is \<leftarrow> intsetSet is pos v;
      Some (is\<lparr>is_length := is_length is + 1\<rparr>, True) }) = Some (is', True) \<and>
    rep is' (take pos xs @ v # drop pos xs) \<and> encoding is' = encoding is"
proof -
  let ?e = "encoding is" and ?n = "length xs" and ?r = "intsetResize junk is (length xs + 1)"
  have r: "is_enc ?e" "is_length is = ?n" "length (contents is) = ?n * ?e"
    "\<And>k. k < ?n \<Longrightarrow> slot ?e (contents is) k = le_bytes ?e (xs ! k)" "\<forall>x \<in> set xs. fits ?e x"
    using assms(1) by (auto simp: rep_def)
  note R = resize_facts [OF r(1) assms(4), where junk = junk]
  have Rs: "slot ?e (contents ?r) k = le_bytes ?e (xs ! k)" if "k < ?n" for k
    using R(4) [of k ?e] slot_bound [of k ?n ?e] slot_bound [of k "?n + 1" ?e] that r(3,4) by simp
  obtain cs where cs: "(if pos < ?n then intsetMoveTail ?r pos (pos + 1) else Some ?r) = Some (?r\<lparr>contents := cs\<rparr>)"
    "length cs = (?n + 1) * ?e" "\<And>j. j \<le> ?n \<Longrightarrow> j \<noteq> pos \<Longrightarrow>
       slot ?e cs j = le_bytes ?e (if j < pos then xs ! j else xs ! (j - 1))"
  proof (cases "pos < ?n")
    case True
    obtain cs where "intsetMoveTail ?r pos (pos + 1) = Some (?r\<lparr>contents := cs\<rparr>)" "length cs = (?n + 1) * ?e"
      "\<forall>j < ?n + 1. slot ?e cs j = slot ?e (contents ?r) (if pos + 1 \<le> j \<and> j < pos + 1 + (?n - pos) then j - (pos + 1) + pos else j)"
      using move_tail [of ?r "?n + 1" pos "pos + 1"] R r True by auto
    with True Rs show thesis by (intro that [of cs]) auto
  next
    case False
    then have "pos = ?n" using assms(2) by simp
    with R Rs show thesis by (intro that [of "contents ?r"]) auto
  qed
  have b: "pos * ?e + ?e \<le> length cs" using cs(2) slot_bound [of pos "?n + 1" ?e] assms(2) by simp
  let ?cs = "put cs (pos * ?e) (le_bytes ?e v)"
  have "intsetSet (?r\<lparr>contents := cs\<rparr>) pos v = Some (?r\<lparr>contents := ?cs\<rparr>)"
    using set_slot [of "?r\<lparr>contents := cs\<rparr>" pos v] b r(1) R(2) by simp
  moreover have "slot ?e ?cs k = le_bytes ?e ((take pos xs @ v # drop pos xs) ! k)" if "k \<le> ?n" for k
    using slot_put_same [OF b] slot_put_other [OF b, of k] slot_bound [of k "?n + 1" ?e] that cs(2,3)
      nth_insert_at [OF assms(2) that, of v] by (cases "k = pos") simp_all
  then have "rep (?r\<lparr>contents := ?cs, is_length := ?n + 1\<rparr>) (take pos xs @ v # drop pos xs)"
    unfolding rep_def using R(2) r(1,5) assms(2,3) b cs(2)
    by (auto dest: in_set_takeD in_set_dropD)
  ultimately show ?thesis using cs(1) R(2,3) r(2) by (auto simp: Let_def)
qed

lemma remove_spec:
  assumes "rep is xs" "pos < length xs" "length xs * 8 < 2 ^ 32"
  shows "\<exists>is'. (do {
      let len = is_length is;
      is \<leftarrow> (if pos < len - 1 then intsetMoveTail is (pos + 1) pos else Some is);
      let is = intsetResize junk is (len - 1);
      Some (is\<lparr>is_length := len - 1\<rparr>, True) }) = Some (is', True) \<and>
    rep is' (take pos xs @ drop (Suc pos) xs)"
proof -
  let ?e = "encoding is" and ?n = "length xs" and ?ys = "take pos xs @ drop (Suc pos) xs"
  have r: "is_enc ?e" "is_length is = ?n" "length (contents is) = ?n * ?e"
    "\<And>k. k < ?n \<Longrightarrow> slot ?e (contents is) k = le_bytes ?e (xs ! k)" "\<forall>x \<in> set xs. fits ?e x"
    using assms(1) by (auto simp: rep_def)
  obtain cs where cs: "(if pos < ?n - 1 then intsetMoveTail is (pos + 1) pos else Some is) = Some (is\<lparr>contents := cs\<rparr>)"
    "length cs = ?n * ?e" "\<And>j. j < ?n - 1 \<Longrightarrow> slot ?e cs j = le_bytes ?e (?ys ! j)"
  proof (cases "pos < ?n - 1")
    case True
    obtain cs where "intsetMoveTail is (pos + 1) pos = Some (is\<lparr>contents := cs\<rparr>)" "length cs = ?n * ?e"
      "\<forall>j < ?n. slot ?e cs j = slot ?e (contents is) (if pos \<le> j \<and> j < pos + (?n - (pos + 1)) then j - pos + (pos + 1) else j)"
      using move_tail [of "is" ?n "pos + 1" pos] r True assms(2) by auto
    with True r(4) show thesis by (intro that [of cs]) (auto simp: nth_append)
  next
    case False
    then have "Suc pos = ?n" using assms(2) by simp
    with r(3,4) show thesis by (intro that [of "contents is"]) (auto simp: nth_append)
  qed
  have n8: "(?n - 1) * 8 < 2 ^ 32" using assms(3) by simp
  note R = resize_facts [of "is\<lparr>contents := cs\<rparr>", OF _ n8, where junk = junk]
  let ?r = "intsetResize junk (is\<lparr>contents := cs\<rparr>) (?n - 1)"
  have "rep (?r\<lparr>is_length := ?n - 1\<rparr>) ?ys"
    unfolding rep_def
  proof (intro conjI allI impI ballI)
    fix k assume "k < length ?ys"
    then have k: "k < ?n - 1" using assms(2) by simp
    then show "slot (encoding (?r\<lparr>is_length := ?n - 1\<rparr>)) (contents (?r\<lparr>is_length := ?n - 1\<rparr>)) k =
        le_bytes (encoding (?r\<lparr>is_length := ?n - 1\<rparr>)) (?ys ! k)"
      using R(2) R(4) [of k ?e] r(1) cs(2,3) slot_bound [of k "?n - 1" ?e] slot_bound [of k ?n ?e] by simp
  qed (use R r assms(2) in \<open>auto dest: in_set_takeD in_set_dropD\<close>)
  with cs(1) r(2) show ?thesis by (auto simp: Let_def)
qed

lemma upgrade_loop_spec:
  assumes "is_enc ce" "is_enc (encoding is)" "ce \<le> encoding is" "l \<le> length xs" "p \<le> 1"
    "length (contents is) = (length xs + 1) * encoding is" "\<forall>x \<in> set xs. fits ce x"
    "\<forall>k < l. slot ce (contents is) k = le_bytes ce (xs ! k)"
    "\<forall>k. l \<le> k \<and> k < length xs \<longrightarrow> slot (encoding is) (contents is) (k + p) = le_bytes (encoding is) (xs ! k)"
  shows "\<exists>cs. upgrade_loop is l p ce = Some (is\<lparr>contents := cs\<rparr>) \<and> length cs = length (contents is) \<and>
    (\<forall>k < length xs. slot (encoding is) cs (k + p) = le_bytes (encoding is) (xs ! k))"
  using assms(2-)
proof (induction l arbitrary: "is")
  case 0
  then show ?case by (intro exI [of _ "contents is"]) simp
next
  case (Suc l)
  let ?e = "encoding is" and ?n = "length xs"
  have lt: "l < ?n" using Suc.prems by simp
  have "l * ce + ce \<le> ?n * ce" using slot_bound [OF lt] .
  also have "\<dots> \<le> (?n + 1) * ?e" using Suc.prems(2) by (intro mult_le_mono) simp_all
  finally have bc: "l * ce + ce \<le> length (contents is)" using Suc.prems(5) by simp
  have g: "intsetGetEncoded is l ce = Some (xs ! l)"
    by (rule get_value [OF assms(1) bc]) (use Suc.prems lt in auto)
  have b: "(l + p) * ?e + ?e \<le> length (contents is)"
    using slot_bound [of "l + p" "?n + 1" ?e] lt Suc.prems(4,5) by simp
  let ?cs = "put (contents is) ((l + p) * ?e) (le_bytes ?e (xs ! l))" and ?is = "is\<lparr>contents := put (contents is) ((l + p) * ?e) (le_bytes ?e (xs ! l))\<rparr>"
  have st: "intsetSet is (l + p) (xs ! l) = Some ?is" by (rule set_slot [OF Suc.prems(1) b])
  have old: "slot ce ?cs k = slot ce (contents is) k" if "k < l" for k
    unfolding slot_def
  proof (rule take_drop_put_disjoint)
    have k: "k * ce + ce \<le> l * ce" using slot_bound [OF that] .
    also have "l * ce \<le> (l + p) * ?e" using Suc.prems(2) by (intro mult_le_mono) simp_all
    finally show "k * ce + ce \<le> (l + p) * ?e \<or> (l + p) * ?e + length (le_bytes ?e (xs ! l)) \<le> k * ce" by simp
    show "k * ce + ce \<le> length (contents is)" using k bc by linarith
  qed (use b in simp)
  have new: "slot ?e ?cs (k + p) = le_bytes ?e (xs ! k)" if "l \<le> k" "k < ?n" for k
    using slot_put_same [OF b] slot_put_other [OF b, of "k + p"] slot_bound [of "k + p" "?n + 1" ?e] that Suc.prems
    by (cases "k = l") simp_all
  have "\<exists>cs. upgrade_loop ?is l p ce = Some (?is\<lparr>contents := cs\<rparr>) \<and> length cs = length (contents ?is) \<and>
    (\<forall>k < ?n. slot (encoding ?is) cs (k + p) = le_bytes (encoding ?is) (xs ! k))"
    by (rule Suc.IH) (use Suc.prems old new b in simp_all)
  with g st b show ?case by simp
qed

lemma upgrade_spec:
  assumes "rep is xs" "encoding is < intsetValueEncoding v" "fits 8 v" "(length xs + 1) * 8 < 2 ^ 32"
  shows "\<exists>is'. intsetUpgradeAndAdd junk is v = Some is' \<and> rep is' (if v < 0 then v # xs else xs @ [v])"
proof -
  let ?ne = "intsetValueEncoding v" and ?n = "length xs" and ?p = "if v < 0 then 1 else 0 :: nat"
  let ?ys = "if v < 0 then v # xs else xs @ [v]"
  let ?r = "intsetResize junk (is\<lparr>encoding := ?ne\<rparr>) (?n + 1)"
  have r: "is_enc (encoding is)" "is_length is = ?n" "length (contents is) = ?n * encoding is"
    "\<And>k. k < ?n \<Longrightarrow> slot (encoding is) (contents is) k = le_bytes (encoding is) (xs ! k)"
    "\<forall>x \<in> set xs. fits (encoding is) x"
    using assms(1) by (auto simp: rep_def)
  note R = resize_facts [of "is\<lparr>encoding := ?ne\<rparr>", OF _ assms(4), where junk = junk, simplified]
  have old: "slot (encoding is) (contents ?r) k = le_bytes (encoding is) (xs ! k)" if "k < ?n" for k
  proof -
    have k: "k * encoding is + encoding is \<le> ?n * encoding is" using slot_bound [OF that] .
    also have "\<dots> \<le> (?n + 1) * ?ne" using assms(2) by (intro mult_le_mono) simp_all
    finally show ?thesis using R(4) [of k "encoding is"] k r(3,4) that by simp
  qed
  obtain cs where cs: "upgrade_loop ?r ?n ?p (encoding is) = Some (?r\<lparr>contents := cs\<rparr>)" "length cs = (?n + 1) * ?ne"
    "\<And>k. k < ?n \<Longrightarrow> slot ?ne cs (k + ?p) = le_bytes ?ne (xs ! k)"
  proof -
    have "\<exists>cs. upgrade_loop ?r ?n ?p (encoding is) = Some (?r\<lparr>contents := cs\<rparr>) \<and> length cs = length (contents ?r) \<and>
        (\<forall>k < ?n. slot (encoding ?r) cs (k + ?p) = le_bytes (encoding ?r) (xs ! k))"
      by (rule upgrade_loop_spec [OF r(1)]) (use R(1,2) old r(5) assms(2) in \<open>simp_all add: not_less [symmetric]\<close>)
    then show thesis using that R(1,2) by auto
  qed
  define j where "j = (if v < 0 then 0 else ?n)"
  have b: "j * ?ne + ?ne \<le> length cs" using cs(2) slot_bound [of j "?n + 1" ?ne] by (simp add: j_def)
  let ?cs = "put cs (j * ?ne) (le_bytes ?ne v)"
  have st: "intsetSet (?r\<lparr>contents := cs\<rparr>) j v = Some (?r\<lparr>contents := ?cs\<rparr>)"
    using set_slot [of "?r\<lparr>contents := cs\<rparr>" j v] b R(2) by simp
  have slots: "slot ?ne ?cs k = le_bytes ?ne (?ys ! k)" if "k \<le> ?n" for k
  proof (cases "k = j")
    case True
    then show ?thesis using slot_put_same [OF b] by (auto simp: j_def nth_append)
  next
    case False
    have "slot ?ne ?cs k = slot ?ne cs k"
      using slot_put_other [OF b _ _ False] slot_bound [of k "?n + 1" ?ne] that cs(2) by simp
    also have "\<dots> = le_bytes ?ne (?ys ! k)"
      using False that cs(3) [of "k - ?p"] by (auto simp: j_def nth_append split: if_splits)
    finally show ?thesis .
  qed
  have "\<forall>x \<in> set ?ys. fits ?ne x"
    using fits_le [OF r(1) is_enc_value] assms(2,3) r(5) fits_encoding by auto
  then have "rep (?r\<lparr>contents := ?cs, is_length := ?n + 1\<rparr>) ?ys"
    unfolding rep_def using R(2) b cs(2) slots by auto
  moreover have "intsetUpgradeAndAdd junk is v = Some (?r\<lparr>contents := ?cs, is_length := ?n + 1\<rparr>)"
    using cs(1) st R(3) r(2) by (auto simp: intsetUpgradeAndAdd_def Let_def j_def)
  ultimately show ?thesis by blast
qed

subsection \<open>The set\<close>

definition intset_elems :: "intset \<Rightarrow> int list" where
  "intset_elems is = map (\<lambda>k. le_sval (slot (encoding is) (contents is) k)) [0..<is_length is]"

definition intset_ok :: "intset \<Rightarrow> bool" where
  "intset_ok is \<longleftrightarrow> (\<exists>xs. rep is xs \<and> sorted_wrt (<) xs)"

lemma rep_elems: "rep is xs \<Longrightarrow> intset_elems is = xs"
proof -
  assume r: "rep is xs"
  have "le_sval (slot (encoding is) (contents is) k) = xs ! k" if "k < length xs" for k
    using rep_get [OF r that] get_slot [of "encoding is" k "is"] slot_bound [OF that, of "encoding is"] r
    by (simp add: rep_def intsetGet_at_def)
  then show ?thesis using r by (auto simp: intset_elems_def rep_def intro: nth_equalityI)
qed

lemma intset_okD: "intset_ok is \<Longrightarrow> rep is (intset_elems is) \<and> sorted_wrt (<) (intset_elems is)"
  unfolding intset_ok_def using rep_elems by blast

lemma intset_okI: "rep is xs \<Longrightarrow> sorted_wrt (<) xs \<Longrightarrow> intset_ok is"
  unfolding intset_ok_def by blast

definition intset_room :: "intset \<Rightarrow> bool" where
  "intset_room is \<longleftrightarrow> (is_length is + 1) * 8 < 2 ^ 32"

lemma sorted_insert_at:
  "sorted_wrt (<) (xs :: int list) \<Longrightarrow> \<forall>x \<in> set (take p xs). x < v \<Longrightarrow> \<forall>x \<in> set (drop p xs). v < x \<Longrightarrow>
    sorted_wrt (<) (take p xs @ v # drop p xs)"
  using sorted_wrt_append [of "(<)" "take p xs" "drop p xs"] by (auto simp: sorted_wrt_append)

lemma set_insert_at: "set (take p xs @ v # drop p xs) = insert v (set xs)"
  using set_append [of "take p xs" "drop p xs"] by auto

lemma intsetAdd_spec:
  assumes "intset_ok is" "fits 8 v" "intset_room is"
  shows "\<exists>is'. intsetAdd junk is v = Some (is', v \<notin> set (intset_elems is)) \<and> intset_ok is' \<and>
    set (intset_elems is') = insert v (set (intset_elems is))"
proof -
  define xs where "xs = intset_elems is"
  have r: "rep is xs" "sorted_wrt (<) xs" using intset_okD [OF assms(1)] by (simp_all add: xs_def)
  have room: "(length xs + 1) * 8 < 2 ^ 32" using assms(3) rep_length [OF r(1)] by (simp add: intset_room_def)
  show ?thesis
  proof (cases "encoding is < intsetValueEncoding v")
    case True
    let ?ys = "if v < 0 then v # xs else xs @ [v]"
    obtain is' where i: "intsetUpgradeAndAdd junk is v = Some is'" "rep is' ?ys"
      using upgrade_spec [OF r(1) True assms(2) room] by blast
    have enc: "is_enc (encoding is)" "\<And>x. x \<in> set xs \<Longrightarrow> fits (encoding is) x" using r(1) by (auto simp: rep_def)
    have out: "\<not> fits (encoding is) v" using fits_iff [OF enc(1) assms(2)] True by simp
    define B :: int where "B = 2 ^ (8 * encoding is - 1)"
    have B: "0 < B" "v < - B \<or> B \<le> v" "\<And>x. x \<in> set xs \<Longrightarrow> - B \<le> x \<and> x < B"
      using out enc(2) by (auto simp: fits_def B_def)
    have "v \<notin> set xs" "v < 0 \<Longrightarrow> \<forall>x \<in> set xs. v < x" "\<not> v < 0 \<Longrightarrow> \<forall>x \<in> set xs. x < v"
      using B by force+
    then have "sorted_wrt (<) ?ys" "v \<notin> set xs" using r(2) by (auto simp: sorted_wrt_append)
    with i True rep_elems [OF i(2)] intset_okI [OF i(2)] show ?thesis by (auto simp: intsetAdd_def xs_def [symmetric])
  next
    case False
    obtain pos where pos: "intsetSearch is v = Some (v \<in> set xs, pos)" "pos \<le> length xs"
      "v \<notin> set xs \<Longrightarrow> \<forall>x \<in> set (take pos xs). x < v" "v \<notin> set xs \<Longrightarrow> \<forall>x \<in> set (drop pos xs). v < x"
      using intsetSearch_spec [OF r, of v] by (auto split: if_splits)
    show ?thesis
    proof (cases "v \<in> set xs")
      case True
      with pos(1) False assms(1) show ?thesis by (auto simp: intsetAdd_def xs_def [symmetric])
    next
      case new: False
      have "fits (encoding is) v" using fits_iff [of "encoding is" v] r(1) assms(2) False by (simp add: rep_def)
      from insert_spec [OF r(1) pos(2) this room, of junk] obtain is' where
        i: "(do { let is = intsetResize junk is (is_length is + 1);
             is \<leftarrow> (if pos < is_length is then intsetMoveTail is pos (pos + 1) else Some is);
             is \<leftarrow> intsetSet is pos v;
             Some (is\<lparr>is_length := is_length is + 1\<rparr>, True) }) = Some (is', True)"
          "rep is' (take pos xs @ v # drop pos xs)" by blast
      have "sorted_wrt (<) (take pos xs @ v # drop pos xs)"
        by (rule sorted_insert_at) (use r(2) pos new in auto)
      with i(2) have "intset_ok is'" "set (intset_elems is') = insert v (set xs)"
        using intset_okI rep_elems set_insert_at by metis+
      with new pos(1) False i(1) show ?thesis by (simp add: intsetAdd_def xs_def [symmetric])
    qed
  qed
qed

lemma sorted_remove_at:
  assumes "sorted_wrt (<) (xs :: int list)" "p < length xs"
  shows "sorted_wrt (<) (take p xs @ drop (Suc p) xs)" "set (take p xs @ drop (Suc p) xs) = set xs - {xs ! p}"
proof -
  have eq: "xs = take p xs @ xs ! p # drop (Suc p) xs" by (rule id_take_nth_drop [OF assms(2)])
  have s: "sorted_wrt (<) (take p xs @ xs ! p # drop (Suc p) xs)" using assms(1) eq by simp
  then show "sorted_wrt (<) (take p xs @ drop (Suc p) xs)" by (simp add: sorted_wrt_append)
  have "xs ! p \<notin> set (take p xs) \<union> set (drop (Suc p) xs)" using s by (auto simp: sorted_wrt_append)
  moreover have "set xs = insert (xs ! p) (set (take p xs) \<union> set (drop (Suc p) xs))"
    by (subst eq) auto
  ultimately show "set (take p xs @ drop (Suc p) xs) = set xs - {xs ! p}" by auto
qed

lemma intsetRemove_spec:
  assumes "intset_ok is" "fits 8 v" "is_length is * 8 < 2 ^ 32"
  shows "\<exists>is'. intsetRemove junk is v = Some (is', v \<in> set (intset_elems is)) \<and> intset_ok is' \<and>
    set (intset_elems is') = set (intset_elems is) - {v}"
proof -
  define xs where "xs = intset_elems is"
  have r: "rep is xs" "sorted_wrt (<) xs" using intset_okD [OF assms(1)] by (simp_all add: xs_def)
  have room: "length xs * 8 < 2 ^ 32" using assms(3) rep_length [OF r(1)] by simp
  have enc: "is_enc (encoding is)" "\<And>x. x \<in> set xs \<Longrightarrow> fits (encoding is) x" using r(1) by (auto simp: rep_def)
  obtain pos where pos: "intsetSearch is v = Some (v \<in> set xs, pos)" "v \<in> set xs \<Longrightarrow> pos < length xs \<and> xs ! pos = v"
    using intsetSearch_spec [OF r, of v] by (auto split: if_splits)
  show ?thesis
  proof (cases "v \<in> set xs")
    case False
    then show ?thesis using pos(1) assms(1) by (auto simp: intsetRemove_def xs_def [symmetric])
  next
    case True
    then have p: "pos < length xs" "xs ! pos = v" using pos(2) by simp_all
    have "intsetValueEncoding v \<le> encoding is" using fits_iff [OF enc(1) assms(2)] enc(2) [OF True] by simp
    moreover obtain is' where
      i: "(do { let len = is_length is;
             is \<leftarrow> (if pos < len - 1 then intsetMoveTail is (pos + 1) pos else Some is);
             let is = intsetResize junk is (len - 1);
             Some (is\<lparr>is_length := len - 1\<rparr>, True) }) = Some (is', True)"
        "rep is' (take pos xs @ drop (Suc pos) xs)"
      using remove_spec [OF r(1) p(1) room] by blast
    moreover have "intset_ok is'" "set (intset_elems is') = set xs - {v}"
      using intset_okI [OF i(2)] rep_elems [OF i(2)] sorted_remove_at [OF r(2) p(1)] p(2) by simp_all
    ultimately show ?thesis using True pos(1) by (simp add: intsetRemove_def xs_def [symmetric])
  qed
qed

lemma intsetFind_spec:
  assumes "intset_ok is" "fits 8 v" shows "intsetFind is v = Some (v \<in> set (intset_elems is))"
proof -
  have r: "rep is (intset_elems is)" "sorted_wrt (<) (intset_elems is)" using intset_okD [OF assms(1)] by simp_all
  have "v \<in> set (intset_elems is) \<Longrightarrow> intsetValueEncoding v \<le> encoding is"
    using r(1) fits_iff [of "encoding is" v] assms(2) by (auto simp: rep_def)
  with intsetSearch_spec [OF r, of v] show ?thesis by (auto simp: intsetFind_def)
qed

lemma intset_len_card:
  assumes "intset_ok is" shows "finite (set (intset_elems is)) \<and> intsetLen is = card (set (intset_elems is))"
proof -
  have "distinct (intset_elems is)" using intset_okD [OF assms] strict_sorted_iff by blast
  with intset_okD [OF assms] show ?thesis by (simp add: intsetLen_def rep_def distinct_card)
qed

lemma intset_ok_new [simp]: "intset_ok intsetNew"
  by (rule intset_okI [of _ "[]"]) (simp_all add: rep_def intsetNew_def is_enc_def)

lemma intset_elems_new [simp]: "intset_elems intsetNew = []"
  by (simp add: intset_elems_def intsetNew_def)

lemma intset_len_new [simp]: "intsetLen intsetNew = 0"
  by (simp add: intsetLen_def intsetNew_def)

lemma fits_64: "fits 8 v \<longleftrightarrow> LLONG_MIN \<le> v \<and> v \<le> LLONG_MAX"
  by (auto simp: fits_def)

interpretation iset: set_store intset_ok "\<lambda>s. set (intset_elems s)" intsetLen "2 ^ 29 - 1" "fits 8"
  "intsetAdd junk" "intsetRemove junk" intsetFind for junk
proof unfold_locales
  show "intset_ok s \<Longrightarrow> finite (set (intset_elems s)) \<and> intsetLen s = card (set (intset_elems s))" for s
    by (rule intset_len_card)
  show "intset_ok s \<Longrightarrow> fits 8 x \<Longrightarrow> intsetLen s < 2 ^ 29 - 1 \<Longrightarrow>
      \<exists>s'. intsetAdd junk s x = Some (s', x \<notin> set (intset_elems s)) \<and> intset_ok s' \<and>
        set (intset_elems s') = insert x (set (intset_elems s))" for s x
    by (rule intsetAdd_spec) (simp_all add: intset_room_def intsetLen_def)
  show "intset_ok s \<Longrightarrow> fits 8 x \<Longrightarrow> intsetLen s \<le> 2 ^ 29 - 1 \<Longrightarrow>
      \<exists>s'. intsetRemove junk s x = Some (s', x \<in> set (intset_elems s)) \<and> intset_ok s' \<and>
        set (intset_elems s') = set (intset_elems s) - {x}" for s x
    by (rule intsetRemove_spec) (simp_all add: intsetLen_def)
  show "intset_ok s \<Longrightarrow> fits 8 x \<Longrightarrow> intsetFind s x = Some (x \<in> set (intset_elems s))" for s x
    by (rule intsetFind_spec)
qed

subsection \<open>Guarantees\<close>

text \<open>C18: \<open>intsetAdd\<close> on a well-formed integer set of less than \<open>2 ^ 29 - 1\<close> elements never touches
  memory outside of the block, keeps the array strictly sorted and correctly encoded, also when
  it has to widen every element in place, adds exactly the given 64-bit value and reports whether
  it was new.\<close>

theorem intsetAdd_correct:
  assumes "intset_ok is" "LLONG_MIN \<le> v" "v \<le> LLONG_MAX" "intsetLen is < 2 ^ 29 - 1"
  shows "\<exists>is'. intsetAdd junk is v = Some (is', v \<notin> set (intset_elems is)) \<and> intset_ok is' \<and>
    set (intset_elems is') = insert v (set (intset_elems is)) \<and> sorted_wrt (<) (intset_elems is')"
proof -
  have "fits 8 v" using assms(2,3) by (simp add: fits_64)
  from iset.add_law [OF assms(1) this assms(4), of junk] show ?thesis using intset_okD by blast
qed

theorem intsetAdd_correct_witness:
  "\<exists>is'. intsetAdd (\<lambda>_. 255) intsetNew 100000 = Some (is', True) \<and> set (intset_elems is') = {100000}"
  using intsetAdd_correct [of intsetNew 100000 "\<lambda>_. 255"] by auto

text \<open>C17: Any sequence of \<open>intsetAdd\<close> and \<open>intsetRemove\<close> calls on 64-bit values, starting from an
  empty set and short enough for the 32-bit block size, runs without a memory error, returns the
  replies of the same commands on a mathematical set and ends with its elements, which
  \<open>intsetFind\<close> and \<open>intsetLen\<close> then report.\<close>

theorem intset_refines_set:
  assumes "\<forall>c \<in> set cs. LLONG_MIN \<le> op_value c \<and> op_value c \<le> LLONG_MAX" "length cs < 2 ^ 29"
  shows "\<exists>is. run_set_ops (intsetAdd junk) (intsetRemove junk) intsetNew cs = Some (is, snd (set_ops_spec {} cs)) \<and>
    set (intset_elems is) = fst (set_ops_spec {} cs) \<and> intset_ok is \<and>
    intsetLen is = card (fst (set_ops_spec {} cs)) \<and>
    (\<forall>v. LLONG_MIN \<le> v \<and> v \<le> LLONG_MAX \<longrightarrow> intsetFind is v = Some (v \<in> fst (set_ops_spec {} cs)))"
proof -
  obtain s where s: "run_set_ops (intsetAdd junk) (intsetRemove junk) intsetNew cs = Some (s, snd (set_ops_spec {} cs))"
    "intset_ok s" "set (intset_elems s) = fst (set_ops_spec {} cs)"
    using iset.run_ops [of intsetNew cs junk] assms by (auto simp: fits_64)
  moreover have "intsetFind s v = Some (v \<in> fst (set_ops_spec {} cs))" if "LLONG_MIN \<le> v" "v \<le> LLONG_MAX" for v
    using iset.find_law [OF s(2), of v] s(3) that by (simp add: fits_64)
  ultimately show ?thesis using intset_len_card [OF s(2)] by auto
qed

theorem intset_refines_set_witness:
  "\<exists>is. run_set_ops (intsetAdd (\<lambda>_. 0)) (intsetRemove (\<lambda>_. 0)) intsetNew
     [Op_add 7, Op_add (- 70000), Op_add 7, Op_remove 7] = Some (is, [True, True, False, True]) \<and>
     set (intset_elems is) = {- 70000}"
  using intset_refines_set [of "[Op_add 7, Op_add (- 70000), Op_add 7, Op_remove 7]" "\<lambda>_. 0"] by auto

end
