(* ===== verification/Adlist.thy ===== *)
theory Adlist
  imports Prelude
begin

text \<open>
  The generic doubly linked list (\<open>src/adlist.c\<close>) on an explicit heap of nodes. A pointer is an
  address or NULL (\<open>None\<close>); reading or writing through NULL or through a freed node makes an
  operation return \<open>None\<close>. The address that \<open>zmalloc\<close> returns is an argument of the operations
  that allocate. The value destructor \<open>free\<close> has no effect on the list and is left out; \<open>dup\<close>
  and \<open>match\<close> are arguments.
\<close>

subsection \<open>Definitions\<close>

record 'v listNode =
  n_prev :: "nat option"
  n_next :: "nat option"
  n_value :: 'v

type_synonym 'v node_heap = "nat \<rightharpoonup> 'v listNode"

record dlist =
  l_head :: "nat option"
  l_tail :: "nat option"
  l_len :: nat

datatype direction = AL_START_HEAD | AL_START_TAIL

record listIter =
  it_next :: "nat option"
  it_direction :: direction

type_synonym 'v lstate = "'v node_heap \<times> dlist"

definition load :: "'v node_heap \<Rightarrow> nat option \<Rightarrow> 'v listNode option" where
  "load h p = (case p of None \<Rightarrow> None | Some a \<Rightarrow> h a)"

definition set_prev :: "'v node_heap \<Rightarrow> nat option \<Rightarrow> nat option \<Rightarrow> 'v node_heap option" where
  "set_prev h p q = (case p of None \<Rightarrow> None
     | Some a \<Rightarrow> map_option (\<lambda>n. h(a \<mapsto> n\<lparr>n_prev := q\<rparr>)) (h a))"

definition set_next :: "'v node_heap \<Rightarrow> nat option \<Rightarrow> nat option \<Rightarrow> 'v node_heap option" where
  "set_next h p q = (case p of None \<Rightarrow> None
     | Some a \<Rightarrow> map_option (\<lambda>n. h(a \<mapsto> n\<lparr>n_next := q\<rparr>)) (h a))"

definition listCreate :: dlist where
  "listCreate = \<lparr>l_head = None, l_tail = None, l_len = 0\<rparr>"

fun empty_loop :: "'v node_heap \<Rightarrow> nat option \<Rightarrow> nat \<Rightarrow> 'v node_heap option" where
  "empty_loop h current 0 = Some h"
| "empty_loop h current (Suc len) = do {
     n \<leftarrow> load h current;
     empty_loop (h(the current := None)) (n_next n) len }"

definition listEmpty :: "'v lstate \<Rightarrow> 'v lstate option" where
  "listEmpty = (\<lambda>(h, l). do {
     h \<leftarrow> empty_loop h (l_head l) (l_len l);
     Some (h, l\<lparr>l_head := None, l_tail := None, l_len := 0\<rparr>) })"

definition listAddNodeHead :: "nat \<Rightarrow> 'v lstate \<Rightarrow> 'v \<Rightarrow> 'v lstate option" where
  "listAddNodeHead a = (\<lambda>(h, l) v.
     if l_len l = 0 then
       Some (h(a \<mapsto> \<lparr>n_prev = None, n_next = None, n_value = v\<rparr>),
             l\<lparr>l_head := Some a, l_tail := Some a, l_len := l_len l + 1\<rparr>)
     else do {
       let h = h(a \<mapsto> \<lparr>n_prev = None, n_next = l_head l, n_value = v\<rparr>);
       h \<leftarrow> set_prev h (l_head l) (Some a);
       Some (h, l\<lparr>l_head := Some a, l_len := l_len l + 1\<rparr>) })"

definition listAddNodeTail :: "nat \<Rightarrow> 'v lstate \<Rightarrow> 'v \<Rightarrow> 'v lstate option" where
  "listAddNodeTail a = (\<lambda>(h, l) v.
     if l_len l = 0 then
       Some (h(a \<mapsto> \<lparr>n_prev = None, n_next = None, n_value = v\<rparr>),
             l\<lparr>l_head := Some a, l_tail := Some a, l_len := l_len l + 1\<rparr>)
     else do {
       let h = h(a \<mapsto> \<lparr>n_prev = l_tail l, n_next = None, n_value = v\<rparr>);
       h \<leftarrow> set_next h (l_tail l) (Some a);
       Some (h, l\<lparr>l_tail := Some a, l_len := l_len l + 1\<rparr>) })"

definition listInsertNode :: "nat \<Rightarrow> 'v lstate \<Rightarrow> nat \<Rightarrow> 'v \<Rightarrow> bool \<Rightarrow> 'v lstate option" where
  "listInsertNode a = (\<lambda>(h, l) old_node v after. do {
     old \<leftarrow> h old_node;
     let (prv, nxt) = (if after then (Some old_node, n_next old) else (n_prev old, Some old_node));
     let l = (if after then (if l_tail l = Some old_node then l\<lparr>l_tail := Some a\<rparr> else l)
              else (if l_head l = Some old_node then l\<lparr>l_head := Some a\<rparr> else l));
     let h = h(a \<mapsto> \<lparr>n_prev = prv, n_next = nxt, n_value = v\<rparr>);
     h \<leftarrow> (if prv \<noteq> None then set_next h prv (Some a) else Some h);
     h \<leftarrow> (if nxt \<noteq> None then set_prev h nxt (Some a) else Some h);
     Some (h, l\<lparr>l_len := l_len l + 1\<rparr>) })"

definition listDelNode :: "'v lstate \<Rightarrow> nat \<Rightarrow> 'v lstate option" where
  "listDelNode = (\<lambda>(h, l) node. do {
     n \<leftarrow> h node;
     (h, l) \<leftarrow> (if n_prev n \<noteq> None then map_option (\<lambda>h. (h, l)) (set_next h (n_prev n) (n_next n))
               else Some (h, l\<lparr>l_head := n_next n\<rparr>));
     n \<leftarrow> h node;
     (h, l) \<leftarrow> (if n_next n \<noteq> None then map_option (\<lambda>h. (h, l)) (set_prev h (n_next n) (n_prev n))
               else Some (h, l\<lparr>l_tail := n_prev n\<rparr>));
     Some (h(node := None), l\<lparr>l_len := l_len l - 1\<rparr>) })"

definition listGetIterator :: "dlist \<Rightarrow> direction \<Rightarrow> listIter" where
  "listGetIterator l d =
     \<lparr>it_next = (if d = AL_START_HEAD then l_head l else l_tail l), it_direction = d\<rparr>"

definition listRewind :: "dlist \<Rightarrow> listIter" where
  "listRewind l = \<lparr>it_next = l_head l, it_direction = AL_START_HEAD\<rparr>"

definition listRewindTail :: "dlist \<Rightarrow> listIter" where
  "listRewindTail l = \<lparr>it_next = l_tail l, it_direction = AL_START_TAIL\<rparr>"

text \<open>The node returned (NULL at the end) and the iterator.\<close>

definition listNext :: "'v node_heap \<Rightarrow> listIter \<Rightarrow> (nat option \<times> listIter) option" where
  "listNext h iter =
     (case it_next iter of
        None \<Rightarrow> Some (None, iter)
      | Some current \<Rightarrow> do {
          n \<leftarrow> h current;
          Some (Some current,
                iter\<lparr>it_next := (if it_direction iter = AL_START_HEAD then n_next n else n_prev n)\<rparr>) })"

text \<open>The copying loop of \<open>listDup\<close>; \<open>as\<close> are the addresses the allocator returns.\<close>

partial_function (option) dup_loop ::
  "('v \<Rightarrow> 'v option) option \<Rightarrow> nat list \<Rightarrow> 'v node_heap \<Rightarrow> dlist \<Rightarrow> listIter \<Rightarrow>
   ('v node_heap \<times> dlist option) option" where
  "dup_loop dup as h copy iter = do {
     (node, iter) \<leftarrow> listNext h iter;
     case node of
       None \<Rightarrow> Some (h, Some copy)
     | Some p \<Rightarrow> do {
         n \<leftarrow> h p;
         case (case dup of None \<Rightarrow> Some (n_value n) | Some f \<Rightarrow> f (n_value n)) of
           None \<Rightarrow> do { (h, _) \<leftarrow> listEmpty (h, copy); Some (h, None) }
         | Some v \<Rightarrow> do {
             (h, copy) \<leftarrow> listAddNodeTail (hd as) (h, copy) v;
             dup_loop dup (tl as) h copy iter } } }"

definition listDup ::
  "('v \<Rightarrow> 'v option) option \<Rightarrow> nat list \<Rightarrow> 'v node_heap \<Rightarrow> dlist \<Rightarrow> ('v node_heap \<times> dlist option) option" where
  "listDup dup as h orig = dup_loop dup as h listCreate (listRewind orig)"

partial_function (option) search_key_loop ::
  "('v \<Rightarrow> 'k \<Rightarrow> bool) \<Rightarrow> 'v node_heap \<Rightarrow> listIter \<Rightarrow> 'k \<Rightarrow> nat option option" where
  "search_key_loop match h iter key = do {
     (node, iter) \<leftarrow> listNext h iter;
     case node of
       None \<Rightarrow> Some None
     | Some p \<Rightarrow> do {
         n \<leftarrow> h p;
         if match (n_value n) key then Some (Some p) else search_key_loop match h iter key } }"

definition listSearchKey :: "('v \<Rightarrow> 'k \<Rightarrow> bool) \<Rightarrow> 'v lstate \<Rightarrow> 'k \<Rightarrow> nat option option" where
  "listSearchKey match = (\<lambda>(h, l) key. search_key_loop match h (listRewind l) key)"

text \<open>\<open>while(index-- && n) n = n->prev\<close> and the same with \<open>next\<close>.\<close>

fun walk :: "('v listNode \<Rightarrow> nat option) \<Rightarrow> 'v node_heap \<Rightarrow> nat option \<Rightarrow> nat \<Rightarrow> nat option option" where
  "walk link h n 0 = Some n"
| "walk link h n (Suc index) =
     (case n of None \<Rightarrow> Some None
      | Some p \<Rightarrow> do { m \<leftarrow> h p; walk link h (link m) index })"

definition listIndex :: "'v lstate \<Rightarrow> int \<Rightarrow> nat option option" where
  "listIndex = (\<lambda>(h, l) index.
     if index < 0 then walk n_prev h (l_tail l) (nat (- index - 1))
     else walk n_next h (l_head l) (nat index))"

definition listRotate :: "'v lstate \<Rightarrow> 'v lstate option" where
  "listRotate = (\<lambda>(h, l).
     if l_len l \<le> 1 then Some (h, l)
     else do {
       let tail = l_tail l;
       t \<leftarrow> load h tail;
       let l = l\<lparr>l_tail := n_prev t\<rparr>;
       h \<leftarrow> set_next h (l_tail l) None;
       h \<leftarrow> set_prev h (l_head l) tail;
       h \<leftarrow> set_prev h tail None;
       h \<leftarrow> set_next h tail (l_head l);
       Some (h, l\<lparr>l_head := tail\<rparr>) })"

definition listJoin :: "'v node_heap \<Rightarrow> dlist \<Rightarrow> dlist \<Rightarrow> ('v node_heap \<times> dlist \<times> dlist) option" where
  "listJoin h l ol = do {
     h \<leftarrow> (if l_head ol \<noteq> None then set_prev h (l_head ol) (l_tail l) else Some h);
     (h, l) \<leftarrow> (if l_tail l \<noteq> None then map_option (\<lambda>h. (h, l)) (set_next h (l_tail l) (l_head ol))
               else Some (h, l\<lparr>l_head := l_head ol\<rparr>));
     let l = (if l_tail ol \<noteq> None then l\<lparr>l_tail := l_tail ol\<rparr> else l);
     let l = l\<lparr>l_len := l_len l + l_len ol\<rparr>;
     Some (h, l, ol\<lparr>l_head := None, l_tail := None, l_len := 0\<rparr>) }"

subsection \<open>Segments of the heap\<close>

definition hd_or :: "('a \<times> 'v) list \<Rightarrow> 'a option \<Rightarrow> 'a option" where
  "hd_or xs q = (case xs of [] \<Rightarrow> q | x # _ \<Rightarrow> Some (fst x))"

definition last_or :: "('a \<times> 'v) list \<Rightarrow> 'a option \<Rightarrow> 'a option" where
  "last_or xs p = (if xs = [] then p else Some (fst (last xs)))"

lemma hd_or_simps [simp]: "hd_or [] q = q" "hd_or (x # xs) q = Some (fst x)"
  by (simp_all add: hd_or_def)

lemma last_or_simps [simp]:
  "last_or [] p = p" "last_or (x # xs) p = last_or xs (Some (fst x))" "last_or (xs @ [x]) p = Some (fst x)"
  by (simp_all add: last_or_def)

lemma hd_or_append [simp]: "hd_or (xs @ ys) q = hd_or xs (hd_or ys q)"
  by (cases xs) simp_all

lemma last_or_append [simp]: "last_or (xs @ ys) p = last_or ys (last_or xs p)"
  by (induction xs arbitrary: p) simp_all

lemma last_or_ex [simp]: "\<exists>y. last_or xs (Some a) = Some y"
  by (simp add: last_or_def)

lemma last_or_neq: "b \<noteq> a \<Longrightarrow> b \<notin> fst ` set xs \<Longrightarrow> last_or xs (Some a) \<noteq> Some b"
  by (auto simp: last_or_def)

lemma hd_or_neq: "b \<noteq> a \<Longrightarrow> b \<notin> fst ` set xs \<Longrightarrow> hd_or xs (Some a) \<noteq> Some b"
  by (cases xs) auto

text \<open>The nodes \<open>xs\<close> (address and value) are linked in this order between \<open>p\<close> and \<open>q\<close>.\<close>

fun seg :: "'v node_heap \<Rightarrow> nat option \<Rightarrow> (nat \<times> 'v) list \<Rightarrow> nat option \<Rightarrow> bool" where
  "seg h p [] q \<longleftrightarrow> True"
| "seg h p (x # xs) q \<longleftrightarrow>
     h (fst x) = Some \<lparr>n_prev = p, n_next = hd_or xs q, n_value = snd x\<rparr> \<and> seg h (Some (fst x)) xs q"

definition dll :: "'v lstate \<Rightarrow> (nat \<times> 'v) list \<Rightarrow> bool" where
  "dll = (\<lambda>(h, l) xs. seg h None xs None \<and> distinct (map fst xs) \<and>
     l_head l = hd_or xs None \<and> l_tail l = last_or xs None \<and> l_len l = length xs)"

lemma seg_append [simp]: "seg h p (xs @ ys) q \<longleftrightarrow> seg h p xs (hd_or ys q) \<and> seg h (last_or xs p) ys q"
  by (induction xs arbitrary: p) auto

lemma seg_upd [simp]: "a \<notin> fst ` set xs \<Longrightarrow> seg (h(a := n)) p xs q \<longleftrightarrow> seg h p xs q"
  by (induction xs arbitrary: p) auto

lemma seg_dom: "seg h p xs q \<Longrightarrow> x \<in> set xs \<Longrightarrow> fst x \<in> dom h"
  by (induction xs arbitrary: p) auto

lemma dll_fresh: "dll (h, l) xs \<Longrightarrow> a \<notin> dom h \<Longrightarrow> a \<notin> fst ` set xs"
  using seg_dom [of h None xs None] by (auto simp: dll_def)

lemmas heap_ops = load_def set_prev_def set_next_def

subsection \<open>Insertion\<close>

lemma listAddNodeHead_spec:
  assumes "dll (h, l) xs" "a \<notin> dom h"
  shows "\<exists>s. listAddNodeHead a (h, l) v = Some s \<and> dll s ((a, v) # xs)"
  using assms dll_fresh [OF assms]
  by (cases xs) (auto simp: listAddNodeHead_def dll_def heap_ops)

lemma listAddNodeTail_spec:
  assumes "dll (h, l) xs" "a \<notin> dom h"
  shows "\<exists>s. listAddNodeTail a (h, l) v = Some s \<and> dll s (xs @ [(a, v)])"
  using assms dll_fresh [OF assms]
  by (cases xs rule: rev_cases) (auto simp: listAddNodeTail_def dll_def heap_ops)

lemma listInsertNode_after:
  assumes "dll (h, l) (ys @ (b, w) # zs)" "a \<notin> dom h"
  shows "\<exists>s. listInsertNode a (h, l) b v True = Some s \<and> dll s (ys @ (b, w) # (a, v) # zs)"
  using assms dll_fresh [OF assms]
  by (cases zs) (auto simp: listInsertNode_def dll_def heap_ops image_Un last_or_neq)

lemma listInsertNode_before:
  assumes "dll (h, l) (ys @ (b, w) # zs)" "a \<notin> dom h"
  shows "\<exists>s. listInsertNode a (h, l) b v False = Some s \<and> dll s (ys @ (a, v) # (b, w) # zs)"
  using assms dll_fresh [OF assms]
  by (cases ys rule: rev_cases) (auto simp: listInsertNode_def dll_def heap_ops image_Un hd_or_neq)

subsection \<open>Deletion\<close>

lemma listDelNode_spec:
  assumes "dll (h, l) (ys @ (b, w) # zs)"
  shows "\<exists>s. listDelNode (h, l) b = Some s \<and> dll s (ys @ zs) \<and> fst s b = None"
  using assms
  by (cases ys rule: rev_cases; cases zs) (auto simp: listDelNode_def dll_def heap_ops)

lemma empty_loop_spec:
  "seg h p xs None \<Longrightarrow> distinct (map fst xs) \<Longrightarrow>
    empty_loop h (hd_or xs None) (length xs) = Some (h |` (- fst ` set xs))"
proof (induction xs arbitrary: h p)
  case (Cons x xs)
  have "empty_loop (h(fst x := None)) (hd_or xs None) (length xs) = Some ((h(fst x := None)) |` (- fst ` set xs))"
    by (rule Cons.IH [where p = "Some (fst x)", OF seg_upd [THEN iffD2]]) (use Cons.prems in simp_all)
  moreover have "(h(fst x := None)) |` (- fst ` set xs) = h |` (- fst ` set (x # xs))"
    by (auto simp: restrict_map_def)
  ultimately show ?case using Cons.prems by (simp add: load_def)
qed (simp add: restrict_map_def)

lemma listEmpty_spec:
  assumes "dll (h, l) xs"
  shows "\<exists>s. listEmpty (h, l) = Some s \<and> dll s [] \<and> fst s = h |` (- fst ` set xs)"
  using assms empty_loop_spec [of h None xs] by (auto simp: listEmpty_def dll_def)

subsection \<open>Iteration and search\<close>

definition iter_at :: "(nat \<times> 'v) list \<Rightarrow> listIter" where
  "iter_at xs = \<lparr>it_next = hd_or xs None, it_direction = AL_START_HEAD\<rparr>"

lemma listNext_spec:
  "seg h p xs None \<Longrightarrow>
    listNext h (iter_at xs) = Some (hd_or xs None, iter_at (tl xs))"
  by (cases xs) (auto simp: listNext_def iter_at_def)

lemma listRewind_spec: "dll (h, l) xs \<Longrightarrow> listRewind l = iter_at xs"
  by (simp add: listRewind_def iter_at_def dll_def)

lemma search_key_loop_spec:
  "seg h p xs None \<Longrightarrow> search_key_loop match h (iter_at xs) key =
     Some (map_option fst (List.find (\<lambda>x. match (snd x) key) xs))"
proof (induction xs arbitrary: p)
  case Nil
  then show ?case using listNext_spec [of h p "[]"] by (subst search_key_loop.simps) simp
next
  case (Cons x xs)
  then show ?case using listNext_spec [of h p "x # xs"] Cons.IH [of "Some (fst x)"]
    by (subst search_key_loop.simps) simp
qed

lemma listSearchKey_spec:
  "dll (h, l) xs \<Longrightarrow> listSearchKey match (h, l) key =
     Some (map_option fst (List.find (\<lambda>x. match (snd x) key) xs))"
  using search_key_loop_spec [of h None xs match key] listRewind_spec [of h l xs]
  by (simp add: listSearchKey_def dll_def)

lemma walk_next_spec:
  "seg h p xs None \<Longrightarrow> walk n_next h (hd_or xs None) i = Some (hd_or (drop i xs) None)"
proof (induction i arbitrary: p xs)
  case (Suc i)
  then show ?case by (cases xs) auto
qed simp

lemma walk_prev_spec:
  "seg h None xs q \<Longrightarrow> walk n_prev h (last_or xs None) i = Some (last_or (take (length xs - i) xs) None)"
proof (induction i arbitrary: q xs)
  case (Suc i)
  then show ?case by (cases xs rule: rev_cases) auto
qed simp

lemma listIndex_spec:
  assumes "dll (h, l) xs"
  shows "listIndex (h, l) i = Some
    (if 0 \<le> i \<and> nat i < length xs then Some (fst (xs ! nat i))
     else if i < 0 \<and> nat (- i) \<le> length xs then Some (fst (xs ! (length xs - nat (- i)))) else None)"
proof (cases "i < 0")
  case True
  define k where "k = nat (- i)"
  have k: "0 < k" "nat (- i - 1) = k - 1" using True by (auto simp: k_def)
  have "walk n_prev h (last_or xs None) (k - 1) = Some (last_or (take (length xs - (k - 1)) xs) None)"
    by (rule walk_prev_spec [where q = None]) (use assms in \<open>simp add: dll_def\<close>)
  moreover have "last_or (take (length xs - (k - 1)) xs) None =
      (if k \<le> length xs then Some (fst (xs ! (length xs - k))) else None)"
  proof (cases "k \<le> length xs")
    case True
    then have "length xs - (k - 1) = Suc (length xs - k)" "length xs - k < length xs" using k(1) by simp_all
    then show ?thesis using True by (simp add: take_Suc_conv_app_nth)
  qed simp
  ultimately show ?thesis using True assms k by (auto simp: listIndex_def dll_def k_def [symmetric])
next
  case False
  have "hd_or (drop (nat i) xs) None = (if nat i < length xs then Some (fst (xs ! nat i)) else None)"
    by (cases "nat i < length xs") (simp_all add: Cons_nth_drop_Suc [symmetric])
  with False assms walk_next_spec [of h None xs "nat i"] show ?thesis
    by (simp add: listIndex_def dll_def)
qed

subsection \<open>Rotation and concatenation\<close>

lemma listRotate_spec:
  assumes "dll (h, l) (xs @ [x])"
  shows "\<exists>s. listRotate (h, l) = Some s \<and> dll s (x # xs)"
proof (cases xs rule: rev_cases)
  case Nil
  with assms show ?thesis by (auto simp: listRotate_def dll_def)
next
  case (snoc ys y)
  with assms show ?thesis
    by (cases ys) (auto simp: listRotate_def dll_def heap_ops image_Un Let_def)
qed

lemma listJoin_spec:
  assumes "dll (h, l) xs" "dll (h, ol) ys" "fst ` set xs \<inter> fst ` set ys = {}"
  shows "\<exists>h' l' ol'. listJoin h l ol = Some (h', l', ol') \<and> dll (h', l') (xs @ ys) \<and> dll (h', ol') []"
  using assms
  by (cases xs rule: rev_cases; cases ys) (auto simp: listJoin_def dll_def heap_ops image_Un)

subsection \<open>Copying\<close>

definition dup_value :: "('v \<Rightarrow> 'v option) option \<Rightarrow> 'v \<Rightarrow> 'v option" where
  "dup_value dup v = (case dup of None \<Rightarrow> Some v | Some f \<Rightarrow> f v)"

lemma listAddNodeTail_frame:
  assumes "dll (h, l) ys" "listAddNodeTail a (h, l) v = Some (h', l')" "b \<noteq> a" "b \<notin> fst ` set ys"
  shows "h' b = h b"
  using assms by (cases ys rule: rev_cases) (auto simp: listAddNodeTail_def dll_def heap_ops split: if_splits)

lemma seg_cong: "(\<And>x. x \<in> set xs \<Longrightarrow> h (fst x) = h' (fst x)) \<Longrightarrow> seg h p xs q = seg h' p xs q"
  by (induction xs arbitrary: p) auto

lemma dup_loop_spec:
  assumes "seg h0 p xs None" "dll (h, copy) ys" "\<forall>b. b \<notin> fst ` set ys \<longrightarrow> h b = h0 b"
    "fst ` set ys \<inter> dom h0 = {}" "distinct as" "set as \<inter> dom h0 = {}" "set as \<inter> fst ` set ys = {}"
    "length xs \<le> length as"
  shows "case those (map (\<lambda>x. dup_value dup (snd x)) xs) of
      None \<Rightarrow> dup_loop dup as h copy (iter_at xs) = Some (h0, None)
    | Some ws \<Rightarrow> \<exists>h' c. dup_loop dup as h copy (iter_at xs) = Some (h', Some c) \<and>
        dll (h', c) (ys @ zip as ws) \<and> (\<forall>b. b \<notin> fst ` set (ys @ zip as ws) \<longrightarrow> h' b = h0 b)"
  using assms
proof (induction xs arbitrary: p h copy ys as)
  case Nil
  have "dup_loop dup as h copy \<lparr>it_next = None, it_direction = AL_START_HEAD\<rparr> = Some (h, Some copy)"
    by (subst dup_loop.simps) (simp add: listNext_def)
  with Nil show ?case by (auto simp: iter_at_def)
next
  case (Cons x xs)
  have xd: "fst x \<notin> fst ` set ys" using Cons.prems(1,4) by auto
  have hx: "h (fst x) = Some \<lparr>n_prev = p, n_next = hd_or xs None, n_value = snd x\<rparr>"
    using Cons.prems(1,3) xd by simp
  have nx: "listNext h (iter_at (x # xs)) = Some (Some (fst x), iter_at xs)"
    using hx by (simp add: listNext_def iter_at_def)
  obtain a as' where as: "as = a # as'" using Cons.prems(8) by (cases as) auto
  show ?case
  proof (cases "dup_value dup (snd x)")
    case None
    obtain s where s: "listEmpty (h, copy) = Some s" "fst s = h |` (- fst ` set ys)"
      using listEmpty_spec [OF Cons.prems(2)] by blast
    have "h |` (- fst ` set ys) = h0"
    proof
      fix b show "(h |` (- fst ` set ys)) b = h0 b"
        using Cons.prems(3,4) by (cases "b \<in> fst ` set ys"; cases "h0 b") (auto simp: disjoint_iff domI)
    qed
    with s None nx hx show ?thesis
      by (subst dup_loop.simps) (cases s, auto simp: dup_value_def split: option.splits)
  next
    case (Some w)
    have fresh: "a \<notin> dom h" using Cons.prems(3,6,7) as by (auto simp: domIff)
    obtain h1 c1 where t: "listAddNodeTail a (h, copy) w = Some (h1, c1)" "dll (h1, c1) (ys @ [(a, w)])"
      using listAddNodeTail_spec [OF Cons.prems(2) fresh, of w] by auto
    note fr = listAddNodeTail_frame [OF Cons.prems(2) t(1)]
    have step: "dup_loop dup as h copy (iter_at (x # xs)) = dup_loop dup as' h1 c1 (iter_at xs)"
      using nx hx Some t(1) as by (subst dup_loop.simps) (auto simp: dup_value_def split: option.splits)
    have IH: "case those (map (\<lambda>x. dup_value dup (snd x)) xs) of
        None \<Rightarrow> dup_loop dup as' h1 c1 (iter_at xs) = Some (h0, None)
      | Some ws \<Rightarrow> \<exists>h' c. dup_loop dup as' h1 c1 (iter_at xs) = Some (h', Some c) \<and>
          dll (h', c) ((ys @ [(a, w)]) @ zip as' ws) \<and>
          (\<forall>b. b \<notin> fst ` set ((ys @ [(a, w)]) @ zip as' ws) \<longrightarrow> h' b = h0 b)"
      by (rule Cons.IH [OF _ t(2)]) (use Cons.prems as fr in \<open>auto simp: image_Un\<close>)
    then show ?thesis unfolding step
      using Some as by (auto split: option.splits)
  qed
qed

subsection \<open>Guarantees\<close>

text \<open>C25: \<open>listInsertNode\<close> with a freshly allocated node keeps the list well linked in both directions and
  inserts the value right after or right before the given node; nothing is read or written
  through a dangling pointer.\<close>

theorem listInsertNode_correct:
  assumes "dll (h, l) (ys @ (b, w) # zs)" "a \<notin> dom h"
  shows "\<exists>s. listInsertNode a (h, l) b v after = Some s \<and>
    dll s (if after then ys @ (b, w) # (a, v) # zs else ys @ (a, v) # (b, w) # zs)"
  using listInsertNode_after [OF assms, of v] listInsertNode_before [OF assms, of v] by (cases after) simp_all

theorem listInsertNode_correct_witness:
  "\<exists>s. listInsertNode 9 ([4 \<mapsto> \<lparr>n_prev = None, n_next = None, n_value = ''x''\<rparr>],
       \<lparr>l_head = Some 4, l_tail = Some 4, l_len = 1\<rparr>) 4 ''y'' False = Some s \<and> dll s [(9, ''y''), (4, ''x'')]"
  using listInsertNode_correct [of "[4 \<mapsto> \<lparr>n_prev = None, n_next = None, n_value = ''x''\<rparr>]"
      "\<lparr>l_head = Some 4, l_tail = Some 4, l_len = 1\<rparr>" "[]" 4 "''x''" "[]" 9 "''y''" False]
  by (simp add: dll_def)



text \<open>C26: \<open>listDup\<close> either copies every value, in order, into a well-formed list of new nodes, or, when
  the \<open>dup\<close> method fails on some value, frees what it allocated and leaves the heap exactly as it
  was; the original list is intact in both cases.\<close>

theorem listDup_correct:
  assumes "dll (h, l) xs" "distinct as" "set as \<inter> dom h = {}" "length xs \<le> length as"
  shows "case those (map (\<lambda>x. dup_value dup (snd x)) xs) of
      None \<Rightarrow> listDup dup as h l = Some (h, None)
    | Some ws \<Rightarrow> \<exists>h' c. listDup dup as h l = Some (h', Some c) \<and> dll (h', c) (zip as ws) \<and> dll (h', l) xs"
proof -
  have sg: "seg h None xs None" using assms(1) by (simp add: dll_def)
  have new: "dll (h, listCreate) []" by (simp add: dll_def listCreate_def)
  note sp = dup_loop_spec [OF sg new, of as dup, simplified, OF assms(2,3,4)]
  show ?thesis
  proof (cases "those (map (\<lambda>x. dup_value dup (snd x)) xs)")
    case None
    with sp show ?thesis by (simp add: listDup_def listRewind_spec [OF assms(1)])
  next
    case (Some ws)
    with sp obtain h' c where c: "dup_loop dup as h listCreate (iter_at xs) = Some (h', Some c)" "dll (h', c) (zip as ws)"
      "\<forall>b. b \<notin> fst ` set (zip as ws) \<longrightarrow> h' b = h b" by auto
    have "h' (fst x) = h (fst x)" if "x \<in> set xs" for x
    proof -
      have "fst x \<notin> set as" using seg_dom [OF sg that] assms(3) by auto
      then have "fst x \<notin> fst ` set (zip as ws)" by (auto dest: set_zip_leftD)
      with c(3) show ?thesis by blast
    qed
    then have "dll (h', l) xs" using assms(1) seg_cong [of xs h' h None None] by (simp add: dll_def)
    with c Some show ?thesis by (auto simp: listDup_def listRewind_spec [OF assms(1)])
  qed
qed

theorem listDup_correct_witness:
  "\<exists>h' c. listDup None [7] [4 \<mapsto> \<lparr>n_prev = None, n_next = None, n_value = ''x''\<rparr>]
     \<lparr>l_head = Some 4, l_tail = Some 4, l_len = 1\<rparr> = Some (h', Some c) \<and> dll (h', c) [(7, ''x'')]"
  using listDup_correct [of "[4 \<mapsto> \<lparr>n_prev = None, n_next = None, n_value = ''x''\<rparr>]"
      "\<lparr>l_head = Some 4, l_tail = Some 4, l_len = 1\<rparr>" "[(4, ''x'')]" "[7]" None]
  by (auto simp: dll_def dup_value_def)

end
