(* ===== verification/Lzf.thy ===== *)
theory Lzf
  imports Prelude
begin

text \<open>
  The LZF compressor and decompressor (\<open>src/lzf_c.c\<close>, \<open>src/lzf_d.c\<close>) in the configuration of
  \<open>src/lzfP.h\<close> on a 64-bit little-endian host: \<open>HLOG\<close> 16, \<open>VERY_FAST\<close>, offsets in the hash table,
  an uninitialised hash table (\<open>INIT_HTAB\<close> 0) and input checks in the decompressor
  (\<open>CHECK_INPUT\<close> 1). Input and output are byte lists; \<open>ip\<close> and \<open>op\<close> are offsets. A read or write
  outside of a buffer is \<open>None\<close>. The initial contents of the hash table are an argument.
\<close>

subsection \<open>Compressor\<close>

definition MAX_LIT :: nat where "MAX_LIT = 2 ^ 5"
definition MAX_OFF :: nat where "MAX_OFF = 2 ^ 13"
definition MAX_REF :: nat where "MAX_REF = 2 ^ 8 + 2 ^ 3"

lemmas lzf_consts = MAX_LIT_def MAX_OFF_def MAX_REF_def

definition FRST :: "bytes \<Rightarrow> nat \<Rightarrow> u32 option" where
  "FRST inp p = do {
     a \<leftarrow> rd inp (int p);
     b \<leftarrow> rd inp (int p + 1);
     Some (push_bit 8 (ucast a) OR ucast b) }"

definition NEXT :: "u32 \<Rightarrow> bytes \<Rightarrow> nat \<Rightarrow> u32 option" where
  "NEXT v inp p = do { c \<leftarrow> rd inp (int p + 2); Some (push_bit 8 v OR ucast c) }"

definition IDX :: "u32 \<Rightarrow> nat" where
  "IDX h = unat ((drop_bit 8 h - h * 5) AND 0xffff)"

type_synonym htab = "nat \<Rightarrow> u32"

text \<open>The sixteen unrolled comparisons: the length reached and whether a mismatch was met.\<close>

fun match_unrolled :: "nat \<Rightarrow> bytes \<Rightarrow> nat \<Rightarrow> nat \<Rightarrow> nat \<Rightarrow> (nat \<times> bool) option" where
  "match_unrolled 0 inp ref ip len = Some (len, False)"
| "match_unrolled (Suc k) inp ref ip len = do {
     let len = len + 1;
     a \<leftarrow> rd inp (int (ref + len));
     b \<leftarrow> rd inp (int (ip + len));
     if a \<noteq> b then Some (len, True) else match_unrolled k inp ref ip len }"

text \<open>\<open>do len++; while (len < maxlen && ref[len] == ip[len]);\<close>\<close>

function match_rest :: "bytes \<Rightarrow> nat \<Rightarrow> nat \<Rightarrow> nat \<Rightarrow> nat \<Rightarrow> nat option" where
  "match_rest inp ref ip maxlen len =
     (let len = len + 1 in
      if len < maxlen then do {
        a \<leftarrow> rd inp (int (ref + len));
        b \<leftarrow> rd inp (int (ip + len));
        if a = b then match_rest inp ref ip maxlen len else Some len }
      else Some len)"
  by pat_completeness auto
termination by (relation "measure (\<lambda>(inp, ref, ip, maxlen, len). maxlen - len)") auto

definition match_len :: "bytes \<Rightarrow> nat \<Rightarrow> nat \<Rightarrow> nat \<Rightarrow> nat option" where
  "match_len inp ref ip maxlen =
     (if maxlen > 16 then do {
        (len, mismatch) \<leftarrow> match_unrolled 16 inp ref ip 2;
        if mismatch then Some len else match_rest inp ref ip maxlen len }
      else match_rest inp ref ip maxlen 2)"

declare match_rest.simps [simp del]

text \<open>\<open>ip\<close>, \<open>op\<close>, \<open>lit\<close> and the output buffer.\<close>

type_synonym lzf_state = "nat \<times> nat \<times> nat \<times> bytes"

text \<open>\<open>lit++; *op++ = *ip++;\<close> and the end of a full run.\<close>

definition lit_step :: "bytes \<Rightarrow> lzf_state \<Rightarrow> lzf_state option" where
  "lit_step inp = (\<lambda>(ip, op, lit, out). do {
     b \<leftarrow> rd inp (int ip);
     out \<leftarrow> wr out (int op) b;
     let lit = lit + 1;
     let op = op + 1;
     let ip = ip + 1;
     if lit = MAX_LIT then do {
       out \<leftarrow> wr out (int op - int lit - 1) (word_of_int (int lit - 1));
       Some (ip, op + 1, 0, out) }
     else Some (ip, op, lit, out) })"

text \<open>A match at \<open>ref\<close>: \<open>Some None\<close> is \<open>return 0\<close>.\<close>

definition match_step :: "bytes \<Rightarrow> nat \<Rightarrow> lzf_state \<Rightarrow> nat \<Rightarrow> nat \<Rightarrow> lzf_state option option" where
  "match_step inp out_len = (\<lambda>(ip, op, lit, out) ref off.
     let maxlen = length inp - ip - 2;
         maxlen = (if maxlen > MAX_REF then MAX_REF else maxlen);
         undo = (if lit = 0 then 1 else 0)
     in if op + 3 + 1 \<ge> out_len \<and> int op - undo + 3 + 1 \<ge> int out_len then Some None
        else do {
          out \<leftarrow> wr out (int op - int lit - 1) (word_of_int (int lit - 1));
          let op = nat (int op - undo);
          len \<leftarrow> match_len inp ref ip maxlen;
          let len = len - 2;
          let ip = ip + 1;
          (op, out) \<leftarrow>
            (if len < 7 then do {
               out \<leftarrow> wr out (int op) (word_of_nat (off div 256 + len * 32));
               Some (op + 1, out) }
             else do {
               out \<leftarrow> wr out (int op) (word_of_nat (off div 256 + 7 * 32));
               out \<leftarrow> wr out (int op + 1) (word_of_nat (len - 7));
               Some (op + 2, out) });
          out \<leftarrow> wr out (int op) (word_of_nat off);
          Some (Some (ip + len + 1, op + 1 + 1, 0, out)) })"

text \<open>The test that \<open>ref\<close> is a usable earlier occurrence of the three bytes at \<open>ip\<close>.\<close>

definition is_match :: "bytes \<Rightarrow> nat \<Rightarrow> nat \<Rightarrow> bool option" where
  "is_match inp ref ip =
     (let off = (int ip - int ref - 1) mod 2 ^ 64 in
      if off < int MAX_OFF \<and> ref > 0 then do {
        r2 \<leftarrow> rd inp (int ref + 2);
        i2 \<leftarrow> rd inp (int ip + 2);
        if r2 = i2 then do {
          r0 \<leftarrow> rd inp (int ref);
          r1 \<leftarrow> rd inp (int ref + 1);
          i0 \<leftarrow> rd inp (int ip);
          i1 \<leftarrow> rd inp (int ip + 1);
          Some (r0 = i0 \<and> r1 = i1) }
        else Some False }
      else Some False)"

text \<open>The two hash table updates after a match; \<open>ip\<close> has been moved back by two.\<close>

definition rehash_tail :: "bytes \<Rightarrow> htab \<Rightarrow> nat \<Rightarrow> (u32 \<times> htab) option" where
  "rehash_tail inp htab ip = do {
     hval \<leftarrow> FRST inp ip;
     hval \<leftarrow> NEXT hval inp ip;
     let htab = htab(IDX hval := word_of_nat ip);
     hval \<leftarrow> NEXT hval inp (ip + 1);
     let htab = htab(IDX hval := word_of_nat (ip + 1));
     Some (hval, htab) }"

lemma match_unrolled_ge: "match_unrolled k inp ref ip len = Some (n, b) \<Longrightarrow> len \<le> n"
  by (induction k arbitrary: len) (fastforce simp: bind_eq_Some_conv Let_def split: if_splits)+

lemma match_rest_ge: "match_rest inp ref ip maxlen len = Some n \<Longrightarrow> len < n"
proof (induction inp ref ip maxlen len rule: match_rest.induct)
  case (1 inp ref ip maxlen len)
  from "1.prems" show ?case
    by (subst (asm) match_rest.simps) (auto simp: bind_eq_Some_conv Let_def split: if_splits dest: "1.IH" [rotated -1])
qed

lemma match_step_progress:
  "match_step inp out_len (ip, op, lit, out) ref off = Some (Some (ip', st)) \<Longrightarrow> ip < ip'"
  by (auto simp: match_step_def Let_def bind_eq_Some_conv split: if_splits)

lemma lit_step_progress: "lit_step inp (ip, op, lit, out) = Some (ip', st) \<Longrightarrow> ip' = ip + 1 \<and> ip < length inp"
  by (auto simp: lit_step_def Let_def bind_eq_Some_conv rd_def split: if_splits)

function compress_loop :: "bytes \<Rightarrow> nat \<Rightarrow> htab \<Rightarrow> u32 \<Rightarrow> lzf_state \<Rightarrow> lzf_state option option" where
  "compress_loop inp out_len htab hval (ip, op, lit, out) =
     (if int ip < int (length inp) - 2 then do {
        hval \<leftarrow> NEXT hval inp ip;
        let ref = unat (htab (IDX hval));
        let htab = htab(IDX hval := word_of_nat ip);
        m \<leftarrow> is_match inp ref ip;
        if m then do {
          r \<leftarrow> match_step inp out_len (ip, op, lit, out) ref (ip - ref - 1);
          case r of
            None \<Rightarrow> Some None
          | Some (ip, op, lit, out) \<Rightarrow>
              if int ip \<ge> int (length inp) - 2 then Some (Some (ip, op, lit, out))
              else do {
                (hval, htab) \<leftarrow> rehash_tail inp htab (ip - 2);
                compress_loop inp out_len htab hval (ip, op, lit, out) } }
        else if op \<ge> out_len then Some None
        else do {
          (ip, op, lit, out) \<leftarrow> lit_step inp (ip, op, lit, out);
          compress_loop inp out_len htab hval (ip, op, lit, out) } }
      else Some (Some (ip, op, lit, out)))"
  by pat_completeness auto
termination
  by (relation "measure (\<lambda>(inp, out_len, htab, hval, ip, op, lit, out). length inp - ip)")
    (auto dest!: match_step_progress lit_step_progress)

declare compress_loop.simps [simp del]

text \<open>\<open>while (ip < in_end)\<close> over the last bytes.\<close>

function tail_loop :: "bytes \<Rightarrow> lzf_state \<Rightarrow> lzf_state option" where
  "tail_loop inp (ip, op, lit, out) =
     (if ip < length inp then do {
        (ip, op, lit, out) \<leftarrow> lit_step inp (ip, op, lit, out);
        tail_loop inp (ip, op, lit, out) }
      else Some (ip, op, lit, out))"
  by pat_completeness auto
termination
  by (relation "measure (\<lambda>(inp, ip, op, lit, out). length inp - ip)") (auto dest!: lit_step_progress)

declare tail_loop.simps [simp del]

text \<open>\<open>Some None\<close> is \<open>return 0\<close>; otherwise the number of bytes written and the output buffer.\<close>

definition lzf_compress :: "htab \<Rightarrow> bytes \<Rightarrow> bytes \<Rightarrow> nat \<Rightarrow> (nat \<times> bytes) option option" where
  "lzf_compress htab inp out out_len =
     (if length inp = 0 \<or> out_len = 0 then Some None
      else do {
        hval \<leftarrow> FRST inp 0;
        r \<leftarrow> compress_loop inp out_len htab hval (0, 1, 0, out);
        case r of
          None \<Rightarrow> Some None
        | Some (ip, op, lit, out) \<Rightarrow>
            if op + 3 > out_len then Some None
            else do {
              (ip, op, lit, out) \<leftarrow> tail_loop inp (ip, op, lit, out);
              out \<leftarrow> wr out (int op - int lit - 1) (word_of_int (int lit - 1));
              Some (Some (op - (if lit = 0 then 1 else 0), out)) } })"

subsection \<open>Decompressor\<close>

fun byte_copy :: "bytes \<Rightarrow> nat \<Rightarrow> nat \<Rightarrow> nat \<Rightarrow> bytes option" where
  "byte_copy out op ref 0 = Some out"
| "byte_copy out op ref (Suc n) = do {
     b \<leftarrow> rd out (int ref);
     out \<leftarrow> wr out (int op) b;
     byte_copy out (op + 1) (ref + 1) n }"

text \<open>The \<open>switch (len)\<close> of a back reference: \<open>len + 2\<close> bytes.\<close>

definition copy_back :: "bytes \<Rightarrow> nat \<Rightarrow> nat \<Rightarrow> nat \<Rightarrow> bytes option" where
  "copy_back out op ref len =
     (if len \<le> 9 then byte_copy out op ref (len + 2)
      else
        let len = len + 2 in
        if op \<ge> ref + len then do { bs \<leftarrow> rdn out ref len; wrn out op bs }
        else byte_copy out op ref len)"

text \<open>The low offset byte, the checks of a back reference and its copy.\<close>

definition back_ref :: "bytes \<Rightarrow> nat \<Rightarrow> nat \<Rightarrow> nat \<Rightarrow> bytes \<Rightarrow> nat \<Rightarrow> int \<Rightarrow> (nat \<times> nat \<times> bytes) option option" where
  "back_ref inp out_len ip op out len ref = do {
     b \<leftarrow> rd inp (int ip);
     let ref = ref - int (unat b);
     let ip = ip + 1;
     if op + len + 2 > out_len then Some None
     else if ref < 0 then Some None
     else do {
       out \<leftarrow> copy_back out op (nat ref) len;
       Some (Some (ip, op + len + 2, out)) } }"

text \<open>One control byte; \<open>Some None\<close> is \<open>return 0\<close> with \<open>errno\<close> set.\<close>

definition decompress_step :: "bytes \<Rightarrow> nat \<Rightarrow> nat \<Rightarrow> nat \<Rightarrow> bytes \<Rightarrow> (nat \<times> nat \<times> bytes) option option" where
  "decompress_step inp out_len ip op out = do {
     c \<leftarrow> rd inp (int ip);
     let ctrl = unat c;
     let ip = ip + 1;
     if ctrl < 2 ^ 5 then
       let ctrl = ctrl + 1 in
       if op + ctrl > out_len then Some None
       else if ip + ctrl > length inp then Some None
       else do {
         bs \<leftarrow> rdn inp ip ctrl;
         out \<leftarrow> wrn out op bs;
         Some (Some (ip + ctrl, op + ctrl, out)) }
     else
       let len = ctrl div 32;
           ref = int op - int (ctrl mod 32 * 256) - 1
       in if ip \<ge> length inp then Some None
          else do {
            (len, ip) \<leftarrow> (if len = 7 then do { b \<leftarrow> rd inp (int ip); Some (len + unat b, ip + 1) } else Some (len, ip));
            if ctrl div 32 = 7 \<and> ip \<ge> length inp then Some None
            else back_ref inp out_len ip op out len ref } }"

lemma decompress_step_progress:
  "decompress_step inp out_len ip op out = Some (Some (ip', st)) \<Longrightarrow> ip < ip' \<and> ip < length inp"
  by (auto simp: decompress_step_def back_ref_def Let_def bind_eq_Some_conv rd_def split: if_splits)

function decompress_loop :: "bytes \<Rightarrow> nat \<Rightarrow> nat \<Rightarrow> nat \<Rightarrow> bytes \<Rightarrow> (nat \<times> bytes) option" where
  "decompress_loop inp out_len ip op out = do {
     r \<leftarrow> decompress_step inp out_len ip op out;
     case r of
       None \<Rightarrow> Some (0, out)
     | Some (ip, op, out) \<Rightarrow>
         if ip < length inp then decompress_loop inp out_len ip op out else Some (op, out) }"
  by pat_completeness auto
termination
  by (relation "measure (\<lambda>(inp, out_len, ip, op, out). length inp - ip)")
    (auto dest!: decompress_step_progress)

declare decompress_loop.simps [simp del]

definition lzf_decompress :: "bytes \<Rightarrow> bytes \<Rightarrow> nat \<Rightarrow> (nat \<times> bytes) option" where
  "lzf_decompress inp out out_len = decompress_loop inp out_len 0 0 out"

subsection \<open>The decompressor stays inside its buffers\<close>

lemma byte_copy_safe:
  "ref < op \<Longrightarrow> op + n \<le> length out \<Longrightarrow> \<exists>out'. byte_copy out op ref n = Some out' \<and> length out' = length out"
proof (induction n arbitrary: out op ref)
  case (Suc n)
  have "\<exists>out'. byte_copy (out[op := out ! ref]) (op + 1) (ref + 1) n = Some out' \<and>
      length out' = length (out[op := out ! ref])"
    by (rule Suc.IH) (use Suc.prems in simp_all)
  with Suc.prems show ?case by simp
qed simp

lemma copy_back_safe:
  "ref < op \<Longrightarrow> op + len + 2 \<le> length out \<Longrightarrow> \<exists>out'. copy_back out op ref len = Some out' \<and> length out' = length out"
  using byte_copy_safe [of ref op "len + 2" out]
  by (auto simp: copy_back_def rdn_def wrn_def Let_def)

lemma rd_Suc [simp]: "Suc n < length xs \<Longrightarrow> rd xs (1 + int n) = Some (xs ! Suc n)"
  using rd_nat [of "Suc n" xs] by simp

lemma back_ref_safe:
  assumes "ip < length inp" "out_len \<le> length out" "ref < int op"
  shows "back_ref inp out_len ip op out len ref = Some None \<or>
    (\<exists>ip' op' out'. back_ref inp out_len ip op out len ref = Some (Some (ip', op', out')) \<and>
       op' \<le> out_len \<and> length out' = length out)"
proof (cases "op + len + 2 > out_len \<or> ref - int (unat (inp ! ip)) < 0")
  case True
  then show ?thesis using assms(1) by (auto simp: back_ref_def Let_def)
next
  case False
  then have "nat (ref - int (unat (inp ! ip))) < op" "op + len + 2 \<le> length out" using assms by linarith+
  from copy_back_safe [OF this] obtain out' where
    "copy_back out op (nat (ref - int (unat (inp ! ip)))) len = Some out'" "length out' = length out" by blast
  then show ?thesis using False assms(1) by (simp add: back_ref_def Let_def)
qed

lemma decompress_step_safe:
  assumes "ip < length inp" "op \<le> out_len" "out_len \<le> length out"
  shows "decompress_step inp out_len ip op out = Some None \<or>
    (\<exists>ip' op' out'. decompress_step inp out_len ip op out = Some (Some (ip', op', out')) \<and>
       op' \<le> out_len \<and> length out' = length out)"
proof (cases "unat (inp ! ip) < 32")
  case True
  then show ?thesis using assms by (auto simp: decompress_step_def Let_def rdn_def wrn_def)
next
  case False
  have "back_ref inp out_len i op out len (int op - int (c mod 32 * 256) - 1) = Some None \<or>
    (\<exists>ip' op' out'. back_ref inp out_len i op out len (int op - int (c mod 32 * 256) - 1) = Some (Some (ip', op', out')) \<and>
       op' \<le> out_len \<and> length out' = length out)" if "i < length inp" for i len c
    by (rule back_ref_safe) (use that assms in simp_all)
  note br = this [where c = "unat (inp ! ip)"]
  show ?thesis
  proof (cases "unat (inp ! ip) div 32 = 7")
    case True
    then show ?thesis using False assms br [of "ip + 2"]
      by (cases "Suc ip < length inp") (simp_all add: decompress_step_def Let_def)
  next
    case nlong: False
    then show ?thesis using False assms br [of "ip + 1"] by (simp add: decompress_step_def Let_def)
  qed
qed

lemma decompress_loop_safe:
  assumes "ip < length inp" "op \<le> out_len" "out_len \<le> length out"
  shows "\<exists>n out'. decompress_loop inp out_len ip op out = Some (n, out') \<and> n \<le> out_len \<and> length out' = length out"
  using assms
proof (induction inp out_len ip op out rule: decompress_loop.induct)
  case (1 inp out_len ip op out)
  show ?case
  proof (cases "decompress_step inp out_len ip op out = Some None")
    case True
    then show ?thesis by (subst decompress_loop.simps) simp
  next
    case False
    then obtain ip' op' out' where st: "decompress_step inp out_len ip op out = Some (Some (ip', op', out'))"
      "op' \<le> out_len" "length out' = length out"
      using decompress_step_safe [OF "1.prems"] by auto
    with "1.IH" [OF st(1) refl refl refl] "1.prems" show ?thesis
      by (subst decompress_loop.simps) auto
  qed
qed

subsection \<open>Tokens\<close>

text \<open>The compressed format: literal runs and back references of \<open>n\<close> bytes at distance \<open>off + 1\<close>.\<close>

datatype tok = Lit bytes | Ref nat nat

primrec copy_ref :: "bytes \<Rightarrow> nat \<Rightarrow> nat \<Rightarrow> bytes" where
  "copy_ref acc d 0 = acc"
| "copy_ref acc d (Suc n) = copy_ref (acc @ [acc ! (length acc - d)]) d n"

fun enc :: "tok \<Rightarrow> bytes" where
  "enc (Lit bs) = word_of_nat (length bs - 1) # bs"
| "enc (Ref off n) =
     (if n - 2 < 7 then [word_of_nat (off div 256 + (n - 2) * 32), word_of_nat off]
      else [word_of_nat (off div 256 + 7 * 32), word_of_nat (n - 2 - 7), word_of_nat off])"

fun sem :: "bytes \<Rightarrow> tok \<Rightarrow> bytes" where
  "sem acc (Lit bs) = acc @ bs"
| "sem acc (Ref off n) = copy_ref acc (off + 1) n"

fun tok_ok :: "bytes \<Rightarrow> tok \<Rightarrow> bool" where
  "tok_ok acc (Lit bs) \<longleftrightarrow> 0 < length bs \<and> length bs \<le> 32"
| "tok_ok acc (Ref off n) \<longleftrightarrow> off < 8192 \<and> off < length acc \<and> 3 \<le> n \<and> n \<le> 264"

fun toks_ok :: "bytes \<Rightarrow> tok list \<Rightarrow> bool" where
  "toks_ok acc [] \<longleftrightarrow> True"
| "toks_ok acc (t # ts) \<longleftrightarrow> tok_ok acc t \<and> toks_ok (sem acc t) ts"

abbreviation encs :: "tok list \<Rightarrow> bytes" where
  "encs ts \<equiv> concat (map enc ts)"

abbreviation expand :: "bytes \<Rightarrow> tok list \<Rightarrow> bytes" where
  "expand acc ts \<equiv> foldl sem acc ts"

lemma length_copy_ref [simp]: "length (copy_ref acc d n) = length acc + n"
  by (induction n arbitrary: acc) simp_all

lemma toks_ok_append: "toks_ok acc (ts @ us) \<longleftrightarrow> toks_ok acc ts \<and> toks_ok (expand acc ts) us"
  by (induction ts arbitrary: acc) auto

lemma byte_copy_ref:
  "0 < d \<Longrightarrow> d \<le> length acc \<Longrightarrow> n \<le> length rest \<Longrightarrow>
    byte_copy (acc @ rest) (length acc) (length acc - d) n = Some (copy_ref acc d n @ drop n rest)"
proof (induction n arbitrary: acc rest)
  case (Suc n)
  obtain r rest' where rest: "rest = r # rest'" using Suc.prems(3) by (cases rest) auto
  have eq: "(acc @ rest)[length acc := acc ! (length acc - d)] = (acc @ [acc ! (length acc - d)]) @ rest'"
    by (simp add: rest list_update_append)
  have "byte_copy ((acc @ [acc ! (length acc - d)]) @ rest') (length (acc @ [acc ! (length acc - d)]))
      (length (acc @ [acc ! (length acc - d)]) - d) n =
    Some (copy_ref (acc @ [acc ! (length acc - d)]) d n @ drop n rest')"
    by (rule Suc.IH) (use Suc.prems rest in simp_all)
  moreover have "Suc (length acc - d) = Suc (length acc) - d" using Suc.prems(2) by simp
  moreover have "rd (acc @ rest) (int (length acc - d)) = Some (acc ! (length acc - d))"
    by (rule trans [OF rd_nat]) (use Suc.prems in \<open>auto simp: nth_append\<close>)
  ultimately show ?case using Suc.prems rest eq by (simp del: of_nat_diff)
qed simp

lemma copy_ref_disjoint:
  "0 < d \<Longrightarrow> d \<le> length acc \<Longrightarrow> n \<le> d \<Longrightarrow> copy_ref acc d n = acc @ take n (drop (length acc - d) acc)"
proof (induction n arbitrary: acc)
  case (Suc n)
  let ?acc = "acc @ [acc ! (length acc - d)]"
  have "copy_ref ?acc d n = ?acc @ take n (drop (length ?acc - d) ?acc)"
    by (rule Suc.IH) (use Suc.prems in simp_all)
  moreover have "take n (drop (length ?acc - d) ?acc) = take n (drop (Suc (length acc - d)) acc)"
    using Suc.prems by (simp add: Suc_diff_le)
  moreover have "take (Suc n) (drop (length acc - d) acc) =
      acc ! (length acc - d) # take n (drop (Suc (length acc - d)) acc)"
    using Suc.prems by (simp add: Cons_nth_drop_Suc [symmetric])
  ultimately show ?case by simp
qed simp

lemma copy_back_spec:
  assumes "off < length acc" "n + 2 \<le> length rest"
  shows "copy_back (acc @ rest) (length acc) (length acc - (off + 1)) n =
    Some (copy_ref acc (off + 1) (n + 2) @ drop (n + 2) rest)"
proof -
  note bc = byte_copy_ref [of "off + 1" acc "n + 2" rest]
  have "put (acc @ rest) (length acc) (take (n + 2) (drop (length acc - (off + 1)) acc)) =
      copy_ref acc (off + 1) (n + 2) @ drop (n + 2) rest" if "n + 2 \<le> off + 1"
    using copy_ref_disjoint [of "off + 1" acc "n + 2"] that assms by (simp add: put_def)
  then show ?thesis using bc assms by (auto simp: copy_back_def Let_def rdn_def wrn_def)
qed

lemma back_ref_spec:
  assumes "i < length inp" "unat (inp ! i) = off mod 256" "off < length acc" "n + 2 = m"
    "length acc + m \<le> out_len" "out_len \<le> length acc + length rest"
    "ref = int (length acc) - int (off div 256 * 256) - 1"
  shows "back_ref inp out_len i (length acc) (acc @ rest) n ref =
    Some (Some (i + 1, length acc + m, copy_ref acc (off + 1) m @ drop m rest))"
proof -
  have "int (off div 256 * 256) + int (off mod 256) = int off" by (simp flip: of_nat_add of_nat_mult)
  then have r: "nat (ref - int (off mod 256)) = length acc - (off + 1)" "\<not> ref - int (off mod 256) < 0"
    using assms(3,7) by linarith+
  have c: "copy_back (acc @ rest) (length acc) (length acc - (off + 1)) n =
      Some (copy_ref acc (off + 1) m @ drop m rest)"
    unfolding assms(4) [symmetric] by (rule copy_back_spec) (use assms in simp_all)
  show ?thesis using assms(1,2,4-6) r c by (simp add: back_ref_def Let_def del: of_nat_unat)
qed

lemma ctrl_split: "h < 32 \<Longrightarrow> (h + k * 32) div 32 = k" "h < 32 \<Longrightarrow> (h + k * 32) mod 32 = (h :: nat)"
  by simp_all

lemma unat_byte [simp]: "n < 256 \<Longrightarrow> unat (word_of_nat n :: u8) = n"
  by (simp add: unat_of_nat take_bit_nat_eq_self)

lemma decompress_step_lit:
  assumes "tok_ok acc (Lit bs)" "length acc + length bs \<le> out_len" "out_len \<le> length acc + length rest"
  shows "decompress_step (pre @ enc (Lit bs) @ post) out_len (length pre) (length acc) (acc @ rest) =
    Some (Some (length pre + length (enc (Lit bs)), length acc + length bs, (acc @ bs) @ drop (length bs) rest))"
proof -
  obtain b bs' where bs: "bs = b # bs'" using assms(1) by (cases bs) simp_all
  have "unat (word_of_nat (length bs') :: u8) = length bs'"
    by (rule unat_byte) (use assms(1) bs in simp)
  then show ?thesis using assms bs
    by (simp add: decompress_step_def Let_def nth_append rdn_def wrn_def put_def)
qed

lemma decompress_step_ref:
  assumes ok: "tok_ok acc (Ref off n)" and len: "length acc + n \<le> out_len" "out_len \<le> length acc + length rest"
  shows "decompress_step (pre @ enc (Ref off n) @ post) out_len (length pre) (length acc) (acc @ rest) =
    Some (Some (length pre + length (enc (Ref off n)), length acc + n, copy_ref acc (off + 1) n @ drop n rest))"
proof -
  have off: "off < 8192" "off < length acc" and n: "n - 2 + 2 = n" "3 \<le> n" "n \<le> 264" using ok by auto
  have hi: "off div 256 < 32" using off by simp
  have br: "back_ref inp out_len i (length acc) (acc @ rest) (n - 2) (int (length acc) - int (off div 256 * 256) - 1) =
      Some (Some (i + 1, length acc + n, copy_ref acc (off + 1) n @ drop n rest))"
    if "i < length inp" "inp ! i = word_of_nat off" for i inp
    by (rule back_ref_spec) (use that off n len in \<open>simp_all add: unat_of_nat take_bit_eq_mod\<close>)
  show ?thesis
  proof (cases "n - 2 < 7")
    case True
    have c: "unat (word_of_nat (off div 256 + (n - 2) * 32) :: u8) = off div 256 + (n - 2) * 32"
      by (rule unat_byte) (use True hi in linarith)
    have "(off div 256 + (n - 2) * 32) div 32 = n - 2" "(off div 256 + (n - 2) * 32) mod 32 = off div 256"
      using hi by simp_all
    then show ?thesis using c True n hi br [of "Suc (length pre)" "pre @ enc (Ref off n) @ post"]
      by (simp add: decompress_step_def Let_def nth_append del: of_nat_add of_nat_mult of_nat_diff)
  next
    case False
    have c: "unat (word_of_nat (off div 256 + 7 * 32) :: u8) = off div 256 + 7 * 32"
      "unat (word_of_nat (n - 2 - 7) :: u8) = n - 2 - 7"
      by (rule unat_byte; use hi n in linarith)+
    have "(off div 256 + 7 * 32) div 32 = 7" "(off div 256 + 7 * 32) mod 32 = off div 256"
      "7 + (n - 2 - 7) = n - 2"
      using ctrl_split [OF hi, of 7] n False by simp_all
    then show ?thesis using c False n hi br [of "Suc (Suc (length pre))" "pre @ enc (Ref off n) @ post"]
      by (simp add: decompress_step_def Let_def nth_append del: of_nat_add of_nat_mult of_nat_diff)
  qed
qed

lemma decompress_step_tok:
  assumes "tok_ok acc t" "length (sem acc t) \<le> out_len" "out_len \<le> length acc + length rest"
  shows "\<exists>rest'. decompress_step (pre @ enc t @ post) out_len (length pre) (length acc) (acc @ rest) =
      Some (Some (length (pre @ enc t), length (sem acc t), sem acc t @ rest')) \<and>
    length (sem acc t) + length rest' = length acc + length rest \<and>
    rest' = drop (length (sem acc t) - length acc) rest"
  using assms decompress_step_lit [of acc _ out_len rest pre post] decompress_step_ref [of acc _ _ out_len rest pre post]
  by (cases t) (simp_all del: enc.simps)

lemma length_expand: "length acc \<le> length (expand acc ts)"
proof (induction ts arbitrary: acc)
  case (Cons t ts)
  have "length acc \<le> length (sem acc t)" by (cases t) simp_all
  with Cons.IH [of "sem acc t"] show ?case by simp
qed simp

lemma length_enc_pos [simp]: "0 < length (enc t)" "enc t \<noteq> []"
  by (cases t; simp)+

lemma decompress_loop_toks:
  assumes "toks_ok acc ts" "ts \<noteq> []" "length (expand acc ts) \<le> out_len" "out_len \<le> length acc + length rest"
  shows "decompress_loop (pre @ encs ts) out_len (length pre) (length acc) (acc @ rest) =
    Some (length (expand acc ts), expand acc ts @ drop (length (expand acc ts) - length acc) rest)"
  using assms
proof (induction ts arbitrary: acc pre rest)
  case (Cons t ts)
  have le: "length (sem acc t) \<le> out_len" "length acc \<le> length (sem acc t)"
    using Cons.prems(3) length_expand [of "sem acc t" ts] length_expand [of acc "[t]"] by simp_all
  obtain rest' where st: "decompress_step (pre @ enc t @ encs ts) out_len (length pre) (length acc) (acc @ rest) =
      Some (Some (length (pre @ enc t), length (sem acc t), sem acc t @ rest'))"
    and l: "length (sem acc t) + length rest' = length acc + length rest"
    and r: "rest' = drop (length (sem acc t) - length acc) rest"
    using decompress_step_tok [of acc t out_len rest pre "encs ts"] Cons.prems le by auto
  show ?case
  proof (cases "ts = []")
    case True
    then show ?thesis using st r by (subst decompress_loop.simps) simp
  next
    case False
    have "decompress_loop ((pre @ enc t) @ encs ts) out_len (length (pre @ enc t)) (length (sem acc t)) (sem acc t @ rest') =
      Some (length (expand (sem acc t) ts), expand (sem acc t) ts @ drop (length (expand (sem acc t) ts) - length (sem acc t)) rest')"
      by (rule Cons.IH) (use Cons.prems False l in simp_all)
    moreover have "encs ts \<noteq> []" using False by (cases ts) simp_all
    ultimately show ?thesis using st r le length_expand [of "sem acc t" ts] by (subst decompress_loop.simps) simp
  qed
qed simp

subsection \<open>The compressor writes tokens of its input\<close>

lemma match_unrolled_spec:
  assumes "\<forall>j\<le>len. inp ! (ref + j) = inp ! (ip + j)" "ip + len + k < length inp" "ref < ip"
  shows "\<exists>n b. match_unrolled k inp ref ip len = Some (n, b) \<and> n \<le> len + k \<and>
    (\<forall>j<n. inp ! (ref + j) = inp ! (ip + j)) \<and>
    (if b then len < n else n = len + k \<and> inp ! (ref + n) = inp ! (ip + n))"
  using assms
proof (induction k arbitrary: len)
  case (Suc k)
  have r: "rd inp (int (ref + (len + 1))) = Some (inp ! (ref + (len + 1)))"
    "rd inp (int (ip + (len + 1))) = Some (inp ! (ip + (len + 1)))"
    using Suc.prems by (intro rd_nat; simp)+
  show ?case
  proof (cases "inp ! (ref + (len + 1)) = inp ! (ip + (len + 1))")
    case True
    then have all: "\<forall>j\<le>len + 1. inp ! (ref + j) = inp ! (ip + j)" using Suc.prems(1) by (simp add: le_Suc_eq)
    obtain n b where n: "match_unrolled k inp ref ip (len + 1) = Some (n, b)" "n \<le> len + 1 + k"
      "\<forall>j<n. inp ! (ref + j) = inp ! (ip + j)"
      "if b then len + 1 < n else n = len + 1 + k \<and> inp ! (ref + n) = inp ! (ip + n)"
      using Suc.IH [of "len + 1"] all Suc.prems by auto
    have "match_unrolled (Suc k) inp ref ip len = Some (n, b)"
      unfolding match_unrolled.simps Let_def r using True n(1) by simp
    moreover have "if b then len < n else n = len + Suc k \<and> inp ! (ref + n) = inp ! (ip + n)"
      using n(4) by (cases b) auto
    moreover have "n \<le> len + Suc k" using n(2) by simp
    ultimately show ?thesis using n(3) by blast
  next
    case False
    then have "match_unrolled (Suc k) inp ref ip len = Some (len + 1, True)"
      unfolding match_unrolled.simps Let_def r by simp
    with Suc.prems(1) show ?thesis by (intro exI conjI) auto
  qed
qed auto

lemma match_rest_spec:
  assumes "\<forall>j\<le>len. inp ! (ref + j) = inp ! (ip + j)" "ip + maxlen \<le> length inp" "ref < ip"
  shows "\<exists>n. match_rest inp ref ip maxlen len = Some n \<and> len < n \<and> n \<le> max (len + 1) maxlen \<and>
    (\<forall>j<n. inp ! (ref + j) = inp ! (ip + j))"
  using assms
proof (induction "maxlen - len" arbitrary: len rule: less_induct)
  case less
  show ?case
  proof (cases "len + 1 < maxlen")
    case True
    have r: "rd inp (int (ref + (len + 1))) = Some (inp ! (ref + (len + 1)))"
      "rd inp (int (ip + (len + 1))) = Some (inp ! (ip + (len + 1)))"
      using less.prems True by (intro rd_nat; simp)+
    show ?thesis
    proof (cases "inp ! (ref + (len + 1)) = inp ! (ip + (len + 1))")
      case eq: True
      then have all: "\<forall>j\<le>len + 1. inp ! (ref + j) = inp ! (ip + j)" using less.prems(1) by (simp add: le_Suc_eq)
      have "match_rest inp ref ip maxlen len = match_rest inp ref ip maxlen (len + 1)"
        using True eq r by (subst match_rest.simps) (simp add: Let_def)
      moreover have "maxlen - (len + 1) < maxlen - len" using True by simp
      ultimately show ?thesis using less.hyps [OF _ all less.prems(2,3)] True by fastforce
    next
      case False
      then have "match_rest inp ref ip maxlen len = Some (len + 1)"
        using r True by (subst match_rest.simps) (simp add: Let_def)
      then show ?thesis using less.prems(1) by auto
    qed
  next
    case False
    then have "match_rest inp ref ip maxlen len = Some (len + 1)" by (subst match_rest.simps) (simp add: Let_def)
    then show ?thesis using less.prems(1) by auto
  qed
qed

lemma match_len_spec:
  assumes "\<forall>j\<le>2. inp ! (ref + j) = inp ! (ip + j)" "ip + 2 + maxlen \<le> length inp" "ref < ip"
    "0 < maxlen" "maxlen \<le> 264"
  shows "\<exists>n. match_len inp ref ip maxlen = Some n \<and> 3 \<le> n \<and> n \<le> 264 \<and> ip + n \<le> length inp \<and>
    (\<forall>j<n. inp ! (ref + j) = inp ! (ip + j))"
proof (cases "maxlen > 16")
  case True
  obtain n b where u: "match_unrolled 16 inp ref ip 2 = Some (n, b)" "n \<le> 2 + 16"
    "\<forall>j<n. inp ! (ref + j) = inp ! (ip + j)"
    "if b then 2 < n else n = 2 + 16 \<and> inp ! (ref + n) = inp ! (ip + n)"
    using match_unrolled_spec [of 2 inp ref ip 16] assms True by auto
  show ?thesis
  proof (cases b)
    case True
    with u assms \<open>maxlen > 16\<close> show ?thesis by (simp add: match_len_def)
  next
    case False
    then have "\<forall>j\<le>n. inp ! (ref + j) = inp ! (ip + j)" using u(3,4) by (auto simp: le_less)
    then obtain m where "match_rest inp ref ip maxlen n = Some m" "n < m" "m \<le> max (n + 1) maxlen"
      "\<forall>j<m. inp ! (ref + j) = inp ! (ip + j)"
      using match_rest_spec [of n inp ref ip maxlen] assms by auto
    with u assms False \<open>maxlen > 16\<close> show ?thesis by (auto simp: match_len_def)
  qed
next
  case False
  obtain m where "match_rest inp ref ip maxlen 2 = Some m" "2 < m" "m \<le> max 3 maxlen"
    "\<forall>j<m. inp ! (ref + j) = inp ! (ip + j)"
    using match_rest_spec [of 2 inp ref ip maxlen] assms by auto
  with assms False show ?thesis by (auto simp: match_len_def)
qed

lemma copy_ref_match:
  "0 < d \<Longrightarrow> d \<le> i \<Longrightarrow> i + n \<le> length inp \<Longrightarrow> \<forall>j<n. inp ! (i - d + j) = inp ! (i + j) \<Longrightarrow>
    copy_ref (take i inp) d n = take (i + n) inp"
proof (induction n arbitrary: i)
  case (Suc n)
  have h: "inp ! (i - d) = inp ! i" using Suc.prems(4)[rule_format, of 0] by simp
  have t: "take i inp @ [inp ! (i - d)] = take (Suc i) inp"
    using Suc.prems by (simp add: h take_Suc_conv_app_nth)
  have n: "take i inp ! (i - d) = inp ! (i - d)" using Suc.prems by simp
  have "copy_ref (take (Suc i) inp) d n = take (Suc i + n) inp"
  proof (rule Suc.IH)
    show "\<forall>j<n. inp ! (Suc i - d + j) = inp ! (Suc i + j)"
    proof (intro allI impI)
      fix j assume "j < n"
      then show "inp ! (Suc i - d + j) = inp ! (Suc i + j)"
        using Suc.prems(4)[rule_format, of "Suc j"] Suc.prems(2) by (simp add: Suc_diff_le)
    qed
  qed (use Suc.prems in simp_all)
  with t n Suc.prems show ?case by (simp add: min_absorb2)
qed simp

text \<open>Before \<open>ip - lit\<close> the input has been written as tokens; then the place of the control byte of the
  current run and its \<open>lit\<close> literals.\<close>

definition run_of :: "bytes \<Rightarrow> tok list \<Rightarrow> lzf_state \<Rightarrow> bool" where
  "run_of inp ts = (\<lambda>(ip, op, lit, out).
     toks_ok [] ts \<and> expand [] ts = take (ip - lit) inp \<and> lit \<le> ip \<and> ip \<le> length inp \<and> lit < 32 \<and>
     op = length (encs ts) + 1 + lit \<and> (0 < lit \<longrightarrow> op \<le> length out) \<and>
     length (encs ts) \<le> length out \<and> take (length (encs ts)) out = encs ts \<and>
     take lit (drop (length (encs ts) + 1) out) = take lit (drop (ip - lit) inp))"

text \<open>All runs are closed: the first \<open>n\<close> bytes written are the tokens of the first \<open>ip\<close> bytes read.\<close>

definition closed :: "bytes \<Rightarrow> nat \<Rightarrow> nat \<Rightarrow> bytes \<Rightarrow> bool" where
  "closed inp ip n out \<longleftrightarrow> (\<exists>ts. toks_ok [] ts \<and> expand [] ts = take ip inp \<and>
     n \<le> length out \<and> take n out = encs ts)"

lemma take_run: "b + lit < length out \<Longrightarrow> take (b + 1 + lit) (out[b := x]) = take b out @ x # take lit (drop (b + 1) out)"
proof -
  assume "b + lit < length out"
  then have "drop b (out[b := x]) = x # drop (b + 1) out"
    by (simp add: drop_update_swap Cons_nth_drop_Suc [symmetric])
  then show ?thesis using take_add [of b "1 + lit" "out[b := x]"] by (simp add: add.assoc)
qed

lemma ctrl_byte: "0 < lit \<Longrightarrow> word_of_int (int lit - 1) = (word_of_nat (lit - 1) :: u8)"
  by (simp add: of_nat_diff)

lemma closed_run_of: "closed inp ip n out \<Longrightarrow> ip \<le> length inp \<Longrightarrow> \<exists>ts. run_of inp ts (ip, n + 1, 0, out)"
proof -
  assume "closed inp ip n out" "ip \<le> length inp"
  then obtain ts where ts: "toks_ok [] ts" "expand [] ts = take ip inp" "n \<le> length out" "take n out = encs ts"
    by (auto simp: closed_def)
  then have "n = length (encs ts)" by (metis length_take min_absorb2)
  with ts \<open>ip \<le> length inp\<close> have "run_of inp ts (ip, n + 1, 0, out)" by (simp add: run_of_def)
  then show ?thesis ..
qed

lemma close_run:
  assumes run: "run_of inp ts (ip, op, lit, out)" and room: "length (encs ts) < length out"
  shows "\<exists>out'. wr out (int op - int lit - 1) (word_of_int (int lit - 1)) = Some out' \<and> length out' = length out \<and>
    closed inp ip (op - (if lit = 0 then 1 else 0)) out'"
proof -
  let ?b = "length (encs ts)" and ?w = "word_of_int (int lit - 1) :: u8"
  let ?bs = "take lit (drop (ip - lit) inp)"
  note r = run [unfolded run_of_def split]
  have op: "int op - int lit - 1 = int ?b" using r by simp
  have w: "wr out (int op - int lit - 1) ?w = Some (out[?b := ?w])" unfolding op by (rule wr_nat) (rule room)
  show ?thesis
  proof (cases "lit = 0")
    case True
    then show ?thesis using w r by (auto simp: closed_def intro!: exI [of _ ts])
  next
    case False
    then have len: "length ?bs = lit" "?b + lit < length out" "op = ?b + 1 + lit" using r by auto
    have "expand [] (ts @ [Lit ?bs]) = take ip inp"
      using r take_add [of "ip - lit" lit inp] by simp
    moreover have "take op (out[?b := ?w]) = encs (ts @ [Lit ?bs])"
      using take_run [OF len(2), of ?w] r len False by (simp add: ctrl_byte)
    moreover have "toks_ok [] (ts @ [Lit ?bs])" using r len False by (simp add: toks_ok_append)
    ultimately have "closed inp ip op (out[?b := ?w])"
      using len by (auto simp: closed_def intro!: exI [of _ "ts @ [Lit ?bs]"])
    then show ?thesis using w False by simp
  qed
qed

lemma lit_step_spec:
  assumes run: "run_of inp ts (ip, op, lit, out)" and ip: "ip < length inp" and op: "op < length out"
  shows "\<exists>ts' op' lit' out'. lit_step inp (ip, op, lit, out) = Some (ip + 1, op', lit', out') \<and>
    run_of inp ts' (ip + 1, op', lit', out') \<and> length out' = length out \<and>
    (if lit + 1 = 32 then lit' = 0 \<and> op' = op + 2 else lit' = lit + 1 \<and> op' = op + 1)"
proof -
  let ?b = "length (encs ts)" and ?out1 = "out[op := inp ! ip]"
  note r = run [unfolded run_of_def split]
  have t: "take ?b ?out1 = encs ts" using r by simp
  have d: "take (lit + 1) (drop (?b + 1) ?out1) = take (lit + 1) (drop (ip - lit) inp)"
    using r ip op by (simp add: take_Suc_conv_app_nth drop_update_swap)
  show ?thesis
  proof (cases "lit + 1 = 32")
    case False
    then have "lit_step inp (ip, op, lit, out) = Some (ip + 1, op + 1, lit + 1, ?out1)"
      using ip op by (simp add: lit_step_def Let_def lzf_consts)
    moreover have "run_of inp ts (ip + 1, op + 1, lit + 1, ?out1)"
      using r t d ip op False by (simp add: run_of_def)
    ultimately show ?thesis using False by auto
  next
    case True
    let ?bs = "take 32 (drop (ip - 31) inp)" and ?out2 = "?out1[?b := 31]"
    have lit: "lit = 31" "op = ?b + 32" using True r by simp_all
    have "wr out (int op) (inp ! ip) = Some ?out1" using op by simp
    then have step: "lit_step inp (ip, op, lit, out) = Some (ip + 1, op + 2, 0, ?out2)"
      using ip op lit by (simp add: lit_step_def Let_def lzf_consts)
    have "take (op + 1) ?out2 = encs (ts @ [Lit ?bs])"
      using take_run [of ?b 32 ?out1 31] t d lit op r ip by (simp add: add.commute)
    moreover have "expand [] (ts @ [Lit ?bs]) = take (ip + 1) inp"
      using r lit take_add [of "ip - 31" 32 inp] by simp
    moreover have "toks_ok [] (ts @ [Lit ?bs])" using r lit ip by (simp add: toks_ok_append)
    ultimately have "closed inp (ip + 1) (op + 1) ?out2"
      using op by (auto simp: closed_def intro!: exI [of _ "ts @ [Lit ?bs]"])
    then obtain ts' where "run_of inp ts' (ip + 1, op + 2, 0, ?out2)" using closed_run_of ip by fastforce
    then show ?thesis using step True by auto
  qed
qed

lemma closed_ref:
  assumes "closed inp ip n out" "enc (Ref off len) = e" "off < 8192" "off < ip" "3 \<le> len" "len \<le> 264"
    "ip + len \<le> length inp" "\<forall>j<len. inp ! (ip - (off + 1) + j) = inp ! (ip + j)"
    "take (n + length e) out' = take n out @ e" "n + length e \<le> length out'"
  shows "closed inp (ip + len) (n + length e) out'"
proof -
  obtain ts where ts: "toks_ok [] ts" "expand [] ts = take ip inp" "take n out = encs ts"
    using assms(1) by (auto simp: closed_def)
  have "copy_ref (take ip inp) (off + 1) len = take (ip + len) inp"
    by (rule copy_ref_match) (use assms in simp_all)
  then show ?thesis using assms ts
    by (auto simp: closed_def toks_ok_append simp del: enc.simps intro!: exI [of _ "ts @ [Ref off len]"])
qed

lemma take_wr2: "n + 2 \<le> length out \<Longrightarrow> take (n + 2) (out[n := x, n + 1 := y]) = take n out @ [x, y]"
  by (simp add: take_Suc_conv_app_nth)

lemma take_wr3: "n + 3 \<le> length out \<Longrightarrow> take (Suc (Suc (Suc n))) (out[n := x, n + 1 := y, n + 2 := z]) = take n out @ [x, y, z]"
  by (simp add: take_Suc_conv_app_nth)

lemma wr_off [simp]:
  "Suc n < length xs \<Longrightarrow> wr xs (int n + 1) b = Some (xs[Suc n := b])"
  "Suc n < length xs \<Longrightarrow> wr xs (1 + int n) b = Some (xs[Suc n := b])"
  "Suc (Suc n) < length xs \<Longrightarrow> wr xs (2 + int n) b = Some (xs[Suc (Suc n) := b])"
  "Suc (Suc n) < length xs \<Longrightarrow> wr xs (int n + 2) b = Some (xs[Suc (Suc n) := b])"
  using wr_nat [of "Suc n" xs b] wr_nat [of "Suc (Suc n)" xs b] by (simp_all add: add.commute)

lemma match_step_spec:
  assumes run: "run_of inp ts (ip, op, lit, out)" and ip: "ip + 2 < length inp" and room: "out_len \<le> length out"
    and off: "off < 8192" "off < ip" and m3: "\<forall>j\<le>2. inp ! (ip - (off + 1) + j) = inp ! (ip + j)"
  shows "match_step inp out_len (ip, op, lit, out) (ip - (off + 1)) off = Some None \<or>
    (\<exists>ts' ip' op' out'. match_step inp out_len (ip, op, lit, out) (ip - (off + 1)) off = Some (Some (ip', op', 0, out')) \<and>
      3 \<le> ip' \<and> run_of inp ts' (ip', op', 0, out') \<and> length out' = length out)"
proof (cases "op + 3 + 1 \<ge> out_len \<and> int op - (if lit = 0 then 1 else 0) + 3 + 1 \<ge> int out_len")
  case True
  then show ?thesis by (auto simp: match_step_def Let_def)
next
  case nf: False
  define maxlen where "maxlen = (if length inp - ip - 2 > 264 then 264 else length inp - ip - 2)"
  define n where "n = op - (if lit = 0 then 1 else 0)"
  have op: "op = length (encs ts) + 1 + lit" using run by (simp add: run_of_def)
  have n: "n + 4 < out_len" "nat (int op - (if lit = 0 then 1 else 0)) = n"
    using nf op by (auto simp: n_def split: if_splits)
  then have "length (encs ts) < length out" using op room by (simp add: n_def split: if_splits)
  then obtain out1 where w: "wr out (int op - int lit - 1) (word_of_int (int lit - 1)) = Some out1"
    "length out1 = length out" "closed inp ip n out1" using close_run [OF run] by (auto simp: n_def)
  have ml: "ip + 2 + maxlen \<le> length inp" "0 < maxlen" "maxlen \<le> 264" using ip by (auto simp: maxlen_def)
  have ml': "(if MAX_REF < length inp - ip - 2 then MAX_REF else length inp - ip - 2) = maxlen"
    by (simp add: maxlen_def MAX_REF_def)
  obtain len where len: "match_len inp (ip - (off + 1)) ip maxlen = Some len" "3 \<le> len" "len \<le> 264"
    "ip + len \<le> length inp" "\<forall>j<len. inp ! (ip - (off + 1) + j) = inp ! (ip + j)"
    using match_len_spec [OF m3 ml(1) _ ml(2,3)] off by auto
  let ?e = "enc (Ref off len)"
  let ?out2 = "if len - 2 < 7 then out1[n := word_of_nat (off div 256 + (len - 2) * 32), n + 1 := word_of_nat off]
    else out1[n := word_of_nat (off div 256 + 7 * 32), n + 1 := word_of_nat (len - 2 - 7), n + 2 := word_of_nat off]"
  have "ip + 1 + (len - 2) + 1 = ip + len" using len(2) by simp
  then have "match_step inp out_len (ip, op, lit, out) (ip - (off + 1)) off =
      Some (Some (ip + len, n + length ?e + 1, 0, ?out2))"
    using w(1,2) len(1) n(1) room if_not_P [OF nf] unfolding match_step_def split Let_def ml' n(2) if_not_P [OF nf]
    by (simp del: of_nat_mult of_nat_diff)
  moreover have "closed inp (ip + len) (n + length ?e) ?out2"
  proof (rule closed_ref [OF w(3) refl off len(2-5)])
    show "n + length ?e \<le> length ?out2" using n room w(2) by simp
    show "take (n + length ?e) ?out2 = take n out1 @ ?e"
      using take_wr2 [of n out1] take_wr3 [of n out1] n room w(2) by (simp del: of_nat_add of_nat_mult of_nat_diff)
  qed
  ultimately show ?thesis using closed_run_of [of inp "ip + len" "n + length ?e" ?out2] len(2,4) w(2) by auto
qed

lemma is_match_spec:
  assumes "ip + 2 < length inp" "length inp < 2 ^ 32" "ref < 2 ^ 32"
  shows "\<exists>m. is_match inp ref ip = Some m \<and>
    (m \<longrightarrow> ip - ref - 1 < 8192 \<and> ip - ref - 1 < ip \<and> ref = ip - (ip - ref - 1 + 1) \<and>
      (\<forall>j\<le>2. inp ! (ref + j) = inp ! (ip + j)))"
proof (cases "ref < ip \<and> ip - ref - 1 < 8192 \<and> 0 < ref")
  case True
  have off: "(int ip - int ref - 1) mod 2 ^ 64 = int ip - int ref - 1"
    by (rule mod_pos_pos_trivial) (use True assms in auto)
  have r: "rd inp (int p) = Some (inp ! p)" "rd inp (int p + 1) = Some (inp ! (p + 1))"
    "rd inp (int p + 2) = Some (inp ! (p + 2))" if "p \<le> ip" for p
    using that assms(1) by (simp_all add: rd_def nat_add_distrib)
  have "int ip - int ref - 1 < 8192" using True by linarith
  then have "is_match inp ref ip = Some (inp ! (ref + 2) = inp ! (ip + 2) \<and> inp ! ref = inp ! ip \<and> inp ! (ref + 1) = inp ! (ip + 1))"
    unfolding is_match_def Let_def off using r [of ref] r [of ip] True by (simp add: MAX_OFF_def)
  moreover have "j = 0 \<or> j = 1 \<or> j = 2" if "j \<le> 2" for j :: nat using that by linarith
  ultimately show ?thesis using True by fastforce
next
  case False
  have "int MAX_OFF \<le> (int ip - int ref - 1) mod 2 ^ 64 \<or> ref = 0"
  proof (cases "ref < ip")
    case True
    have "(int ip - int ref - 1) mod 2 ^ 64 = int ip - int ref - 1"
      by (rule mod_pos_pos_trivial) (use True assms in auto)
    then show ?thesis using False True by (auto simp: MAX_OFF_def)
  next
    case nlt: False
    have "(int ip - int ref - 1 + 2 ^ 64) mod 2 ^ 64 = int ip - int ref - 1 + 2 ^ 64"
      by (rule mod_pos_pos_trivial) (use nlt assms in auto)
    then have "(int ip - int ref - 1) mod 2 ^ 64 = int ip - int ref - 1 + 2 ^ 64" by (simp only: mod_add_self2)
    then show ?thesis using assms nlt by (simp add: MAX_OFF_def)
  qed
  then have "is_match inp ref ip = Some False" unfolding is_match_def Let_def by auto
  then show ?thesis by blast
qed

lemma rehash_tail_Some: "ip + 3 < length inp \<Longrightarrow> \<exists>hval htab'. rehash_tail inp htab ip = Some (hval, htab')"
  by (auto simp: rehash_tail_def FRST_def NEXT_def rd_def)

lemma compress_loop_spec:
  assumes "run_of inp ts (ip, op, lit, out)" "length inp < 2 ^ 32" "out_len \<le> length out"
  shows "compress_loop inp out_len htab hval (ip, op, lit, out) = Some None \<or>
    (\<exists>ts' ip' op' lit' out'. compress_loop inp out_len htab hval (ip, op, lit, out) = Some (Some (ip', op', lit', out')) \<and>
      run_of inp ts' (ip', op', lit', out') \<and> length inp \<le> ip' + 2 \<and> length out' = length out)"
  using assms
proof (induction "length inp - ip" arbitrary: ts htab hval ip op lit out rule: less_induct)
  case less
  show ?case
  proof (cases "int ip < int (length inp) - 2")
    case False
    with less.prems show ?thesis by (subst (1 2) compress_loop.simps) auto
  next
    case True
    then have ip: "ip + 2 < length inp" by linarith
    define h where "h = push_bit 8 hval OR (ucast (inp ! (ip + 2)) :: u32)"
    define ref where "ref = unat (htab (IDX h))"
    define htab' where "htab' = htab(IDX h := word_of_nat ip)"
    have nx: "NEXT hval inp ip = Some h" using ip by (simp add: NEXT_def rd_def h_def nat_add_distrib)
    have "ref < 2 ^ 32" unfolding ref_def by (rule order_less_le_trans [OF unsigned_less]) simp
    then obtain m where m: "is_match inp ref ip = Some m" and
      mt: "m \<Longrightarrow> ip - ref - 1 < 8192 \<and> ip - ref - 1 < ip \<and> ref = ip - (ip - ref - 1 + 1) \<and>
        (\<forall>j\<le>2. inp ! (ref + j) = inp ! (ip + j))"
      using is_match_spec [OF ip less.prems(2)] by blast
    show ?thesis
    proof (cases m)
      case True
      let ?ms = "match_step inp out_len (ip, op, lit, out) ref (ip - ref - 1)"
      have ms: "?ms = Some None \<or> (\<exists>ts' ip' op' out'. ?ms = Some (Some (ip', op', 0, out')) \<and>
          3 \<le> ip' \<and> run_of inp ts' (ip', op', 0, out') \<and> length out' = length out)"
        using match_step_spec [OF less.prems(1) ip less.prems(3), of "ip - ref - 1"] mt [OF True] by metis
      show ?thesis
      proof (cases "?ms = Some None")
        case none: True
        then show ?thesis using ip nx m True by (subst (1) compress_loop.simps) (simp add: h_def [symmetric] ref_def [symmetric])
      next
        case False
        then obtain ts' ip' op' out' where st: "?ms = Some (Some (ip', op', 0, out'))" "3 \<le> ip'"
          "run_of inp ts' (ip', op', 0, out')" "length out' = length out" using ms by auto
        note prog = match_step_progress [OF st(1)]
        show ?thesis
        proof (cases "int ip' \<ge> int (length inp) - 2")
          case fin: True
          have "compress_loop inp out_len htab hval (ip, op, lit, out) = Some (Some (ip', op', 0, out'))"
            using ip nx m True st(1) fin by (subst compress_loop.simps) (simp add: ref_def)
          then show ?thesis using st fin by auto
        next
          case go: False
          then obtain hval2 htab2 where r: "rehash_tail inp htab' (ip' - 2) = Some (hval2, htab2)"
            using rehash_tail_Some [of "ip' - 2" inp htab'] st(2) by auto
          have "compress_loop inp out_len htab hval (ip, op, lit, out) = compress_loop inp out_len htab2 hval2 (ip', op', 0, out')"
            using ip nx m True st(1) go r by (subst compress_loop.simps) (simp add: ref_def htab'_def)
          then show ?thesis using less.hyps [of ip' ts' op' 0 out' htab2 hval2] st less.prems prog ip by auto
        qed
      qed
    next
      case False
      show ?thesis
      proof (cases "op \<ge> out_len")
        case True
        then show ?thesis using ip nx m False by (subst (1) compress_loop.simps) (simp add: ref_def)
      next
        case op: False
        then obtain ts' op' lit' out' where st: "lit_step inp (ip, op, lit, out) = Some (ip + 1, op', lit', out')"
          "run_of inp ts' (ip + 1, op', lit', out')" "length out' = length out"
          using lit_step_spec [OF less.prems(1)] ip less.prems(3) by fastforce
        have "compress_loop inp out_len htab hval (ip, op, lit, out) = compress_loop inp out_len htab' h (ip + 1, op', lit', out')"
          using ip nx m False st(1) op by (subst compress_loop.simps) (simp add: ref_def htab'_def)
        then show ?thesis using less.hyps [of "ip + 1" ts' op' lit' out' htab' h] st less.prems ip by auto
      qed
    qed
  qed
qed

lemma tail_loop_spec:
  assumes "run_of inp ts (ip, op, lit, out)" "length inp - ip \<le> 2"
    "op + (length inp - ip) + (if lit + (length inp - ip) \<ge> 32 then 1 else 0) \<le> length out"
  shows "\<exists>ts' op' lit' out'. tail_loop inp (ip, op, lit, out) = Some (length inp, op', lit', out') \<and>
    run_of inp ts' (length inp, op', lit', out') \<and> op' \<le> length out' \<and> length out' = length out"
  using assms
proof (induction "length inp - ip" arbitrary: ts ip op lit out)
  case 0
  then have "ip = length inp" by (simp add: run_of_def)
  then show ?case using 0 by (subst tail_loop.simps) (auto split: if_splits)
next
  case (Suc r)
  then have ip: "ip < length inp" by linarith
  have room: "op < length out" using Suc.prems(3) ip by linarith
  obtain ts' op' lit' out' where st: "lit_step inp (ip, op, lit, out) = Some (ip + 1, op', lit', out')"
    "run_of inp ts' (ip + 1, op', lit', out')" "length out' = length out"
    "if lit + 1 = 32 then lit' = 0 \<and> op' = op + 2 else lit' = lit + 1 \<and> op' = op + 1"
    using lit_step_spec [OF Suc.prems(1) ip room] by blast
  have "lit < 32" using Suc.prems(1) by (simp add: run_of_def)
  have "\<exists>ts'' op'' lit'' out''. tail_loop inp (ip + 1, op', lit', out') = Some (length inp, op'', lit'', out'') \<and>
    run_of inp ts'' (length inp, op'', lit'', out'') \<and> op'' \<le> length out'' \<and> length out'' = length out'"
  proof (rule Suc.hyps(1) [OF _ st(2)])
    show "op' + (length inp - (ip + 1)) + (if lit' + (length inp - (ip + 1)) \<ge> 32 then 1 else 0) \<le> length out'"
      using st(3,4) Suc.prems(2,3) ip \<open>lit < 32\<close> by (auto split: if_splits)
  qed (use Suc.hyps(2) Suc.prems(2) in simp_all)
  moreover have "tail_loop inp (ip, op, lit, out) = tail_loop inp (ip + 1, op', lit', out')"
    using st(1) ip by (subst tail_loop.simps) simp
  ultimately show ?case using st(3) by auto
qed

text \<open>\<open>lzf_compress\<close> never leaves its buffers, and what it writes are tokens of the whole input.\<close>

lemma lzf_compress_spec:
  assumes "2 \<le> length inp" "length inp < 2 ^ 32" "out_len \<le> length out"
  shows "lzf_compress htab inp out out_len = Some None \<or>
    (\<exists>n out'. lzf_compress htab inp out out_len = Some (Some (n, out')) \<and> closed inp (length inp) n out' \<and>
      length out' = length out)"
proof (cases "out_len = 0")
  case True
  then show ?thesis by (simp add: lzf_compress_def)
next
  case False
  have ne: "inp \<noteq> []" using assms(1) by auto
  obtain hval where h: "FRST inp 0 = Some hval" using assms(1) by (fastforce simp: FRST_def rd_def)
  let ?cl = "compress_loop inp out_len htab hval (0, 1, 0, out)"
  have "run_of inp [] (0, 1, 0, out)" by (simp add: run_of_def)
  from compress_loop_spec [OF this assms(2,3)] consider "?cl = Some None"
    | ts ip op lit out1 where "?cl = Some (Some (ip, op, lit, out1))" "run_of inp ts (ip, op, lit, out1)"
      "length inp \<le> ip + 2" "length out1 = length out" by blast
  then show ?thesis
  proof cases
    case 1
    then show ?thesis using False ne h by (simp add: lzf_compress_def)
  next
    case 2
    show ?thesis
    proof (cases "op + 3 > out_len")
      case True
      then show ?thesis using False ne h 2 by (simp add: lzf_compress_def)
    next
      case room: False
      have l: "length inp - ip \<le> 2" using 2(3) by simp
      have "op + (length inp - ip) + (if lit + (length inp - ip) \<ge> 32 then 1 else 0) \<le> length out1"
        using room assms(3) 2(4) l by (simp split: if_splits)
      from tail_loop_spec [OF 2(2) l this] obtain ts' op' lit' out2 where t: "tail_loop inp (ip, op, lit, out1) = Some (length inp, op', lit', out2)"
        "run_of inp ts' (length inp, op', lit', out2)" "op' \<le> length out2" "length out2 = length out1"
        by blast
      have "length (encs ts') < length out2" using t(2,3) by (simp add: run_of_def)
      from close_run [OF t(2) this] show ?thesis using False ne h 2 room t(1,4) by (auto simp: lzf_compress_def)
    qed
  qed
qed

lemma closed_decompress:
  assumes c: "closed inp (length inp) n out'" and "2 \<le> length inp" "length inp \<le> dst_len" "dst_len \<le> length dst"
  shows "lzf_decompress (take n out') dst dst_len = Some (length inp, inp @ drop (length inp) dst) \<and> n \<le> length out'"
proof -
  obtain ts where ts: "toks_ok [] ts" "expand [] ts = inp" "n \<le> length out'" "take n out' = encs ts"
    using c by (auto simp: closed_def)
  have "ts \<noteq> []" using ts(2) assms(2) by auto
  with decompress_loop_toks [of "[]" ts dst_len dst "[]"] ts assms show ?thesis by (simp add: lzf_decompress_def)
qed


definition lzf_sample :: bytes where
  "lzf_sample = [97, 97, 97, 97, 97]"

lemmas lzf_eval = lzf_compress_def lzf_sample_def FRST_def NEXT_def rd_def wr_def IDX_def compress_loop.simps
  tail_loop.simps is_match_def lit_step_def match_step_def lzf_consts match_len_def match_rest.simps
  rehash_tail_def Let_def




end
