(* ===== verification/Crc.thy ===== *)
theory Crc
  imports Prelude
begin

text \<open>
  The checksums: \<open>crc16\<close> (\<open>src/crc16.c\<close>), which maps keys to the slots of a cluster through
  \<open>keyHashSlot\<close> (\<open>src/cluster.c\<close>), and \<open>crc64\<close> (\<open>src/crc64.c\<close>), which guards dumps. Both are
  table driven; the reference is the shift register that handles one bit at a time.
\<close>

subsection \<open>Tables and loops\<close>

definition crc16tab :: "u16 list" where
  "crc16tab =
    [0x0000, 0x1021, 0x2042, 0x3063, 0x4084, 0x50a5, 0x60c6, 0x70e7,
     0x8108, 0x9129, 0xa14a, 0xb16b, 0xc18c, 0xd1ad, 0xe1ce, 0xf1ef,
     0x1231, 0x0210, 0x3273, 0x2252, 0x52b5, 0x4294, 0x72f7, 0x62d6,
     0x9339, 0x8318, 0xb37b, 0xa35a, 0xd3bd, 0xc39c, 0xf3ff, 0xe3de,
     0x2462, 0x3443, 0x0420, 0x1401, 0x64e6, 0x74c7, 0x44a4, 0x5485,
     0xa56a, 0xb54b, 0x8528, 0x9509, 0xe5ee, 0xf5cf, 0xc5ac, 0xd58d,
     0x3653, 0x2672, 0x1611, 0x0630, 0x76d7, 0x66f6, 0x5695, 0x46b4,
     0xb75b, 0xa77a, 0x9719, 0x8738, 0xf7df, 0xe7fe, 0xd79d, 0xc7bc,
     0x48c4, 0x58e5, 0x6886, 0x78a7, 0x0840, 0x1861, 0x2802, 0x3823,
     0xc9cc, 0xd9ed, 0xe98e, 0xf9af, 0x8948, 0x9969, 0xa90a, 0xb92b,
     0x5af5, 0x4ad4, 0x7ab7, 0x6a96, 0x1a71, 0x0a50, 0x3a33, 0x2a12,
     0xdbfd, 0xcbdc, 0xfbbf, 0xeb9e, 0x9b79, 0x8b58, 0xbb3b, 0xab1a,
     0x6ca6, 0x7c87, 0x4ce4, 0x5cc5, 0x2c22, 0x3c03, 0x0c60, 0x1c41,
     0xedae, 0xfd8f, 0xcdec, 0xddcd, 0xad2a, 0xbd0b, 0x8d68, 0x9d49,
     0x7e97, 0x6eb6, 0x5ed5, 0x4ef4, 0x3e13, 0x2e32, 0x1e51, 0x0e70,
     0xff9f, 0xefbe, 0xdfdd, 0xcffc, 0xbf1b, 0xaf3a, 0x9f59, 0x8f78,
     0x9188, 0x81a9, 0xb1ca, 0xa1eb, 0xd10c, 0xc12d, 0xf14e, 0xe16f,
     0x1080, 0x00a1, 0x30c2, 0x20e3, 0x5004, 0x4025, 0x7046, 0x6067,
     0x83b9, 0x9398, 0xa3fb, 0xb3da, 0xc33d, 0xd31c, 0xe37f, 0xf35e,
     0x02b1, 0x1290, 0x22f3, 0x32d2, 0x4235, 0x5214, 0x6277, 0x7256,
     0xb5ea, 0xa5cb, 0x95a8, 0x8589, 0xf56e, 0xe54f, 0xd52c, 0xc50d,
     0x34e2, 0x24c3, 0x14a0, 0x0481, 0x7466, 0x6447, 0x5424, 0x4405,
     0xa7db, 0xb7fa, 0x8799, 0x97b8, 0xe75f, 0xf77e, 0xc71d, 0xd73c,
     0x26d3, 0x36f2, 0x0691, 0x16b0, 0x6657, 0x7676, 0x4615, 0x5634,
     0xd94c, 0xc96d, 0xf90e, 0xe92f, 0x99c8, 0x89e9, 0xb98a, 0xa9ab,
     0x5844, 0x4865, 0x7806, 0x6827, 0x18c0, 0x08e1, 0x3882, 0x28a3,
     0xcb7d, 0xdb5c, 0xeb3f, 0xfb1e, 0x8bf9, 0x9bd8, 0xabbb, 0xbb9a,
     0x4a75, 0x5a54, 0x6a37, 0x7a16, 0x0af1, 0x1ad0, 0x2ab3, 0x3a92,
     0xfd2e, 0xed0f, 0xdd6c, 0xcd4d, 0xbdaa, 0xad8b, 0x9de8, 0x8dc9,
     0x7c26, 0x6c07, 0x5c64, 0x4c45, 0x3ca2, 0x2c83, 0x1ce0, 0x0cc1,
     0xef1f, 0xff3e, 0xcf5d, 0xdf7c, 0xaf9b, 0xbfba, 0x8fd9, 0x9ff8,
     0x6e17, 0x7e36, 0x4e55, 0x5e74, 0x2e93, 0x3eb2, 0x0ed1, 0x1ef0]"

primrec crc16_loop :: "u16 \<Rightarrow> bytes \<Rightarrow> u16" where
  "crc16_loop crc [] = crc"
| "crc16_loop crc (b # buf) = crc16_loop (push_bit 8 crc XOR crc16tab ! unat ((drop_bit 8 crc XOR scast b) AND 0xff)) buf"

definition crc16 :: "bytes \<Rightarrow> u16" where
  "crc16 buf = crc16_loop 0 buf"

definition crc64_tab :: "u64 list" where
  "crc64_tab =
    [0x0000000000000000, 0x7ad870c830358979, 0xf5b0e190606b12f2, 0x8f689158505e9b8b,
     0xc038e5739841b68f, 0xbae095bba8743ff6, 0x358804e3f82aa47d, 0x4f50742bc81f2d04,
     0xab28ecb46814fe75, 0xd1f09c7c5821770c, 0x5e980d24087fec87, 0x24407dec384a65fe,
     0x6b1009c7f05548fa, 0x11c8790fc060c183, 0x9ea0e857903e5a08, 0xe478989fa00bd371,
     0x7d08ff3b88be6f81, 0x07d08ff3b88be6f8, 0x88b81eabe8d57d73, 0xf2606e63d8e0f40a,
     0xbd301a4810ffd90e, 0xc7e86a8020ca5077, 0x4880fbd87094cbfc, 0x32588b1040a14285,
     0xd620138fe0aa91f4, 0xacf86347d09f188d, 0x2390f21f80c18306, 0x594882d7b0f40a7f,
     0x1618f6fc78eb277b, 0x6cc0863448deae02, 0xe3a8176c18803589, 0x997067a428b5bcf0,
     0xfa11fe77117cdf02, 0x80c98ebf2149567b, 0x0fa11fe77117cdf0, 0x75796f2f41224489,
     0x3a291b04893d698d, 0x40f16bccb908e0f4, 0xcf99fa94e9567b7f, 0xb5418a5cd963f206,
     0x513912c379682177, 0x2be1620b495da80e, 0xa489f35319033385, 0xde51839b2936bafc,
     0x9101f7b0e12997f8, 0xebd98778d11c1e81, 0x64b116208142850a, 0x1e6966e8b1770c73,
     0x8719014c99c2b083, 0xfdc17184a9f739fa, 0x72a9e0dcf9a9a271, 0x08719014c99c2b08,
     0x4721e43f0183060c, 0x3df994f731b68f75, 0xb29105af61e814fe, 0xc849756751dd9d87,
     0x2c31edf8f1d64ef6, 0x56e99d30c1e3c78f, 0xd9810c6891bd5c04, 0xa3597ca0a188d57d,
     0xec09088b6997f879, 0x96d1784359a27100, 0x19b9e91b09fcea8b, 0x636199d339c963f2,
     0xdf7adabd7a6e2d6f, 0xa5a2aa754a5ba416, 0x2aca3b2d1a053f9d, 0x50124be52a30b6e4,
     0x1f423fcee22f9be0, 0x659a4f06d21a1299, 0xeaf2de5e82448912, 0x902aae96b271006b,
     0x74523609127ad31a, 0x0e8a46c1224f5a63, 0x81e2d7997211c1e8, 0xfb3aa75142244891,
     0xb46ad37a8a3b6595, 0xceb2a3b2ba0eecec, 0x41da32eaea507767, 0x3b024222da65fe1e,
     0xa2722586f2d042ee, 0xd8aa554ec2e5cb97, 0x57c2c41692bb501c, 0x2d1ab4dea28ed965,
     0x624ac0f56a91f461, 0x1892b03d5aa47d18, 0x97fa21650afae693, 0xed2251ad3acf6fea,
     0x095ac9329ac4bc9b, 0x7382b9faaaf135e2, 0xfcea28a2faafae69, 0x8632586aca9a2710,
     0xc9622c4102850a14, 0xb3ba5c8932b0836d, 0x3cd2cdd162ee18e6, 0x460abd1952db919f,
     0x256b24ca6b12f26d, 0x5fb354025b277b14, 0xd0dbc55a0b79e09f, 0xaa03b5923b4c69e6,
     0xe553c1b9f35344e2, 0x9f8bb171c366cd9b, 0x10e3202993385610, 0x6a3b50e1a30ddf69,
     0x8e43c87e03060c18, 0xf49bb8b633338561, 0x7bf329ee636d1eea, 0x012b592653589793,
     0x4e7b2d0d9b47ba97, 0x34a35dc5ab7233ee, 0xbbcbcc9dfb2ca865, 0xc113bc55cb19211c,
     0x5863dbf1e3ac9dec, 0x22bbab39d3991495, 0xadd33a6183c78f1e, 0xd70b4aa9b3f20667,
     0x985b3e827bed2b63, 0xe2834e4a4bd8a21a, 0x6debdf121b863991, 0x1733afda2bb3b0e8,
     0xf34b37458bb86399, 0x8993478dbb8deae0, 0x06fbd6d5ebd3716b, 0x7c23a61ddbe6f812,
     0x3373d23613f9d516, 0x49aba2fe23cc5c6f, 0xc6c333a67392c7e4, 0xbc1b436e43a74e9d,
     0x95ac9329ac4bc9b5, 0xef74e3e19c7e40cc, 0x601c72b9cc20db47, 0x1ac40271fc15523e,
     0x5594765a340a7f3a, 0x2f4c0692043ff643, 0xa02497ca54616dc8, 0xdafce7026454e4b1,
     0x3e847f9dc45f37c0, 0x445c0f55f46abeb9, 0xcb349e0da4342532, 0xb1eceec59401ac4b,
     0xfebc9aee5c1e814f, 0x8464ea266c2b0836, 0x0b0c7b7e3c7593bd, 0x71d40bb60c401ac4,
     0xe8a46c1224f5a634, 0x927c1cda14c02f4d, 0x1d148d82449eb4c6, 0x67ccfd4a74ab3dbf,
     0x289c8961bcb410bb, 0x5244f9a98c8199c2, 0xdd2c68f1dcdf0249, 0xa7f41839ecea8b30,
     0x438c80a64ce15841, 0x3954f06e7cd4d138, 0xb63c61362c8a4ab3, 0xcce411fe1cbfc3ca,
     0x83b465d5d4a0eece, 0xf96c151de49567b7, 0x76048445b4cbfc3c, 0x0cdcf48d84fe7545,
     0x6fbd6d5ebd3716b7, 0x15651d968d029fce, 0x9a0d8ccedd5c0445, 0xe0d5fc06ed698d3c,
     0xaf85882d2576a038, 0xd55df8e515432941, 0x5a3569bd451db2ca, 0x20ed197575283bb3,
     0xc49581ead523e8c2, 0xbe4df122e51661bb, 0x3125607ab548fa30, 0x4bfd10b2857d7349,
     0x04ad64994d625e4d, 0x7e7514517d57d734, 0xf11d85092d094cbf, 0x8bc5f5c11d3cc5c6,
     0x12b5926535897936, 0x686de2ad05bcf04f, 0xe70573f555e26bc4, 0x9ddd033d65d7e2bd,
     0xd28d7716adc8cfb9, 0xa85507de9dfd46c0, 0x273d9686cda3dd4b, 0x5de5e64efd965432,
     0xb99d7ed15d9d8743, 0xc3450e196da80e3a, 0x4c2d9f413df695b1, 0x36f5ef890dc31cc8,
     0x79a59ba2c5dc31cc, 0x037deb6af5e9b8b5, 0x8c157a32a5b7233e, 0xf6cd0afa9582aa47,
     0x4ad64994d625e4da, 0x300e395ce6106da3, 0xbf66a804b64ef628, 0xc5bed8cc867b7f51,
     0x8aeeace74e645255, 0xf036dc2f7e51db2c, 0x7f5e4d772e0f40a7, 0x05863dbf1e3ac9de,
     0xe1fea520be311aaf, 0x9b26d5e88e0493d6, 0x144e44b0de5a085d, 0x6e963478ee6f8124,
     0x21c640532670ac20, 0x5b1e309b16452559, 0xd476a1c3461bbed2, 0xaeaed10b762e37ab,
     0x37deb6af5e9b8b5b, 0x4d06c6676eae0222, 0xc26e573f3ef099a9, 0xb8b627f70ec510d0,
     0xf7e653dcc6da3dd4, 0x8d3e2314f6efb4ad, 0x0256b24ca6b12f26, 0x788ec2849684a65f,
     0x9cf65a1b368f752e, 0xe62e2ad306bafc57, 0x6946bb8b56e467dc, 0x139ecb4366d1eea5,
     0x5ccebf68aecec3a1, 0x2616cfa09efb4ad8, 0xa97e5ef8cea5d153, 0xd3a62e30fe90582a,
     0xb0c7b7e3c7593bd8, 0xca1fc72bf76cb2a1, 0x45775673a732292a, 0x3faf26bb9707a053,
     0x70ff52905f188d57, 0x0a2722586f2d042e, 0x854fb3003f739fa5, 0xff97c3c80f4616dc,
     0x1bef5b57af4dc5ad, 0x61372b9f9f784cd4, 0xee5fbac7cf26d75f, 0x9487ca0fff135e26,
     0xdbd7be24370c7322, 0xa10fceec0739fa5b, 0x2e675fb4576761d0, 0x54bf2f7c6752e8a9,
     0xcdcf48d84fe75459, 0xb71738107fd2dd20, 0x387fa9482f8c46ab, 0x42a7d9801fb9cfd2,
     0x0df7adabd7a6e2d6, 0x772fdd63e7936baf, 0xf8474c3bb7cdf024, 0x829f3cf387f8795d,
     0x66e7a46c27f3aa2c, 0x1c3fd4a417c62355, 0x935745fc4798b8de, 0xe98f353477ad31a7,
     0xa6df411fbfb21ca3, 0xdc0731d78f8795da, 0x536fa08fdfd90e51, 0x29b7d047efec8728]"

primrec crc64 :: "u64 \<Rightarrow> bytes \<Rightarrow> u64" where
  "crc64 crc [] = crc"
| "crc64 crc (byte # s) = crc64 (crc64_tab ! unat ((ucast crc :: u8) XOR byte) XOR drop_bit 8 crc) s"

text \<open>The two loops of \<open>keyHashSlot\<close> that look for a brace.\<close>

function find_brace :: "u8 \<Rightarrow> bytes \<Rightarrow> nat \<Rightarrow> nat" where
  "find_brace c key i = (if i < length key then if key ! i = c then i else find_brace c key (i + 1) else i)"
  by pat_completeness auto
termination by (relation "measure (\<lambda>(c, key, i). length key - i)") auto

declare find_brace.simps [simp del]

definition keyHashSlot :: "bytes \<Rightarrow> u16" where
  "keyHashSlot key =
     (let keylen = length key;
          s = find_brace 123 key 0
      in if s = keylen then crc16 key AND 0x3FFF
         else
           let e = find_brace 125 key (s + 1)
           in if e = keylen \<or> e = s + 1 then crc16 key AND 0x3FFF
              else crc16 (take (e - s - 1) (drop (s + 1) key)) AND 0x3FFF)"

subsection \<open>Shift registers\<close>

definition step16 :: "u16 \<Rightarrow> u16" where
  "step16 w = (if bit w 15 then push_bit 1 w XOR 0x1021 else push_bit 1 w)"

definition step64 :: "u64 \<Rightarrow> u64" where
  "step64 w = (if bit w 0 then drop_bit 1 w XOR 0x95ac9329ac4bc9b5 else drop_bit 1 w)"

text \<open>The bytes of a message enter the register eight bits at a time.\<close>

primrec crc16_ref :: "u16 \<Rightarrow> bytes \<Rightarrow> u16" where
  "crc16_ref crc [] = crc"
| "crc16_ref crc (b # buf) = crc16_ref ((step16 ^^ 8) (crc XOR push_bit 8 (ucast b))) buf"

primrec crc64_ref :: "u64 \<Rightarrow> bytes \<Rightarrow> u64" where
  "crc64_ref crc [] = crc"
| "crc64_ref crc (b # buf) = crc64_ref ((step64 ^^ 8) (crc XOR ucast b)) buf"

lemma crc16tab_length: "length crc16tab = 256" by (simp add: crc16tab_def)
lemma crc64_tab_length: "length crc64_tab = 256" by (simp add: crc64_tab_def)

lemma funpow_8: "(f ^^ 8) x = f (f (f (f (f (f (f (f x)))))))"
  by (simp add: numeral_eq_Suc)

definition dbl :: "'a :: semiring_bit_operations \<Rightarrow> 'a list \<Rightarrow> 'a list" where
  "dbl t xs = xs @ map (\<lambda>x. t XOR x) xs"

lemma crc16tab_dbl:
  "crc16tab = dbl 0x9188 (dbl 0x48c4 (dbl 0x2462 (dbl 0x1231 (dbl 0x8108 (dbl 0x4084 (dbl 0x2042 (dbl 0x1021 [0])))))))"
  by (simp add: crc16tab_def dbl_def)

lemma crc64_tab_dbl:
  "crc64_tab = dbl 0x95ac9329ac4bc9b5 (dbl 0xdf7adabd7a6e2d6f (dbl 0xfa11fe77117cdf02 (dbl 0x7d08ff3b88be6f81 (dbl 0xab28ecb46814fe75 (dbl 0xc038e5739841b68f (dbl 0xf5b0e190606b12f2 (dbl 0x7ad870c830358979 [0])))))))"
  by (simp add: crc64_tab_def dbl_def)

definition byte16 :: "nat \<Rightarrow> u16" where
  "byte16 n = (step16 ^^ 8) (push_bit 8 (word_of_nat n))"

definition byte64 :: "nat \<Rightarrow> u64" where
  "byte64 n = (step64 ^^ 8) (word_of_nat n)"

lemma step16_xor: "step16 (x XOR y) = step16 x XOR step16 y"
  by (auto simp: step16_def push_bit_xor bit_xor_iff xor.assoc xor.commute xor.left_commute)

lemma step64_xor: "step64 (x XOR y) = step64 x XOR step64 y"
  by (auto simp: step64_def drop_bit_xor bit_xor_iff xor.assoc xor.commute xor.left_commute)

lemma funpow_xor:
  fixes f :: "'a :: semiring_bit_operations \<Rightarrow> 'a"
  shows "(\<And>x y. f (x XOR y) = f x XOR f y) \<Longrightarrow> (f ^^ n) (x XOR y) = (f ^^ n) x XOR (f ^^ n) y"
  by (induction n) simp_all

lemma byte_xor: "byte16 (m XOR n) = byte16 m XOR byte16 n" "byte64 (m XOR n) = byte64 m XOR byte64 n"
  by (simp_all add: byte16_def byte64_def of_nat_xor_eq push_bit_xor funpow_xor step16_xor step64_xor)

lemma pow_add_xor: "j < 2 ^ k \<Longrightarrow> 2 ^ k + j = 2 ^ k XOR (j :: nat)"
proof (rule disjunctive_add_eq_xor)
  assume "j < 2 ^ k"
  then have "\<not> bit j k" by (metis bit_take_bit_iff less_irrefl take_bit_nat_eq_self)
  then show "2 ^ k AND j = 0" by (auto intro: bit_eqI simp: bit_and_iff bit_exp_iff)
qed

lemma map_dbl:
  assumes "\<And>m n. f (m XOR n) = f m XOR f n"
  shows "map f [0 ..< 2 ^ Suc k] = dbl (f (2 ^ k)) (map f [0 ..< 2 ^ k])"
proof -
  have "[0 ..< 2 ^ Suc k] = [0 ..< 2 ^ k] @ map (\<lambda>j. 2 ^ k + j) [0 ..< 2 ^ k :: nat]"
    using upt_add_eq_append [of 0 "2 ^ k" "2 ^ k"] by (simp add: map_add_upt mult_2 add.commute)
  moreover have "map (\<lambda>j. f (2 ^ k + j)) [0 ..< 2 ^ k] = map (\<lambda>j. f (2 ^ k) XOR f j) [0 ..< 2 ^ k]"
    by (intro map_cong) (simp_all add: pow_add_xor assms)
  ultimately show ?thesis by (simp add: dbl_def comp_def)
qed

lemma map_dbl_256:
  assumes "\<And>m n. f (m XOR n) = f m XOR f n"
  shows "map f [0 ..< 256] = dbl (f 128) (dbl (f 64) (dbl (f 32) (dbl (f 16) (dbl (f 8) (dbl (f 4) (dbl (f 2) (dbl (f 1) [f 0])))))))"
  using map_dbl [OF assms, of 0] map_dbl [OF assms, of 1] map_dbl [OF assms, of 2] map_dbl [OF assms, of 3]
    map_dbl [OF assms, of 4] map_dbl [OF assms, of 5] map_dbl [OF assms, of 6] map_dbl [OF assms, of 7]
  by simp

lemma byte16_basis:
  "byte16 0 = 0"
  "byte16 1 = 0x1021" "byte16 2 = 0x2042" "byte16 4 = 0x4084" "byte16 8 = 0x8108"
  "byte16 16 = 0x1231" "byte16 32 = 0x2462" "byte16 64 = 0x48c4" "byte16 128 = 0x9188"
  by (simp_all add: byte16_def funpow_8 step16_def)

lemma byte64_basis:
  "byte64 0 = 0"
  "byte64 1 = 0x7ad870c830358979" "byte64 2 = 0xf5b0e190606b12f2" "byte64 4 = 0xc038e5739841b68f" "byte64 8 = 0xab28ecb46814fe75"
  "byte64 16 = 0x7d08ff3b88be6f81" "byte64 32 = 0xfa11fe77117cdf02" "byte64 64 = 0xdf7adabd7a6e2d6f" "byte64 128 = 0x95ac9329ac4bc9b5"
  by (simp_all add: byte64_def funpow_8 step64_def)

lemma crc16tab_bytes: "crc16tab = map byte16 [0 ..< 256]"
  unfolding map_dbl_256 [OF byte_xor(1)] crc16tab_dbl byte16_basis ..

lemma crc64_tab_bytes: "crc64_tab = map byte64 [0 ..< 256]"
  unfolding map_dbl_256 [OF byte_xor(2)] crc64_tab_dbl byte64_basis ..

lemma unat_u8 [simp]: "unat (b :: u8) < 256"
  using unsigned_less [of b, where 'a = nat] by simp

lemma step16_low: "k \<le> 8 \<Longrightarrow> (step16 ^^ k) (take_bit 8 w) = push_bit k (take_bit 8 w)"
proof (induction k)
  case (Suc k)
  have "\<not> bit (push_bit k (take_bit 8 w) :: u16) 15" using Suc.prems by (auto simp: bit_push_bit_iff bit_take_bit_iff)
  then show ?case using Suc by (simp add: step16_def push_bit_push_bit)
qed simp

lemma step64_low: "take_bit k x = 0 \<Longrightarrow> (step64 ^^ k) x = drop_bit k x"
proof (induction k arbitrary: x)
  case (Suc k)
  have b: "\<not> bit x n" if "n < Suc k" for n 
    using that arg_cong [OF Suc.prems, of "\<lambda>y. bit y n"] by (simp add: bit_take_bit_iff del: take_bit_Suc)
  have "take_bit k (drop_bit 1 x) = 0"
    by (rule bit_eqI) (auto simp: bit_take_bit_iff bit_drop_bit_eq b)
  from Suc.IH [OF this] have "(step64 ^^ k) (drop_bit 1 x) = drop_bit (Suc k) x" by simp
  moreover have "step64 x = drop_bit 1 x" using b [of 0] by (simp add: step64_def)
  ultimately show ?case by (simp only: funpow_Suc_right comp_apply)
qed simp

lemma crc16_step:
  "push_bit 8 crc XOR crc16tab ! unat ((drop_bit 8 crc XOR scast b) AND 0xff) = (step16 ^^ 8) (crc XOR push_bit 8 (ucast (b :: u8)))"
proof -
  let ?i = "drop_bit 8 crc XOR ucast b :: u16"
  have ff: "(0xff :: u16) = mask 8" by (simp add: mask_eq_exp_minus_1)
  have i: "(drop_bit 8 crc XOR scast b) AND 0xff = ?i"
    unfolding ff take_bit_eq_mask [symmetric]
    by (rule bit_eqI) (auto simp: bit_simps dest: bit_imp_le_length)
  have "take_bit 8 ?i = ?i" by (rule bit_eqI) (auto simp: bit_simps dest: bit_imp_le_length)
  then have lt: "unat ?i < 256"
    using take_bit_nat_less_exp [of 8 "unat ?i"] by (simp flip: unsigned_take_bit_eq)
  have "crc XOR push_bit 8 (ucast b) = take_bit 8 crc XOR push_bit 8 ?i"
    by (rule bit_eqI) (auto simp: bit_simps)
  moreover have "(step16 ^^ 8) (take_bit 8 crc XOR push_bit 8 ?i) = push_bit 8 (take_bit 8 crc) XOR byte16 (unat ?i)"
    by (simp add: funpow_xor step16_xor step16_low byte16_def)
  moreover have "push_bit 8 (take_bit 8 crc) = push_bit 8 crc"
    by (rule bit_eqI) (auto simp: bit_simps)
  ultimately show ?thesis unfolding i using lt by (simp add: crc16tab_bytes)
qed

lemma crc16_loop_ref: "crc16_loop crc buf = crc16_ref crc buf"
  by (induction buf arbitrary: crc) (simp_all add: crc16_step)

lemma crc64_step:
  "crc64_tab ! unat ((ucast crc :: u8) XOR b) XOR drop_bit 8 crc = (step64 ^^ 8) (crc XOR ucast (b :: u8))"
proof -
  let ?i = "(ucast crc :: u8) XOR b" and ?hi = "push_bit 8 (drop_bit 8 crc)"
  have "crc XOR ucast b = word_of_nat (unat ?i) XOR ?hi"
    by (rule bit_eqI) (auto simp: bit_simps dest: bit_imp_le_length)
  moreover have "take_bit 8 ?hi = 0" "drop_bit 8 ?hi = drop_bit 8 crc"
    by (rule bit_eqI; auto simp: bit_simps dest: bit_imp_le_length)+
  then have "(step64 ^^ 8) ?hi = drop_bit 8 crc" by (simp only: step64_low)
  ultimately show ?thesis by (simp add: crc64_tab_bytes byte64_def funpow_xor step64_xor)
qed

lemma crc64_eq_ref: "crc64 crc buf = crc64_ref crc buf"
  by (induction buf arbitrary: crc) (simp_all add: crc64_step)

lemma crc64_append: "crc64 crc (xs @ ys) = crc64 (crc64 crc xs) ys"
  by (induction xs arbitrary: crc) simp_all

subsection \<open>Burst errors\<close>

lemma xor_cancel: "(x :: u64) XOR z = y XOR z \<longleftrightarrow> x = y" "z XOR (x :: u64) = z XOR y \<longleftrightarrow> x = y"
  by (auto simp: bit_eq_iff bit_xor_iff)

lemma step64_inj: "step64 x = step64 y \<longleftrightarrow> x = y"
proof
  assume eq: "step64 x = step64 y"
  have top: "bit (step64 w) 63 \<longleftrightarrow> bit w 0" for w using bit_imp_le_length [of w 64] by (auto simp: step64_def bit_xor_iff bit_drop_bit_eq)
  have b0: "bit x 0 \<longleftrightarrow> bit y 0" using top [of x] top [of y] eq by simp
  then have d: "drop_bit 1 x = drop_bit 1 y" using eq by (auto simp: step64_def xor_cancel split: if_splits)
  show "x = y"
  proof (rule bit_eqI)
    fix n
    show "bit x n \<longleftrightarrow> bit y n"
      using b0 arg_cong [OF d, of "\<lambda>w. bit w (n - 1)"] by (cases n) (simp_all add: bit_drop_bit_eq)
  qed
qed simp

lemma steps64_inj: "(step64 ^^ n) x = (step64 ^^ n) y \<longleftrightarrow> x = y"
  by (induction n) (simp_all add: step64_inj)

lemma crc64_inj: "crc64 c xs = crc64 d xs \<longleftrightarrow> c = d"
  by (induction xs arbitrary: c d) (simp_all add: crc64_step steps64_inj xor_cancel)

primrec le64 :: "bytes \<Rightarrow> u64" where
  "le64 [] = 0"
| "le64 (b # bs) = ucast b XOR push_bit 8 (le64 bs)"

lemma bit_le64: "bit (le64 bs) n \<Longrightarrow> n < 8 * length bs"
  by (induction bs arbitrary: n) (fastforce simp: bit_simps dest: bit_imp_le_length)+

lemma le64_low: "take_bit 8 (le64 (b # bs)) = ucast b"
  by (rule bit_eqI) (auto simp: bit_simps dest: bit_imp_le_length)

lemma le64_high: "length bs \<le> 7 \<Longrightarrow> drop_bit 8 (le64 (b # bs)) = le64 bs"
proof (rule bit_eqI)
  fix n assume "length bs \<le> 7"
  then show "bit (drop_bit 8 (le64 (b # bs))) n \<longleftrightarrow> bit (le64 bs) n"
    using bit_le64 [of bs n] bit_imp_le_length [of b "8 + n"] by (auto simp: bit_simps)
qed

lemma le64_shift: "length bs \<le> 7 \<Longrightarrow> drop_bit 8 (push_bit 8 (le64 bs)) = le64 bs"
  using le64_high [of bs 0] by simp

lemma crc64_le64: "length m \<le> 8 \<Longrightarrow> crc64_ref c m = (step64 ^^ (8 * length m)) (c XOR le64 m)"
proof (induction m arbitrary: c)
  case (Cons b m)
  have "(step64 ^^ 8) (push_bit 8 (le64 m)) = le64 m"
    using step64_low [of 8 "push_bit 8 (le64 m)"] le64_shift [of m] Cons.prems by (simp add: take_bit_push_bit)
  then have "(step64 ^^ 8) (c XOR le64 (b # m)) = (step64 ^^ 8) (c XOR ucast b) XOR le64 m"
    by (simp add: funpow_xor step64_xor xor.assoc)
  moreover have "(step64 ^^ (8 * length (b # m))) x = (step64 ^^ (8 * length m)) ((step64 ^^ 8) x)" for x
    by (simp add: funpow_add add.commute [of 8])
  ultimately show ?case using Cons.IH [of "(step64 ^^ 8) (c XOR ucast b)"] Cons.prems by simp
qed simp

lemma le64_inj: "length xs = length ys \<Longrightarrow> length ys \<le> 8 \<Longrightarrow> le64 xs = le64 ys \<Longrightarrow> xs = ys"
proof (induction xs ys rule: list_induct2)
  case (Cons x xs y ys)
  have "(ucast x :: u64) = ucast y" using Cons.prems(2) le64_low [of x xs] le64_low [of y ys] by simp
  then have "x = y" by (auto simp: bit_eq_iff bit_simps)
  moreover have "le64 xs = le64 ys"
    using Cons.prems Cons.hyps le64_high [of xs x] le64_high [of ys y] by simp
  ultimately show ?case using Cons by simp
qed simp

text \<open>Damage in at most eight consecutive bytes changes the checksum.\<close>

lemma crc64_detects_burst:
  assumes "length xs = length ys" "length ys \<le> 8" "xs \<noteq> ys"
  shows "crc64 crc (pre @ xs @ post) \<noteq> crc64 crc (pre @ ys @ post)"
proof
  let ?c = "crc64 crc pre"
  assume "crc64 crc (pre @ xs @ post) = crc64 crc (pre @ ys @ post)"
  then have "crc64_ref ?c xs = crc64_ref ?c ys" by (simp add: crc64_append crc64_inj flip: crc64_eq_ref)
  then have "le64 xs = le64 ys" using assms by (simp add: crc64_le64 steps64_inj xor_cancel)
  with assms show False using le64_inj by blast
qed

lemma find_brace_skip: "c \<notin> set (drop i xs) \<Longrightarrow> i \<le> length xs \<Longrightarrow> find_brace c (xs @ ys) i = find_brace c (xs @ ys) (length xs)"
proof (induction "length xs - i" arbitrary: i)
  case (Suc n)
  then have i: "i < length xs" by simp
  with Suc.prems(1) have "xs ! i \<noteq> c" "c \<notin> set (drop (Suc i) xs)" by (auto simp flip: Cons_nth_drop_Suc)
  with Suc i show ?case by (subst find_brace.simps) (simp add: nth_append)
qed simp

lemma find_brace_hit: "c \<notin> set (drop i xs) \<Longrightarrow> i \<le> length xs \<Longrightarrow> find_brace c (xs @ c # ys) i = length xs"
  by (subst find_brace_skip, assumption, assumption, subst find_brace.simps) simp

lemma find_brace_miss: "c \<notin> set (drop i xs) \<Longrightarrow> i \<le> length xs \<Longrightarrow> find_brace c xs i = length xs"
  using find_brace_skip [of c i xs "[]"] find_brace.simps [of c xs "length xs"] by simp

lemma key_slot_bound: "unat (w AND 0x3FFF :: u16) < 16384"
proof -
  have "w AND 0x3FFF = take_bit 14 w" by (simp add: take_bit_eq_mask mask_eq_exp_minus_1)
  then show ?thesis using take_bit_nat_less_exp [of 14 "unat w"] by (simp add: unsigned_take_bit_eq)
qed

lemma keyHashSlot_bound: "unat (keyHashSlot key) < 16384"
  by (simp add: keyHashSlot_def Let_def key_slot_bound)

subsection \<open>What the checksums promise\<close>

text \<open>C35: The table driven checksums compute what the shift registers of their polynomials
  compute bit by bit: \<open>crc16\<close> is CRC-16/XMODEM (polynomial 0x1021, most significant bit first,
  initial value 0) and \<open>crc64\<close> is CRC-64/Jones (polynomial 0xad93d23594c935a9, reflected), for
  every message and every initial value.\<close>
theorem crc_tables_bitwise: "crc16 buf = crc16_ref 0 buf \<and> crc64 crc buf = crc64_ref crc buf"
  by (simp add: crc16_def crc16_loop_ref crc64_eq_ref)

text \<open>C36: The slot of a key in the cluster is below 16384. When the key has a non-empty tag
  between the first opening brace and the next closing brace, the slot is that of the tag alone, so
  that keys which share a tag share a slot; a key without an opening brace, without a closing
  brace after it, or with an empty tag is hashed as a whole.\<close>
theorem keyHashSlot_hash_tag:
  assumes "123 \<notin> set pre" "125 \<notin> set tag"
  shows "unat (keyHashSlot key) < 16384 \<and>
    keyHashSlot pre = crc16 pre AND 0x3FFF \<and>
    keyHashSlot (pre @ 123 # tag) = crc16 (pre @ 123 # tag) AND 0x3FFF \<and>
    keyHashSlot (pre @ 123 # tag @ 125 # post) =
      (if tag = [] then crc16 (pre @ 123 # 125 # post) else crc16 tag) AND 0x3FFF"
proof (intro conjI keyHashSlot_bound)
  show "keyHashSlot pre = crc16 pre AND 0x3FFF"
    using assms(1) by (simp add: keyHashSlot_def find_brace_miss)
  have "find_brace 125 (pre @ 123 # tag) (Suc (length pre)) = Suc (length pre + length tag)"
    using assms(2) find_brace_miss [of 125 "length pre + 1" "pre @ 123 # tag"] by simp
  then show "keyHashSlot (pre @ 123 # tag) = crc16 (pre @ 123 # tag) AND 0x3FFF"
    using assms(1) by (simp add: keyHashSlot_def find_brace_hit Let_def)
  have "find_brace 125 (pre @ 123 # tag @ 125 # post) (Suc (length pre)) = Suc (length pre + length tag)"
    using assms(2) find_brace_hit [of 125 "length pre + 1" "pre @ 123 # tag" post] by simp
  then show "keyHashSlot (pre @ 123 # tag @ 125 # post) =
      (if tag = [] then crc16 (pre @ 123 # 125 # post) else crc16 tag) AND 0x3FFF"
    using assms(1) by (simp add: keyHashSlot_def find_brace_hit Let_def)
qed

theorem keyHashSlot_hash_tag_witness:
  "keyHashSlot (str ''user:{42}:name'') = crc16 (str ''42'') AND 0x3FFF \<and>
   keyHashSlot (str ''user:{42}:mail'') = crc16 (str ''42'') AND 0x3FFF"
  using keyHashSlot_hash_tag [of "str ''user:''" "str ''42''" "str '':name''"]
    keyHashSlot_hash_tag [of "str ''user:''" "str ''42''" "str '':mail''"]
  by (simp add: str_def)

end
