(* ===== verification/Str_Builder.thy ===== *)
theory Str_Builder
  imports Prelude
begin

text \<open>
  The contract of a growable byte string, as the text functions use it: \<open>content\<close> is what it
  holds, \<open>cap\<close> the size up to which appending is safe, \<open>None\<close> a memory error. The client lemma
  is that a sequence of appends leaves the concatenation of the pieces.
\<close>

fun append_all :: "('s \<Rightarrow> bytes \<Rightarrow> 's option) \<Rightarrow> 's \<Rightarrow> bytes list \<Rightarrow> 's option" where
  "append_all app s [] = Some s"
| "append_all app s (t # ts) = do { s \<leftarrow> app s t; append_all app s ts }"

lemma append_all_append: "append_all app s (ts @ us) = do { s \<leftarrow> append_all app s ts; append_all app s us }"
  by (induction ts arbitrary: s) simp_all

locale str_builder =
  fixes inv :: "'s \<Rightarrow> bool" and content :: "'s \<Rightarrow> bytes" and cap :: nat
    and app :: "'s \<Rightarrow> bytes \<Rightarrow> 's option"
  assumes app_law: "inv s \<Longrightarrow> length (content s) + length t \<le> cap \<Longrightarrow>
    \<exists>s'. app s t = Some s' \<and> inv s' \<and> content s' = content s @ t"
begin

lemma append_all_law:
  "inv s \<Longrightarrow> length (content s) + length (concat ts) \<le> cap \<Longrightarrow>
    \<exists>s'. append_all app s ts = Some s' \<and> inv s' \<and> content s' = content s @ concat ts"
proof (induction ts arbitrary: s)
  case (Cons t ts)
  then obtain s1 where "app s t = Some s1" "inv s1" "content s1 = content s @ t"
    using app_law [of s t] by auto
  with Cons.IH [of s1] Cons.prems show ?case by auto
qed simp

text \<open>A function emits a text when it appends it, and keeps the invariant, wherever it fits.\<close>

definition emits :: "('s \<Rightarrow> 's option) \<Rightarrow> bytes \<Rightarrow> bool" where
  "emits f t \<longleftrightarrow> (\<forall>s. inv s \<longrightarrow> length (content s) + length t \<le> cap \<longrightarrow>
     (\<exists>s'. f s = Some s' \<and> inv s' \<and> content s' = content s @ t))"

lemma emitsI:
  "(\<And>s. inv s \<Longrightarrow> length (content s) + length t \<le> cap \<Longrightarrow>
    \<exists>s'. f s = Some s' \<and> inv s' \<and> content s' = content s @ t) \<Longrightarrow> emits f t"
  by (simp add: emits_def)

lemma emitsD:
  "emits f t \<Longrightarrow> inv s \<Longrightarrow> length (content s) + length t \<le> cap \<Longrightarrow>
    \<exists>s'. f s = Some s' \<and> inv s' \<and> content s' = content s @ t"
  by (simp add: emits_def)

lemma emits_app: "emits (\<lambda>s. app s t) t"
  by (rule emitsI) (rule app_law)

lemma emits_bind: "emits f t \<Longrightarrow> emits g u \<Longrightarrow> emits (\<lambda>s. f s \<bind> g) (t @ u)"
proof (rule emitsI)
  fix s assume fg: "emits f t" "emits g u" and s: "inv s" "length (content s) + length (t @ u) \<le> cap"
  obtain s1 where "f s = Some s1" "inv s1" "content s1 = content s @ t"
    using emitsD [OF fg(1) s(1)] s(2) by auto
  with emitsD [OF fg(2), of s1] s(2) show "\<exists>s'. f s \<bind> g = Some s' \<and> inv s' \<and> content s' = content s @ t @ u"
    by auto
qed

lemma emits_all: "emits (\<lambda>s. append_all app s ts) (concat ts)"
  by (rule emitsI) (rule append_all_law)

end

end
