(* ===== verification/Reply.thy ===== *)
theory Reply
  imports Util Str_Builder
begin

unbundle bit_operations_syntax

text \<open>
  The output side of a client connection (\<open>src/networking.c\<close>): the static buffer and the list of
  blocks that queue the reply, the functions that build it, the limits on its size, and
  \<open>writeToClient\<close>, which drains the queue into the socket. Strings are their contents: that the
  \<open>sds\<close> operations behave so is what the theory of \<open>sds.c\<close> shows. Clients are named by their
  \<open>id\<close>; \<open>None\<close> is a memory error or a failed assertion.
\<close>

subsection \<open>Clients\<close>

abbreviation (input) PROTO_REPLY_CHUNK_BYTES :: nat where "PROTO_REPLY_CHUNK_BYTES \<equiv> 16384"
abbreviation (input) OBJ_SHARED_BULKHDR_LEN :: int where "OBJ_SHARED_BULKHDR_LEN \<equiv> 32"
abbreviation (input) NET_MAX_WRITES_PER_EVENT :: nat where "NET_MAX_WRITES_PER_EVENT \<equiv> 65536"

abbreviation (input) CLIENT_SLAVE :: u32 where "CLIENT_SLAVE \<equiv> 0x1"
abbreviation (input) CLIENT_MASTER :: u32 where "CLIENT_MASTER \<equiv> 0x2"
abbreviation (input) CLIENT_MONITOR :: u32 where "CLIENT_MONITOR \<equiv> 0x4"
abbreviation (input) CLIENT_MULTI :: u32 where "CLIENT_MULTI \<equiv> 0x8"
abbreviation (input) CLIENT_BLOCKED :: u32 where "CLIENT_BLOCKED \<equiv> 0x10"
abbreviation (input) CLIENT_CLOSE_AFTER_REPLY :: u32 where "CLIENT_CLOSE_AFTER_REPLY \<equiv> 0x40"
abbreviation (input) CLIENT_LUA :: u32 where "CLIENT_LUA \<equiv> 0x100"
abbreviation (input) CLIENT_ASKING :: u32 where "CLIENT_ASKING \<equiv> 0x200"
abbreviation (input) CLIENT_CLOSE_ASAP :: u32 where "CLIENT_CLOSE_ASAP \<equiv> 0x400"
abbreviation (input) CLIENT_MASTER_FORCE_REPLY :: u32 where "CLIENT_MASTER_FORCE_REPLY \<equiv> 0x2000"
abbreviation (input) CLIENT_PRE_PSYNC :: u32 where "CLIENT_PRE_PSYNC \<equiv> 0x10000"
abbreviation (input) CLIENT_PUBSUB :: u32 where "CLIENT_PUBSUB \<equiv> 0x40000"
abbreviation (input) CLIENT_PENDING_WRITE :: u32 where "CLIENT_PENDING_WRITE \<equiv> 0x200000"
abbreviation (input) CLIENT_REPLY_OFF :: u32 where "CLIENT_REPLY_OFF \<equiv> 0x400000"
abbreviation (input) CLIENT_REPLY_SKIP_NEXT :: u32 where "CLIENT_REPLY_SKIP_NEXT \<equiv> 0x800000"
abbreviation (input) CLIENT_REPLY_SKIP :: u32 where "CLIENT_REPLY_SKIP \<equiv> 0x1000000"
abbreviation (input) CLIENT_MODULE :: u32 where "CLIENT_MODULE \<equiv> 0x8000000"

abbreviation (input) REPL_STATE_NONE :: nat where "REPL_STATE_NONE \<equiv> 0"
abbreviation (input) SLAVE_STATE_WAIT_BGSAVE_START :: nat where "SLAVE_STATE_WAIT_BGSAVE_START \<equiv> 6"
abbreviation (input) SLAVE_STATE_WAIT_BGSAVE_END :: nat where "SLAVE_STATE_WAIT_BGSAVE_END \<equiv> 7"
abbreviation (input) SLAVE_STATE_ONLINE :: nat where "SLAVE_STATE_ONLINE \<equiv> 9"

text \<open>A string object: encoded as an \<open>sds\<close> (raw or embedded) or as an integer.\<close>

datatype robj = Str_obj bytes | Int_obj i64

text \<open>The fields of \<open>client\<close> that this development uses. A block of the reply list is \<open>None\<close> while it
  is the placeholder of a length that is not known yet.\<close>

record client =
  client_id :: nat
  fd :: int
  querybuf :: bytes
  pending_querybuf :: bytes
  querybuf_peak :: nat
  argv :: "robj list"
  reqtype :: nat
  multibulklen :: int
  bulklen :: int
  reply :: "bytes option list"
  reply_bytes :: nat
  sentlen :: nat
  lastinteraction :: int
  obuf_soft_limit_reached_time :: int
  flags :: u32
  replstate :: nat
  repl_put_online_on_ack :: bool
  read_reploff :: int
  reploff :: int
  repl_ack_time :: int
  psync_initial_offset :: int
  slave_capa :: u32
  btype :: nat
  bufpos :: nat
  buf :: bytes

record obuf_limits =
  hard_limit_bytes :: nat
  soft_limit_bytes :: nat
  soft_limit_seconds :: int

text \<open>The part of \<open>server\<close> that the networking code reads and writes.\<close>

record net =
  unixtime :: int
  client_obuf_limits :: "obuf_limits list"
  clients_pending_write :: "nat list"
  clients_to_close :: "nat list"
  stat_net_input_bytes :: nat
  stat_net_output_bytes :: nat
  maxmemory :: nat

definition has :: "client \<Rightarrow> u32 \<Rightarrow> bool" where
  "has c fl \<longleftrightarrow> flags c AND fl \<noteq> 0"

definition clientHasPendingReplies :: "client \<Rightarrow> bool" where
  "clientHasPendingReplies c \<longleftrightarrow> bufpos c \<noteq> 0 \<or> reply c \<noteq> []"

definition prepareClientToWrite :: "net \<times> client \<Rightarrow> bool \<times> net \<times> client" where
  "prepareClientToWrite nc =
     (let (n, c) = nc in
      if has c (CLIENT_LUA OR CLIENT_MODULE) then (True, n, c)
      else if has c (CLIENT_REPLY_OFF OR CLIENT_REPLY_SKIP) then (False, n, c)
      else if has c CLIENT_MASTER \<and> \<not> has c CLIENT_MASTER_FORCE_REPLY then (False, n, c)
      else if fd c \<le> 0 then (False, n, c)
      else if \<not> clientHasPendingReplies c \<and> \<not> has c CLIENT_PENDING_WRITE \<and>
        (replstate c = REPL_STATE_NONE \<or> (replstate c = SLAVE_STATE_ONLINE \<and> \<not> repl_put_online_on_ack c))
      then (True, n\<lparr>clients_pending_write := client_id c # clients_pending_write n\<rparr>,
            c\<lparr>flags := flags c OR CLIENT_PENDING_WRITE\<rparr>)
      else (True, n, c))"

subsection \<open>Limits of the output buffers\<close>

definition freeClientAsync :: "net \<times> client \<Rightarrow> net \<times> client" where
  "freeClientAsync nc =
     (let (n, c) = nc in
      if has c CLIENT_CLOSE_ASAP \<or> has c CLIENT_LUA then (n, c)
      else (n\<lparr>clients_to_close := clients_to_close n @ [client_id c]\<rparr>,
            c\<lparr>flags := flags c OR CLIENT_CLOSE_ASAP\<rparr>))"

text \<open>\<open>sizeof(listNode)\<close> is 24.\<close>

definition getClientOutputBufferMemoryUsage :: "client \<Rightarrow> nat" where
  "getClientOutputBufferMemoryUsage c = (reply_bytes c + (24 + 5) * length (reply c)) mod 2 ^ 64"

abbreviation (input) CLIENT_TYPE_NORMAL :: nat where "CLIENT_TYPE_NORMAL \<equiv> 0"
abbreviation (input) CLIENT_TYPE_SLAVE :: nat where "CLIENT_TYPE_SLAVE \<equiv> 1"
abbreviation (input) CLIENT_TYPE_PUBSUB :: nat where "CLIENT_TYPE_PUBSUB \<equiv> 2"
abbreviation (input) CLIENT_TYPE_MASTER :: nat where "CLIENT_TYPE_MASTER \<equiv> 3"

definition getClientType :: "client \<Rightarrow> nat" where
  "getClientType c =
     (if has c CLIENT_MASTER then CLIENT_TYPE_MASTER
      else if has c CLIENT_SLAVE \<and> \<not> has c CLIENT_MONITOR then CLIENT_TYPE_SLAVE
      else if has c CLIENT_PUBSUB then CLIENT_TYPE_PUBSUB
      else CLIENT_TYPE_NORMAL)"

definition checkClientOutputBufferLimits :: "net \<Rightarrow> client \<Rightarrow> bool \<times> client" where
  "checkClientOutputBufferLimits n c =
     (let used_mem = getClientOutputBufferMemoryUsage c;
          ty = getClientType c;
          ty = (if ty = CLIENT_TYPE_MASTER then CLIENT_TYPE_NORMAL else ty);
          lim = client_obuf_limits n ! ty;
          hard = (hard_limit_bytes lim \<noteq> 0 \<and> used_mem \<ge> hard_limit_bytes lim);
          soft = (soft_limit_bytes lim \<noteq> 0 \<and> used_mem \<ge> soft_limit_bytes lim)
      in if soft then
           if obuf_soft_limit_reached_time c = 0
           then (hard, c\<lparr>obuf_soft_limit_reached_time := unixtime n\<rparr>)
           else let elapsed = unixtime n - obuf_soft_limit_reached_time c
                in (\<not> elapsed \<le> soft_limit_seconds lim \<or> hard, c)
         else (hard, c\<lparr>obuf_soft_limit_reached_time := 0\<rparr>))"

definition asyncCloseClientOnOutputBufferLimitReached :: "net \<times> client \<Rightarrow> (net \<times> client) option" where
  "asyncCloseClientOnOutputBufferLimitReached nc =
     (let (n, c) = nc in
      if \<not> reply_bytes c < (2 ^ 64 - 1) - 1024 * 64 then None
      else if reply_bytes c = 0 \<or> has c CLIENT_CLOSE_ASAP then Some (n, c)
      else let (reached, c) = checkClientOutputBufferLimits n c
           in Some (if reached then freeClientAsync (n, c) else (n, c)))"

subsection \<open>Queueing bytes\<close>

definition addReplyToBuffer :: "client \<Rightarrow> bytes \<Rightarrow> (bool \<times> client) option" where
  "addReplyToBuffer c s =
     (let available = PROTO_REPLY_CHUNK_BYTES - bufpos c in
      if has c CLIENT_CLOSE_AFTER_REPLY then Some (True, c)
      else if length (reply c) > 0 then Some (False, c)
      else if length s > available then Some (False, c)
      else do { b \<leftarrow> wrn (buf c) (bufpos c) s; Some (True, c\<lparr>buf := b, bufpos := bufpos c + length s\<rparr>) })"

text \<open>Appending to the last block when there is one, it is not a placeholder and the result is not
  larger than a chunk; a new block otherwise.\<close>

definition add_block :: "bytes \<Rightarrow> client \<Rightarrow> client" where
  "add_block s c =
     (let c = c\<lparr>reply_bytes := (reply_bytes c + length s) mod 2 ^ 64\<rparr> in
      if length (reply c) = 0 then c\<lparr>reply := [Some s]\<rparr>
      else case last (reply c) of
        Some tail \<Rightarrow>
          if length tail + length s \<le> PROTO_REPLY_CHUNK_BYTES
          then c\<lparr>reply := butlast (reply c) @ [Some (tail @ s)]\<rparr>
          else c\<lparr>reply := reply c @ [Some s]\<rparr>
      | None \<Rightarrow> c\<lparr>reply := reply c @ [Some s]\<rparr>)"

definition addReplyStringToList :: "net \<times> client \<Rightarrow> bytes \<Rightarrow> (net \<times> client) option" where
  "addReplyStringToList nc s =
     (let (n, c) = nc in
      if has c CLIENT_CLOSE_AFTER_REPLY then Some (n, c)
      else asyncCloseClientOnOutputBufferLimitReached (n, add_block s c))"

definition addReplySdsToList :: "net \<times> client \<Rightarrow> bytes \<Rightarrow> (net \<times> client) option" where
  "addReplySdsToList nc s =
     (let (n, c) = nc in
      if has c CLIENT_CLOSE_AFTER_REPLY then Some (n, c)
      else asyncCloseClientOnOutputBufferLimitReached (n, add_block s c))"

definition addReplyObjectToList :: "net \<times> client \<Rightarrow> robj \<Rightarrow> (net \<times> client) option" where
  "addReplyObjectToList nc obj =
     (let (n, c) = nc in
      if has c CLIENT_CLOSE_AFTER_REPLY then Some (n, c)
      else case obj of
        Str_obj s \<Rightarrow> asyncCloseClientOnOutputBufferLimitReached (n, add_block s c)
      | Int_obj _ \<Rightarrow> None)"

definition getDecodedObject :: "(nat \<Rightarrow> u8) \<Rightarrow> robj \<Rightarrow> robj option" where
  "getDecodedObject junk obj =
     (case obj of
        Str_obj s \<Rightarrow> Some (Str_obj s)
      | Int_obj v \<Rightarrow> do { (b, len) \<leftarrow> ll2string (map junk [0..<32]) 32 v; Some (Str_obj (cstring b)) })"

text \<open>The common end of \<open>addReply\<close> for an object with an \<open>sds\<close>: the static buffer, else the list.\<close>

definition add_encoded :: "net \<times> client \<Rightarrow> robj \<Rightarrow> (net \<times> client) option" where
  "add_encoded nc obj =
     (case obj of
        Str_obj s \<Rightarrow> do {
          (ok, c) \<leftarrow> addReplyToBuffer (snd nc) s;
          if ok then Some (fst nc, c) else addReplyObjectToList (fst nc, c) obj }
      | Int_obj _ \<Rightarrow> None)"

definition addReply :: "(nat \<Rightarrow> u8) \<Rightarrow> net \<times> client \<Rightarrow> robj \<Rightarrow> (net \<times> client) option" where
  "addReply junk nc obj =
     (let (ready, n, c) = prepareClientToWrite nc in
      if \<not> ready then Some (n, c)
      else case obj of
        Str_obj s \<Rightarrow> add_encoded (n, c) obj
      | Int_obj v \<Rightarrow> do {
          (ok, c) \<leftarrow>
            (if length (reply c) = 0 \<and> PROTO_REPLY_CHUNK_BYTES - bufpos c \<ge> 32
             then do { (b, len) \<leftarrow> ll2string (map junk [0..<32]) 32 v; addReplyToBuffer c (take len b) }
             else Some (False, c));
          if ok then Some (n, c)
          else do { obj \<leftarrow> getDecodedObject junk obj; add_encoded (n, c) obj } })"

definition addReplySds :: "net \<times> client \<Rightarrow> bytes \<Rightarrow> (net \<times> client) option" where
  "addReplySds nc s =
     (let (ready, n, c) = prepareClientToWrite nc in
      if \<not> ready then Some (n, c)
      else do {
        (ok, c) \<leftarrow> addReplyToBuffer c s;
        if ok then Some (n, c) else addReplySdsToList (n, c) s })"

definition addReplyString :: "net \<times> client \<Rightarrow> bytes \<Rightarrow> (net \<times> client) option" where
  "addReplyString nc s =
     (let (ready, n, c) = prepareClientToWrite nc in
      if \<not> ready then Some (n, c)
      else do {
        (ok, c) \<leftarrow> addReplyToBuffer c s;
        if ok then Some (n, c) else addReplyStringToList (n, c) s })"

subsection \<open>Replies of the protocol\<close>

abbreviation crlf :: bytes where "crlf \<equiv> [13, 10]"

text \<open>The shared objects that the replies use (\<open>createSharedObjects\<close> in \<open>src/server.c\<close>).\<close>

definition shared_crlf :: robj where "shared_crlf = Str_obj crlf"
definition shared_czero :: robj where "shared_czero = Str_obj (str '':0'' @ crlf)"
definition shared_cone :: robj where "shared_cone = Str_obj (str '':1'' @ crlf)"
definition shared_nullbulk :: robj where "shared_nullbulk = Str_obj (str ''$-1'' @ crlf)"

definition shared_mbulkhdr :: "robj list" where
  "shared_mbulkhdr = map (\<lambda>j. Str_obj (str ''*'' @ dec_nat j @ crlf)) [0..<32]"

definition shared_bulkhdr :: "robj list" where
  "shared_bulkhdr = map (\<lambda>j. Str_obj (str ''$'' @ dec_nat j @ crlf)) [0..<32]"

definition addReplyErrorLength :: "net \<times> client \<Rightarrow> bytes \<Rightarrow> (net \<times> client) option" where
  "addReplyErrorLength nc s = do {
     nc \<leftarrow> addReplyString nc (str ''-ERR '');
     nc \<leftarrow> addReplyString nc s;
     addReplyString nc crlf }"

definition addReplyError :: "net \<times> client \<Rightarrow> bytes \<Rightarrow> (net \<times> client) option" where
  "addReplyError nc err = addReplyErrorLength nc (cstring err)"

text \<open>The formatted text is an argument; no line break of it reaches the client.\<close>

definition addReplyErrorFormat :: "net \<times> client \<Rightarrow> bytes \<Rightarrow> (net \<times> client) option" where
  "addReplyErrorFormat nc s =
     addReplyErrorLength nc (map (\<lambda>b. if b = 13 \<or> b = 10 then 32 else b) s)"

definition addReplyStatusLength :: "net \<times> client \<Rightarrow> bytes \<Rightarrow> (net \<times> client) option" where
  "addReplyStatusLength nc s = do {
     nc \<leftarrow> addReplyString nc (str ''+'');
     nc \<leftarrow> addReplyString nc s;
     addReplyString nc crlf }"

definition addReplyStatus :: "net \<times> client \<Rightarrow> bytes \<Rightarrow> (net \<times> client) option" where
  "addReplyStatus nc status = addReplyStatusLength nc (cstring status)"

text \<open>A deferred length is a placeholder in the list; its node is named by its position.\<close>

definition addDeferredMultiBulkLength :: "net \<times> client \<Rightarrow> nat option \<times> net \<times> client" where
  "addDeferredMultiBulkLength nc =
     (let (ready, n, c) = prepareClientToWrite nc in
      if \<not> ready then (None, n, c)
      else (Some (length (reply c)), n, c\<lparr>reply := reply c @ [None]\<rparr>))"

definition setDeferredMultiBulkLength :: "net \<times> client \<Rightarrow> nat option \<Rightarrow> int \<Rightarrow> (net \<times> client) option" where
  "setDeferredMultiBulkLength nc node len =
     (let (n, c) = nc in
      case node of
        None \<Rightarrow> Some (n, c)
      | Some i \<Rightarrow>
          if i \<ge> length (reply c) then None
          else
            let t = str ''*'' @ dec_int len @ crlf;
                c = c\<lparr>reply := (reply c)[i := Some t], reply_bytes := (reply_bytes c + length t) mod 2 ^ 64\<rparr>;
                c = (if i + 1 < length (reply c) then
                       case reply c ! (i + 1) of
                         None \<Rightarrow> c
                       | Some nx \<Rightarrow> c\<lparr>reply := take i (reply c) @ [Some (t @ nx)] @ drop (i + 2) (reply c)\<rparr>
                     else c)
            in asyncCloseClientOnOutputBufferLimitReached (n, c))"

definition addReplyLongLongWithPrefix :: "(nat \<Rightarrow> u8) \<Rightarrow> net \<times> client \<Rightarrow> i64 \<Rightarrow> u8 \<Rightarrow> (net \<times> client) option" where
  "addReplyLongLongWithPrefix junk nc ll prefix =
     (if prefix = 42 \<and> sint ll < OBJ_SHARED_BULKHDR_LEN \<and> sint ll \<ge> 0 then
        do { obj \<leftarrow> rd shared_mbulkhdr (sint ll); addReply junk nc obj }
      else if prefix = 36 \<and> sint ll < OBJ_SHARED_BULKHDR_LEN \<and> sint ll \<ge> 0 then
        do { obj \<leftarrow> rd shared_bulkhdr (sint ll); addReply junk nc obj }
      else do {
        (b, len) \<leftarrow> ll2string (map junk [1..<128]) 127 ll;
        b \<leftarrow> wr (prefix # b) (int len + 1) 13;
        b \<leftarrow> wr b (int len + 2) 10;
        b \<leftarrow> rdn b 0 (len + 3);
        addReplyString nc b })"

definition addReplyLongLong :: "(nat \<Rightarrow> u8) \<Rightarrow> net \<times> client \<Rightarrow> i64 \<Rightarrow> (net \<times> client) option" where
  "addReplyLongLong junk nc ll =
     (if ll = 0 then addReply junk nc shared_czero
      else if ll = 1 then addReply junk nc shared_cone
      else addReplyLongLongWithPrefix junk nc ll 58)"

definition addReplyMultiBulkLen :: "(nat \<Rightarrow> u8) \<Rightarrow> net \<times> client \<Rightarrow> i64 \<Rightarrow> (net \<times> client) option" where
  "addReplyMultiBulkLen junk nc len =
     (if sint len < OBJ_SHARED_BULKHDR_LEN then do { obj \<leftarrow> rd shared_mbulkhdr (sint len); addReply junk nc obj }
      else addReplyLongLongWithPrefix junk nc len 42)"

fun radix10_loop :: "nat \<Rightarrow> nat \<Rightarrow> nat" where
  "radix10_loop n len = (if n div 10 \<noteq> 0 then radix10_loop (n div 10) (len + 1) else len)"

declare radix10_loop.simps [simp del]

text \<open>The most negative integer has no negation in \<open>long\<close>: the result of \<open>-n\<close> is not defined.\<close>

definition bulk_len :: "robj \<Rightarrow> nat option" where
  "bulk_len obj =
     (case obj of
        Str_obj s \<Rightarrow> Some (length s)
      | Int_obj v \<Rightarrow>
          if sint v = LLONG_MIN then None
          else if sint v < 0 then Some (radix10_loop (nat (- sint v)) 2)
          else Some (radix10_loop (nat (sint v)) 1))"

definition addReplyBulkLen :: "(nat \<Rightarrow> u8) \<Rightarrow> net \<times> client \<Rightarrow> robj \<Rightarrow> (net \<times> client) option" where
  "addReplyBulkLen junk nc obj = do {
     len \<leftarrow> bulk_len obj;
     if int len < OBJ_SHARED_BULKHDR_LEN then do { hdr \<leftarrow> rd shared_bulkhdr (int len); addReply junk nc hdr }
     else addReplyLongLongWithPrefix junk nc (word_of_nat len) 36 }"

definition addReplyBulk :: "(nat \<Rightarrow> u8) \<Rightarrow> net \<times> client \<Rightarrow> robj \<Rightarrow> (net \<times> client) option" where
  "addReplyBulk junk nc obj = do {
     nc \<leftarrow> addReplyBulkLen junk nc obj;
     nc \<leftarrow> addReply junk nc obj;
     addReply junk nc shared_crlf }"

definition addReplyBulkCBuffer :: "(nat \<Rightarrow> u8) \<Rightarrow> net \<times> client \<Rightarrow> bytes \<Rightarrow> (net \<times> client) option" where
  "addReplyBulkCBuffer junk nc p = do {
     nc \<leftarrow> addReplyLongLongWithPrefix junk nc (word_of_nat (length p)) 36;
     nc \<leftarrow> addReplyString nc p;
     addReply junk nc shared_crlf }"

definition addReplyBulkSds :: "(nat \<Rightarrow> u8) \<Rightarrow> net \<times> client \<Rightarrow> bytes \<Rightarrow> (net \<times> client) option" where
  "addReplyBulkSds junk nc s = do {
     nc \<leftarrow> addReplyLongLongWithPrefix junk nc (word_of_nat (length s)) 36;
     nc \<leftarrow> addReplySds nc s;
     addReply junk nc shared_crlf }"

definition addReplyBulkCString :: "(nat \<Rightarrow> u8) \<Rightarrow> net \<times> client \<Rightarrow> bytes option \<Rightarrow> (net \<times> client) option" where
  "addReplyBulkCString junk nc s =
     (case s of None \<Rightarrow> addReply junk nc shared_nullbulk | Some s \<Rightarrow> addReplyBulkCBuffer junk nc (cstring s))"

definition addReplyBulkLongLong :: "(nat \<Rightarrow> u8) \<Rightarrow> net \<times> client \<Rightarrow> i64 \<Rightarrow> (net \<times> client) option" where
  "addReplyBulkLongLong junk nc ll = do {
     (b, len) \<leftarrow> ll2string (map junk [0..<64]) 64 ll;
     addReplyBulkCBuffer junk nc (take len b) }"

definition copyClientOutputBuffer :: "client \<Rightarrow> client \<Rightarrow> client option" where
  "copyClientOutputBuffer dst src = do {
     d \<leftarrow> rdn (buf src) 0 (bufpos src);
     b \<leftarrow> wrn (buf dst) 0 d;
     Some (dst\<lparr>reply := reply src, buf := b, bufpos := bufpos src, reply_bytes := reply_bytes src\<rparr>) }"

subsection \<open>Writing to the socket\<close>

text \<open>
  \<open>write_res k n\<close> is what the \<open>k\<close>th call of \<open>write(2)\<close> returns when it is asked to write \<open>n\<close> bytes and
  \<open>used_memory k\<close> what \<open>zmalloc_used_memory\<close> returns after it. The system call never reports more
  bytes than it was given. The loop returns the last result, the number of bytes written, the
  bytes themselves and the client.
\<close>

definition sub64 :: "nat \<Rightarrow> nat \<Rightarrow> nat" where
  "sub64 a b = (a + (2 ^ 64 - b)) mod 2 ^ 64"

definition stop_writing :: "net \<Rightarrow> nat \<Rightarrow> nat \<Rightarrow> bool" where
  "stop_writing n used tot \<longleftrightarrow> tot > NET_MAX_WRITES_PER_EVENT \<and> (maxmemory n = 0 \<or> used < maxmemory n)"

lemma written_less: "\<not> w \<le> 0 \<Longrightarrow> \<not> n - m < nat w \<Longrightarrow> n - (m + nat w) < n - m"
  by (cases "m < n") simp_all

function write_loop ::
  "(nat \<Rightarrow> nat \<Rightarrow> int) \<Rightarrow> (nat \<Rightarrow> nat) \<Rightarrow> net \<Rightarrow> nat \<Rightarrow> int \<Rightarrow> bytes \<Rightarrow> client \<Rightarrow> (int \<times> bytes \<times> client) option" where
  "write_loop write_res used_memory n k nwritten sent c =
     (if \<not> clientHasPendingReplies c then Some (nwritten, sent, c)
      else if bufpos c > 0 then
        let req = bufpos c - sentlen c; nw = write_res k req in
        if nw \<le> 0 then Some (nw, sent, c)
        else if nat nw > req then None
        else do {
          d \<leftarrow> rdn (buf c) (sentlen c) (nat nw);
          let c = c\<lparr>sentlen := sentlen c + nat nw\<rparr>;
          let c = (if sentlen c = bufpos c then c\<lparr>bufpos := 0, sentlen := 0\<rparr> else c);
          if stop_writing n (used_memory k) (length (sent @ d)) then Some (nw, sent @ d, c)
          else write_loop write_res used_memory n (k + 1) nw (sent @ d) c }
      else case reply c of
        [] \<Rightarrow> None
      | None # rest \<Rightarrow> None
      | Some obj # rest \<Rightarrow>
          if length obj = 0 then
            write_loop write_res used_memory n k nwritten sent (c\<lparr>reply := rest\<rparr>)
          else
            let req = length obj - sentlen c; nw = write_res k req in
            if nw \<le> 0 then Some (nw, sent, c)
            else if nat nw > req then None
            else do {
              d \<leftarrow> rdn obj (sentlen c) (nat nw);
              let c = c\<lparr>sentlen := sentlen c + nat nw\<rparr>;
              let c = (if sentlen c = length obj
                       then c\<lparr>reply := rest, sentlen := 0, reply_bytes := sub64 (reply_bytes c) (length obj)\<rparr>
                       else c);
              if reply c = [] \<and> reply_bytes c \<noteq> 0 then None
              else if stop_writing n (used_memory k) (length (sent @ d)) then Some (nw, sent @ d, c)
              else write_loop write_res used_memory n (k + 1) nw (sent @ d) c })"
  by pat_completeness auto
termination
  by (relation "measures [\<lambda>(w, u, n, k, nw, sent, c). length (reply c) + (if bufpos c > 0 then 1 else 0),
       \<lambda>(w, u, n, k, nw, sent, c). (if bufpos c > 0 then bufpos c else case reply c of Some r # _ \<Rightarrow> length r | _ \<Rightarrow> 0) - sentlen c]")
    (auto split: if_splits intro: written_less)

declare write_loop.simps [simp del]

text \<open>The client that \<open>writeToClient\<close> returns is \<open>None\<close> when it has been freed.\<close>

definition writeToClient ::
  "(nat \<Rightarrow> nat \<Rightarrow> int) \<Rightarrow> (nat \<Rightarrow> nat) \<Rightarrow> bool \<Rightarrow> net \<times> client \<Rightarrow> (bytes \<times> net \<times> client option) option" where
  "writeToClient write_res used_memory eagain nc =
     (let (n, c) = nc in do {
        (nwritten, sent, c) \<leftarrow> write_loop write_res used_memory n 0 0 [] c;
        let n = n\<lparr>stat_net_output_bytes := stat_net_output_bytes n + length sent\<rparr>;
        if nwritten = - 1 \<and> \<not> eagain then Some (sent, n, None)
        else
          let c = (if length sent > 0 \<and> \<not> has c CLIENT_MASTER then c\<lparr>lastinteraction := unixtime n\<rparr> else c)
          in if clientHasPendingReplies c then Some (sent, n, Some c)
             else if has c CLIENT_CLOSE_AFTER_REPLY then Some (sent, n, None)
             else Some (sent, n, Some (c\<lparr>sentlen := 0\<rparr>)) })"

subsection \<open>The queue\<close>

text \<open>What a client has been sent or will be sent of the current reply: the used part of the static
  buffer followed by the blocks. \<open>sentlen\<close> bytes of its head are already in the socket.\<close>

primrec block :: "bytes option \<Rightarrow> bytes" where
  "block None = []"
| "block (Some s) = s"

definition blocks :: "bytes option list \<Rightarrow> bytes" where
  "blocks rs = concat (map block rs)"

definition queue :: "client \<Rightarrow> bytes" where
  "queue c = take (bufpos c) (buf c) @ blocks (reply c)"

abbreviation out_queue :: "net \<times> client \<Rightarrow> bytes" where
  "out_queue nc \<equiv> queue (snd nc)"

definition out_max :: nat where "out_max = 2 ^ 64 - 2 - 65536"

definition sent_ok :: "client \<Rightarrow> bool" where
  "sent_ok c \<longleftrightarrow>
     (if bufpos c > 0 then sentlen c < bufpos c
      else sentlen c = 0 \<or> (case reply c of Some r # _ \<Rightarrow> sentlen c < length r | _ \<Rightarrow> False))"

definition client_ok :: "client \<Rightarrow> bool" where
  "client_ok c \<longleftrightarrow> length (buf c) = PROTO_REPLY_CHUNK_BYTES \<and> bufpos c \<le> PROTO_REPLY_CHUNK_BYTES \<and>
     reply_bytes c = length (blocks (reply c)) \<and> reply_bytes c \<le> out_max \<and> sent_ok c"

text \<open>Queueing changes the queue, two flags and the time the soft limit was reached; the rest of a
  client is its frame. Whether a client accepts replies depends on its frame alone.\<close>

definition frame :: "client \<Rightarrow> client" where
  "frame c = c\<lparr>buf := [], bufpos := 0, reply := [], reply_bytes := 0, obuf_soft_limit_reached_time := 0,
     flags := flags c AND NOT (CLIENT_PENDING_WRITE OR CLIENT_CLOSE_ASAP)\<rparr>"

definition writable :: "client \<Rightarrow> bool" where
  "writable c \<longleftrightarrow> has c (CLIENT_LUA OR CLIENT_MODULE) \<or>
     (\<not> has c (CLIENT_REPLY_OFF OR CLIENT_REPLY_SKIP) \<and>
      \<not> (has c CLIENT_MASTER \<and> \<not> has c CLIENT_MASTER_FORCE_REPLY) \<and> fd c > 0)"

definition accepts :: "client \<Rightarrow> bool" where
  "accepts c \<longleftrightarrow> writable c \<and> \<not> has c CLIENT_CLOSE_AFTER_REPLY"

text \<open>A placeholder stays where it is while more is queued: what is in front of it is \<open>b\<close> in the static
  buffer and \<open>rs\<close> in the list.\<close>

fun placed :: "(bytes \<times> bytes option list) option \<Rightarrow> client \<Rightarrow> bool" where
  "placed None c \<longleftrightarrow> True"
| "placed (Some (b, rs)) c \<longleftrightarrow> take (bufpos c) (buf c) = b \<and> (\<exists>ext. reply c = rs @ None # ext)"

definition accepting :: "client \<times> (bytes \<times> bytes option list) option \<Rightarrow> net \<times> client \<Rightarrow> bool" where
  "accepting x nc \<longleftrightarrow> client_ok (snd nc) \<and> accepts (snd nc) \<and> frame (snd nc) = fst x \<and> placed (snd x) (snd nc)"

definition same_out :: "client \<Rightarrow> client \<Rightarrow> bool" where
  "same_out c c' \<longleftrightarrow> frame c' = frame c \<and> buf c' = buf c \<and> bufpos c' = bufpos c \<and>
     reply c' = reply c \<and> reply_bytes c' = reply_bytes c"

lemma blocks_simps [simp]:
  "blocks [] = []" "blocks (r # rs) = block r @ blocks rs" "blocks (rs @ ss) = blocks rs @ blocks ss"
  by (simp_all add: blocks_def)

lemma and_not_and: "f AND m = 0 \<Longrightarrow> (w AND NOT m) AND f = w AND (f :: 'a :: len word)"
  by (auto simp: bit_eq_iff bit_simps)

lemma has_frame: "fl AND (CLIENT_PENDING_WRITE OR CLIENT_CLOSE_ASAP) = 0 \<Longrightarrow> has (frame c) fl = has c fl"
  using and_not_and [of fl "CLIENT_PENDING_WRITE OR CLIENT_CLOSE_ASAP" "flags c"] by (simp add: has_def frame_def)

lemma writable_frame: "writable (frame c) = writable c"
  by (simp add: writable_def has_frame) (simp add: frame_def)

lemma accepts_frame: "accepts (frame c) = accepts c"
  by (simp add: accepts_def writable_frame has_frame)

lemma frame_sel [simp]:
  "sentlen (frame c) = sentlen c" "fd (frame c) = fd c" "replstate (frame c) = replstate c"
  "client_id (frame c) = client_id c" "querybuf (frame c) = querybuf c"
  by (simp_all add: frame_def)

lemma frame_upd [simp]:
  "frame (c\<lparr>flags := flags c OR CLIENT_PENDING_WRITE\<rparr>) = frame c"
  "frame (c\<lparr>flags := flags c OR CLIENT_CLOSE_ASAP\<rparr>) = frame c"
  "frame (c\<lparr>obuf_soft_limit_reached_time := t\<rparr>) = frame c"
  "frame (c\<lparr>buf := b\<rparr>) = frame c" "frame (c\<lparr>bufpos := k\<rparr>) = frame c"
  "frame (c\<lparr>reply := rs\<rparr>) = frame c" "frame (c\<lparr>reply_bytes := k\<rparr>) = frame c"
  by (simp_all add: frame_def bit.conj_disj_distrib2)

lemma same_out_facts:
  assumes "same_out c c'"
  shows "out_queue (n', c') = out_queue (n, c)" "client_ok c' = client_ok c" "frame c' = frame c"
    "accepts c' = accepts c" "reply c' = reply c" "bufpos c' = bufpos c" "placed p c' = placed p c"
proof -
  have f: "frame c' = frame c" using assms by (simp add: same_out_def)
  show "accepts c' = accepts c" by (metis f accepts_frame)
  have "sentlen c' = sentlen c" by (metis f frame_sel(1))
  then show "client_ok c' = client_ok c" using assms by (simp add: client_ok_def sent_ok_def same_out_def split: list.split option.split)
  show "placed p c' = placed p c" using assms by (induction p c rule: placed.induct) (simp_all add: same_out_def)
qed (use assms in \<open>simp_all add: same_out_def queue_def\<close>)

lemma prepare_writable:
  "writable c \<Longrightarrow> \<exists>n' c'. prepareClientToWrite (n, c) = (True, n', c') \<and> same_out c c'"
  by (auto simp: prepareClientToWrite_def writable_def same_out_def Let_def)

lemma prepare_refused: "\<not> writable c \<Longrightarrow> prepareClientToWrite (n, c) = (False, n, c)"
  by (auto simp: prepareClientToWrite_def writable_def)

lemma async_close_spec:
  assumes "client_ok c"
  shows "\<exists>n' c'. asyncCloseClientOnOutputBufferLimitReached (n, c) = Some (n', c') \<and> same_out c c'"
proof -
  have "reply_bytes c < 2 ^ 64 - 1 - 1024 * 64" using assms by (simp add: client_ok_def out_max_def)
  moreover have "same_out c (snd (freeClientAsync (n, c')))" "same_out c c'"
    if "c' = snd (checkClientOutputBufferLimits n c)" for c'
    using that by (auto simp: checkClientOutputBufferLimits_def freeClientAsync_def same_out_def Let_def)
  ultimately show ?thesis
    by (auto simp: asyncCloseClientOnOutputBufferLimitReached_def Let_def same_out_def [of c c] split: prod.splits)
      (metis prod.collapse)
qed

lemma add_block_reply:
  "\<exists>rs. reply (add_block s c) = rs \<and> blocks rs = blocks (reply c) @ s \<and>
     (case reply c of Some r # _ \<Rightarrow> \<exists>r' rs'. rs = Some (r @ r') # rs' | _ \<Rightarrow> True)"
proof (cases "reply c" rule: rev_cases)
  case (snoc rs r)
  then show ?thesis
    by (cases rs; cases r) (auto simp: add_block_def Let_def split: option.splits)
qed (simp add: add_block_def Let_def)

lemma add_block_placed: "placed p c \<Longrightarrow> placed p (add_block s c)"
proof (induction p c rule: placed.induct)
  case (2 b rs c)
  then obtain ext where r: "reply c = rs @ None # ext" "take (bufpos c) (buf c) = b" by auto
  have "\<exists>ext. reply (add_block s c) = rs @ None # ext"
    using r(1) by (cases ext rule: rev_cases) (auto simp: add_block_def Let_def butlast_append split: option.split)
  then show ?case using r(2) by (auto simp: add_block_def Let_def split: option.split)
qed simp

lemma add_block_spec:
  assumes "client_ok c" "length (out_queue (n, c)) + length s \<le> out_max"
  shows "client_ok (add_block s c)" "frame (add_block s c) = frame c"
    "out_queue (n', add_block s c) = out_queue (n, c) @ s"
proof -
  have keep: "buf (add_block s c) = buf c" "bufpos (add_block s c) = bufpos c" "sentlen (add_block s c) = sentlen c"
    "reply_bytes (add_block s c) = (reply_bytes c + length s) mod 2 ^ 64" "frame (add_block s c) = frame c"
    by (auto simp: add_block_def Let_def split: option.split)
  then show "frame (add_block s c) = frame c" by simp
  have b: "blocks (reply (add_block s c)) = blocks (reply c) @ s" using add_block_reply [of s c] by simp
  then show "out_queue (n', add_block s c) = out_queue (n, c) @ s" using keep by (simp add: queue_def)
  have r: "reply_bytes c + length s \<le> out_max" using assms by (simp add: client_ok_def queue_def)
  then have "reply_bytes c + length s < 2 ^ 64" by (simp add: out_max_def)
  moreover have "sent_ok (add_block s c)"
    using assms(1) add_block_reply [of s c] keep unfolding client_ok_def sent_ok_def
    by (auto split: list.splits option.splits if_splits)
  ultimately show "client_ok (add_block s c)" using assms(1) b keep r by (simp add: client_ok_def)
qed

lemma addReplyToBuffer_spec:
  assumes "client_ok c" "\<not> has c CLIENT_CLOSE_AFTER_REPLY" "placed p c"
  shows "addReplyToBuffer c s = Some (False, c) \<or>
    (\<exists>c'. addReplyToBuffer c s = Some (True, c') \<and> client_ok c' \<and> frame c' = frame c \<and> placed p c' \<and>
       (\<forall>n n'. out_queue (n', c') = out_queue (n, c) @ s))"
proof (cases "reply c = [] \<and> length s \<le> PROTO_REPLY_CHUNK_BYTES - bufpos c")
  case True
  let ?c = "c\<lparr>buf := put (buf c) (bufpos c) s, bufpos := bufpos c + length s\<rparr>"
  have l: "length (buf c) = 16384" "bufpos c \<le> 16384" using assms(1) by (simp_all add: client_ok_def)
  have "addReplyToBuffer c s = Some (True, ?c)"
    using True l assms(2) by (auto simp: addReplyToBuffer_def wrn_def)
  moreover have "client_ok ?c"
    using True assms(1) l by (auto simp: client_ok_def sent_ok_def put_def split: if_splits)
  moreover have "take (bufpos c + length s) (put (buf c) (bufpos c) s) = take (bufpos c) (buf c) @ s"
    using l by (simp add: put_def min_absorb2)
  moreover have "placed p ?c" using assms(3) True by (cases p) auto
  ultimately show ?thesis using True by (intro disjI2 exI [of _ ?c]) (simp add: queue_def)
qed (use assms in \<open>auto simp: addReplyToBuffer_def\<close>)

lemma to_list_law:
  assumes "accepting x (n, c)" "length (out_queue (n, c)) + length s \<le> out_max"
  shows "\<exists>nc'. addReplyStringToList (n, c) s = Some nc' \<and> accepting x nc' \<and> out_queue nc' = out_queue (n, c) @ s"
proof -
  have c: "client_ok c" "accepts c" "frame c = fst x" "placed (snd x) c" using assms(1) by (simp_all add: accepting_def)
  note b = add_block_spec [OF c(1) assms(2)] add_block_placed [OF c(4), of s]
  have "accepts (add_block s c)" using c(2) b(2) accepts_frame by metis
  moreover obtain n' c' where a: "asyncCloseClientOnOutputBufferLimitReached (n, add_block s c) = Some (n', c')" "same_out (add_block s c) c'"
    using async_close_spec [OF b(1)] by blast
  ultimately show ?thesis
    using b c same_out_facts [OF a(2)]
    by (auto simp: addReplyStringToList_def accepting_def accepts_def)
qed

lemma buffer_or_list:
  assumes "accepting x (n, c)" "length (out_queue (n, c)) + length s \<le> out_max"
  shows "\<exists>nc'. do { (ok, c) \<leftarrow> addReplyToBuffer c s; if ok then Some (n, c) else addReplyStringToList (n, c) s } = Some nc' \<and>
    accepting x nc' \<and> out_queue nc' = out_queue (n, c) @ s"
proof -
  have c: "client_ok c" "accepts c" "frame c = fst x" "placed (snd x) c" using assms(1) by (simp_all add: accepting_def)
  consider "addReplyToBuffer c s = Some (False, c)"
    | c' where "addReplyToBuffer c s = Some (True, c')" "client_ok c'" "frame c' = frame c" "placed (snd x) c'"
        "\<forall>n n'. out_queue (n', c') = out_queue (n, c) @ s"
    using addReplyToBuffer_spec [OF c(1) _ c(4), of s] c(2) by (auto simp: accepts_def)
  then show ?thesis
  proof cases
    case 1
    then show ?thesis using to_list_law [OF assms] by simp
  next
    case 2
    then show ?thesis using c accepts_frame [of c] accepts_frame [of c'] by (simp add: accepting_def)
  qed
qed

lemma object_to_list: "addReplyObjectToList nc (Str_obj s) = addReplyStringToList nc s"
  "addReplySdsToList nc s = addReplyStringToList nc s"
  by (simp_all add: addReplyObjectToList_def addReplyStringToList_def addReplySdsToList_def split: prod.split)

lemma add_encoded_eq:
  "add_encoded (n, c) (Str_obj s) = do { (ok, c) \<leftarrow> addReplyToBuffer c s; if ok then Some (n, c) else addReplyStringToList (n, c) s }"
  unfolding add_encoded_def object_to_list robj.case fst_conv snd_conv ..

lemma addReplySds_eq: "addReplySds nc s = addReplyString nc s"
  unfolding addReplySds_def addReplyString_def object_to_list ..

lemma prepare_accepting:
  assumes "accepting x nc"
  obtains n c where "prepareClientToWrite nc = (True, n, c)" "accepting x (n, c)" "out_queue (n, c) = out_queue nc"
proof -
  obtain n0 c0 where nc: "nc = (n0, c0)" by force
  have "writable c0" using assms by (simp add: nc accepting_def accepts_def)
  then obtain n c where p: "prepareClientToWrite nc = (True, n, c)" "same_out c0 c"
    unfolding nc using prepare_writable by blast
  show thesis
    by (rule that [OF p(1)]) (use assms same_out_facts [OF p(2)] in \<open>simp_all add: nc accepting_def\<close>)
qed

interpretation cl: str_builder "accepting x" out_queue out_max addReplyString for x
proof
  fix x nc and s :: bytes assume nc: "accepting x nc" "length (out_queue nc) + length s \<le> out_max"
  then obtain n c where "prepareClientToWrite nc = (True, n, c)" "accepting x (n, c)" "out_queue (n, c) = out_queue nc"
    by (blast elim: prepare_accepting)
  then show "\<exists>nc'. addReplyString nc s = Some nc' \<and> accepting x nc' \<and> out_queue nc' = out_queue nc @ s"
    using buffer_or_list [of x n c s] nc by (simp add: addReplyString_def)
qed

subsection \<open>What the reply functions emit\<close>

primrec obj_text :: "robj \<Rightarrow> bytes" where
  "obj_text (Str_obj s) = s"
| "obj_text (Int_obj v) = dec_int (sint v)"

definition hdr :: "string \<Rightarrow> int \<Rightarrow> bytes" where
  "hdr p k = str p @ dec_int k @ crlf"

definition bulk :: "bytes \<Rightarrow> bytes" where
  "bulk t = hdr ''$'' (int (length t)) @ t @ crlf"

lemma dec_int_nonzero: "0 \<notin> set (dec_int v)"
proof -
  have "0 \<notin> set (dec_nat k)" for k using dec_nat_digits [of k] by (auto simp: list_all_iff)
  then show ?thesis by (simp add: dec_int_def)
qed

lemma cstring_prefix: "0 \<notin> set t \<Longrightarrow> cstring (t @ 0 # u) = t"
  by (induction t) (auto simp: cstring_def)

lemma ll2string_fits:
  "21 \<le> k \<Longrightarrow> k \<le> length b \<Longrightarrow>
    ll2string b k v = Some (dec_int (sint v) @ 0 # drop (Suc (length (dec_int (sint v)))) b, length (dec_int (sint v)))"
  using ll2string_spec [of k b v] length_dec_int_le [of v] by simp

lemma decoded: "getDecodedObject junk obj = Some (Str_obj (obj_text obj))"
  by (cases obj) (simp_all add: getDecodedObject_def ll2string_fits cstring_prefix dec_int_nonzero)

lemma emits_addReplySds: "cl.emits x (\<lambda>nc. addReplySds nc s) s"
  using cl.emits_app by (simp add: addReplySds_eq)

lemma emits_addReply: "cl.emits x (\<lambda>nc. addReply junk nc obj) (obj_text obj)"
proof (rule cl.emitsI)
  fix nc assume nc: "accepting x nc" "length (out_queue nc) + length (obj_text obj) \<le> out_max"
  then obtain n c where p: "prepareClientToWrite nc = (True, n, c)" "accepting x (n, c)" "out_queue (n, c) = out_queue nc"
    by (blast elim: prepare_accepting)
  have enc: "\<exists>nc'. add_encoded (n, c) (Str_obj (obj_text obj)) = Some nc' \<and> accepting x nc' \<and>
      out_queue nc' = out_queue nc @ obj_text obj"
    using buffer_or_list [OF p(2), of "obj_text obj"] nc(2) p(3) by (simp add: add_encoded_eq)
  show "\<exists>nc'. addReply junk nc obj = Some nc' \<and> accepting x nc' \<and> out_queue nc' = out_queue nc @ obj_text obj"
  proof (cases obj)
    case (Str_obj s)
    with enc p(1) show ?thesis by (simp add: addReply_def)
  next
    case (Int_obj v)
    have ok: "client_ok c" "\<not> has c CLIENT_CLOSE_AFTER_REPLY" "placed (snd x) c" "accepts c" "frame c = fst x"
      using p(2) by (simp_all add: accepting_def accepts_def)
    have "addReplyToBuffer c (obj_text obj) = Some (False, c) \<or>
        (\<exists>c'. addReplyToBuffer c (obj_text obj) = Some (True, c') \<and> accepting x (n, c') \<and> out_queue (n, c') = out_queue nc @ obj_text obj)"
      using addReplyToBuffer_spec [OF ok(1-3), of "obj_text obj"] ok(4,5) p(3) accepts_frame
      unfolding accepting_def by (metis snd_conv)
    with enc p(1) Int_obj show ?thesis
      by (auto simp: addReply_def ll2string_fits decoded)
  qed
qed

lemma hdr_obj: "0 \<le> k \<Longrightarrow> k < 32 \<Longrightarrow> rd shared_mbulkhdr k = Some (Str_obj (hdr ''*'' k))"
  "0 \<le> k \<Longrightarrow> k < 32 \<Longrightarrow> rd shared_bulkhdr k = Some (Str_obj (hdr ''$'' k))"
  using nth_upt [of 0 "nat k" 32] by (simp_all add: rd_def shared_mbulkhdr_def shared_bulkhdr_def hdr_def dec_int_def nat_less_iff del: nth_upt)

lemma str_singles: "str ''*'' = [42]" "str ''$'' = [36]" "str '':'' = [58]"
  by (simp_all add: str_def)

lemma prefix_eq:
  assumes "str p = [b]"
  shows "addReplyLongLongWithPrefix junk nc ll b =
    (if (b = 42 \<or> b = 36) \<and> 0 \<le> sint ll \<and> sint ll < 32 then addReply junk nc (Str_obj (hdr p (sint ll)))
     else addReplyString nc (hdr p (sint ll)))"
proof (cases "(b = 42 \<or> b = 36) \<and> 0 \<le> sint ll \<and> sint ll < 32")
  case True
  then have "hdr p (sint ll) = hdr (if b = 42 then ''*'' else ''$'') (sint ll)"
    using assms by (auto simp: hdr_def str_singles)
  with True show ?thesis by (auto simp: addReplyLongLongWithPrefix_def hdr_obj split: if_splits)
next
  case False
  let ?d = "dec_int (sint ll)"
  have l: "length ?d \<le> 20" by (rule length_dec_int_le)
  obtain r where r: "ll2string (map junk [1..<128]) 127 ll = Some (?d @ 0 # r, length ?d)" "length r = 126 - length ?d"
    using ll2string_fits [of 127 "map junk [1..<128]" ll] l by simp
  then obtain y ys where "r = y # ys" using l by (cases r) auto
  then have "do { b' \<leftarrow> wr (b # ?d @ 0 # r) (int (length ?d) + 1) 13; b' \<leftarrow> wr b' (int (length ?d) + 2) 10; rdn b' 0 (length ?d + 3) } =
      Some (hdr p (sint ll))"
    by (simp add: wr_def rdn_def hdr_def assms nat_add_distrib list_update_append numeral_2_eq_2 numeral_3_eq_3)
  with False r(1) show ?thesis by (auto simp: addReplyLongLongWithPrefix_def bind_eq_Some_conv)
qed

lemma emits_prefix:
  "str p = [b] \<Longrightarrow> cl.emits x (\<lambda>nc. addReplyLongLongWithPrefix junk nc ll b) (hdr p (sint ll))"
  using emits_addReply [of x junk "Str_obj (hdr p (sint ll))"] cl.emits_app [of x "hdr p (sint ll)"]
  by (cases "(b = 42 \<or> b = 36) \<and> 0 \<le> sint ll \<and> sint ll < 32") (simp_all only: prefix_eq if_True if_False simp_thms obj_text.simps)

lemma radix10_loop_eq: "radix10_loop n len = len + length (dec_nat n) - 1"
  by (induction n len rule: radix10_loop.induct)
    (subst radix10_loop.simps, auto simp: dec_nat_big dec_nat_small)

lemma bulk_len_eq: "obj \<noteq> Int_obj (word_of_int LLONG_MIN) \<Longrightarrow> bulk_len obj = Some (length (obj_text obj))"
proof (cases obj)
  case (Int_obj v)
  moreover assume "obj \<noteq> Int_obj (word_of_int LLONG_MIN)"
  ultimately have "sint v \<noteq> LLONG_MIN" using signed_word_inverse [of v] by metis
  then show ?thesis using length_dec_nat_pos by (simp add: Int_obj bulk_len_def radix10_loop_eq dec_int_def)
qed (simp add: bulk_len_def)

lemma emits_multibulk:
  "0 \<le> sint len \<Longrightarrow> cl.emits x (\<lambda>nc. addReplyMultiBulkLen junk nc len) (hdr ''*'' (sint len))"
  using emits_prefix [OF str_singles(1), of x junk len] emits_addReply [of x junk "Str_obj (hdr ''*'' (sint len))"]
  by (cases "sint len < 32") (simp_all add: addReplyMultiBulkLen_def hdr_obj)

lemma sint_of_nat: "k < 2 ^ 63 \<Longrightarrow> sint (word_of_nat k :: i64) = int k"
  using sint_unat [of "word_of_nat k"] by (simp add: unat_of_nat take_bit_eq_mod)

lemma emits_bulk_len:
  assumes "obj \<noteq> Int_obj (word_of_int LLONG_MIN)" "length (obj_text obj) < 2 ^ 63"
  shows "cl.emits x (\<lambda>nc. addReplyBulkLen junk nc obj) (hdr ''$'' (int (length (obj_text obj))))"
  using emits_prefix [OF str_singles(2), of x junk "word_of_nat (length (obj_text obj))"]
    emits_addReply [of x junk "Str_obj (hdr ''$'' (int (length (obj_text obj))))"] assms
  by (cases "length (obj_text obj) < 32") (simp_all add: addReplyBulkLen_def bulk_len_eq hdr_obj sint_of_nat)

lemma emits_crlf: "cl.emits x (\<lambda>nc. addReply junk nc shared_crlf) crlf"
  using emits_addReply [of x junk shared_crlf] by (simp add: shared_crlf_def)

lemma emits_bulk:
  assumes "obj \<noteq> Int_obj (word_of_int LLONG_MIN)" "length (obj_text obj) < 2 ^ 63"
  shows "cl.emits x (\<lambda>nc. addReplyBulk junk nc obj) (bulk (obj_text obj))"
  unfolding addReplyBulk_def bulk_def
  by (intro cl.emits_bind emits_bulk_len emits_addReply emits_crlf assms)

lemma emits_bulk_buffer:
  assumes "length p < 2 ^ 63"
  shows "cl.emits x (\<lambda>nc. addReplyBulkCBuffer junk nc p) (bulk p)" "cl.emits x (\<lambda>nc. addReplyBulkSds junk nc p) (bulk p)"
proof -
  have "cl.emits x (\<lambda>nc. addReplyLongLongWithPrefix junk nc (word_of_nat (length p)) 36) (hdr ''$'' (int (length p)))"
    using emits_prefix [OF str_singles(2), of x junk "word_of_nat (length p)"] assms by (simp add: sint_of_nat)
  then show "cl.emits x (\<lambda>nc. addReplyBulkCBuffer junk nc p) (bulk p)" "cl.emits x (\<lambda>nc. addReplyBulkSds junk nc p) (bulk p)"
    unfolding addReplyBulkCBuffer_def addReplyBulkSds_def bulk_def
    by (intro cl.emits_bind emits_addReplySds cl.emits_app emits_crlf; assumption)+
qed

lemma emits_error: "cl.emits x (\<lambda>nc. addReplyErrorLength nc s) (str ''-ERR '' @ s @ crlf)"
  "cl.emits x (\<lambda>nc. addReplyStatusLength nc s) (str ''+'' @ s @ crlf)"
  unfolding addReplyErrorLength_def addReplyStatusLength_def by (intro cl.emits_bind cl.emits_app)+

text \<open>A reply whose length is known when it is complete.\<close>

definition with_deferred_len :: "int \<Rightarrow> (net \<times> client \<Rightarrow> (net \<times> client) option) \<Rightarrow> net \<times> client \<Rightarrow> (net \<times> client) option" where
  "with_deferred_len k body nc =
     (let (node, nc) = addDeferredMultiBulkLength nc in do {
        nc \<leftarrow> body nc;
        setDeferredMultiBulkLength nc node k })"

definition glue :: "bytes \<Rightarrow> bytes option list \<Rightarrow> bytes option list" where
  "glue t ext = (case ext of Some nx # e \<Rightarrow> Some (t @ nx) # e | _ \<Rightarrow> Some t # ext)"

lemma blocks_glue: "blocks (glue t ext) = t @ blocks ext" "\<exists>r e. glue t ext = Some (t @ r) # e"
  by (auto simp: glue_def split: list.split option.split)

lemma set_deferred_reply:
  assumes "reply c = rs @ None # ext"
  shows "setDeferredMultiBulkLength (n, c) (Some (length rs)) k = asyncCloseClientOnOutputBufferLimitReached
    (n, c\<lparr>reply_bytes := (reply_bytes c + length (hdr ''*'' k)) mod 2 ^ 64, reply := rs @ glue (hdr ''*'' k) ext\<rparr>)"
  using assms unfolding setDeferredMultiBulkLength_def hdr_def [symmetric] glue_def Let_def
  by (cases c) (auto simp: nth_append split: list.split option.split)

lemma deferred_filled:
  assumes c: "accepting (f, Some (b, rs)) (n, c)" and room: "length (out_queue (n, c)) + length (hdr ''*'' k) \<le> out_max"
  shows "\<exists>nc' ext. setDeferredMultiBulkLength (n, c) (Some (length rs)) k = Some nc' \<and>
    out_queue (n, c) = b @ blocks rs @ blocks ext \<and> out_queue nc' = b @ blocks rs @ hdr ''*'' k @ blocks ext \<and>
    (\<forall>p c0. take (bufpos c0) (buf c0) = b \<and> reply c0 = rs \<and> placed p c0 \<longrightarrow> accepting (f, p) nc')"
proof -
  obtain ext where ext: "reply c = rs @ None # ext" "take (bufpos c) (buf c) = b"
    using c by (auto simp: accepting_def)
  let ?h = "hdr ''*'' k"
  let ?c = "c\<lparr>reply_bytes := (reply_bytes c + length ?h) mod 2 ^ 64, reply := rs @ glue ?h ext\<rparr>"
  have ok: "client_ok c" "accepts c" "frame c = f" using c by (simp_all add: accepting_def)
  have r: "reply_bytes c + length ?h \<le> out_max" using ok(1) room by (simp add: client_ok_def queue_def)
  then have "reply_bytes c + length ?h < 2 ^ 64" by (simp add: out_max_def)
  moreover have "sent_ok ?c"
    using ok(1) ext(1) unfolding client_ok_def sent_ok_def by (cases rs) (auto split: list.splits option.splits)
  ultimately have c': "client_ok ?c" using ok(1) r ext(1) by (simp add: client_ok_def blocks_glue)
  then obtain n3 c3 where s: "asyncCloseClientOnOutputBufferLimitReached (n, ?c) = Some (n3, c3)" "same_out ?c c3"
    using async_close_spec by blast
  have "accepting (f, p) (n3, c3)" if "take (bufpos c0) (buf c0) = b" "reply c0 = rs" "placed p c0" for p c0
  proof -
    have "placed p ?c" using that ext by (cases p) auto
    then show ?thesis using same_out_facts [OF s(2)] c' ok accepts_frame [of c] accepts_frame [of ?c] by (simp add: accepting_def)
  qed
  moreover have "out_queue (n3, c3) = out_queue (n, ?c)" using same_out_facts(1) [OF s(2)] by simp
  ultimately show ?thesis using set_deferred_reply [OF ext(1)] s(1) ext
    by (intro exI [of _ "(n3, c3)"] exI [of _ ext]) (auto simp: queue_def blocks_glue)
qed

lemma emits_deferred:
  assumes body: "\<And>p. cl.emits (f, p) body t"
  shows "cl.emits (f, p) (with_deferred_len k body) (hdr ''*'' k @ t)"
proof (rule cl.emitsI)
  fix nc assume nc: "accepting (f, p) nc" "length (out_queue nc) + length (hdr ''*'' k @ t) \<le> out_max"
  obtain n c where prep: "prepareClientToWrite nc = (True, n, c)" "accepting (f, p) (n, c)" "out_queue (n, c) = out_queue nc"
    using prepare_accepting [OF nc(1)] .
  let ?c = "c\<lparr>reply := reply c @ [None]\<rparr>" and ?p = "Some (take (bufpos c) (buf c), reply c)"
  have ok: "client_ok c" "accepts c" "frame c = f" "placed p c" using prep(2) by (simp_all add: accepting_def)
  have "accepting (f, ?p) (n, ?c)"
    using ok accepts_frame [of c] accepts_frame [of ?c]
    by (auto simp: accepting_def client_ok_def sent_ok_def split: list.splits option.splits)
  moreover have "out_queue (n, ?c) = out_queue nc" using prep(3) by (simp add: queue_def)
  ultimately obtain nc1 where b: "body (n, ?c) = Some nc1" "accepting (f, ?p) nc1" "out_queue nc1 = out_queue nc @ t"
    using cl.emitsD [OF body, of ?p "(n, ?c)"] nc(2) by auto
  have "length (out_queue nc1) + length (hdr ''*'' k) \<le> out_max" using b(3) nc(2) by simp
  then obtain nc2 ext where s: "setDeferredMultiBulkLength nc1 (Some (length (reply c))) k = Some nc2"
      "out_queue nc1 = out_queue (n, c) @ blocks ext" "out_queue nc2 = out_queue (n, c) @ hdr ''*'' k @ blocks ext" "accepting (f, p) nc2"
    using deferred_filled [of f "take (bufpos c) (buf c)" "reply c" "fst nc1" "snd nc1" k] b(2) ok(4) by (fastforce simp: queue_def)
  have "with_deferred_len k body nc = Some nc2"
    using prep(1) b(1) s(1) by (simp add: with_deferred_len_def addDeferredMultiBulkLength_def)
  then show "\<exists>nc'. with_deferred_len k body nc = Some nc' \<and> accepting (f, p) nc' \<and> out_queue nc' = out_queue nc @ hdr ''*'' k @ t"
    using s b(3) prep(3) by simp
qed

text \<open>Replies as commands build them, with the bytes that each stands for.\<close>

datatype reply_op =
  R_obj robj | R_sds bytes | R_error bytes | R_status bytes | R_longlong i64 | R_multi i64
  | R_bulk robj | R_bulk_buffer bytes | R_bulk_cstring "bytes option" | R_bulk_longlong i64
  | R_deferred int "reply_op list"

fun run_reply :: "(nat \<Rightarrow> u8) \<Rightarrow> reply_op \<Rightarrow> net \<times> client \<Rightarrow> (net \<times> client) option"
  and run_replies :: "(nat \<Rightarrow> u8) \<Rightarrow> reply_op list \<Rightarrow> net \<times> client \<Rightarrow> (net \<times> client) option" where
  "run_reply junk (R_obj obj) = (\<lambda>nc. addReply junk nc obj)"
| "run_reply junk (R_sds s) = (\<lambda>nc. addReplySds nc s)"
| "run_reply junk (R_error s) = (\<lambda>nc. addReplyErrorFormat nc s)"
| "run_reply junk (R_status s) = (\<lambda>nc. addReplyStatus nc s)"
| "run_reply junk (R_longlong v) = (\<lambda>nc. addReplyLongLong junk nc v)"
| "run_reply junk (R_multi v) = (\<lambda>nc. addReplyMultiBulkLen junk nc v)"
| "run_reply junk (R_bulk obj) = (\<lambda>nc. addReplyBulk junk nc obj)"
| "run_reply junk (R_bulk_buffer s) = (\<lambda>nc. addReplyBulkCBuffer junk nc s)"
| "run_reply junk (R_bulk_cstring s) = (\<lambda>nc. addReplyBulkCString junk nc s)"
| "run_reply junk (R_bulk_longlong v) = (\<lambda>nc. addReplyBulkLongLong junk nc v)"
| "run_reply junk (R_deferred k ops) = (\<lambda>nc. with_deferred_len k (run_replies junk ops) nc)"
| "run_replies junk [] = (\<lambda>nc. Some nc)"
| "run_replies junk (r # ops) = (\<lambda>nc. run_reply junk r nc \<bind> run_replies junk ops)"

fun reply_text :: "reply_op \<Rightarrow> bytes" and replies_text :: "reply_op list \<Rightarrow> bytes" where
  "reply_text (R_obj obj) = obj_text obj"
| "reply_text (R_sds s) = s"
| "reply_text (R_error s) = str ''-ERR '' @ map (\<lambda>b. if b = 13 \<or> b = 10 then 32 else b) s @ crlf"
| "reply_text (R_status s) = str ''+'' @ cstring s @ crlf"
| "reply_text (R_longlong v) = hdr '':'' (sint v)"
| "reply_text (R_multi v) = hdr ''*'' (sint v)"
| "reply_text (R_bulk obj) = bulk (obj_text obj)"
| "reply_text (R_bulk_buffer s) = bulk s"
| "reply_text (R_bulk_cstring s) = (case s of None \<Rightarrow> hdr ''$'' (- 1) | Some s \<Rightarrow> bulk (cstring s))"
| "reply_text (R_bulk_longlong v) = bulk (dec_int (sint v))"
| "reply_text (R_deferred k ops) = hdr ''*'' k @ replies_text ops"
| "replies_text [] = []"
| "replies_text (r # ops) = reply_text r @ replies_text ops"

text \<open>Strings are shorter than \<open>LLONG_MAX\<close>, a plain multi bulk length is not negative and the most
  negative integer is not sent as an integer encoded object.\<close>

fun reply_fine :: "reply_op \<Rightarrow> bool" and replies_fine :: "reply_op list \<Rightarrow> bool" where
  "reply_fine (R_multi v) \<longleftrightarrow> 0 \<le> sint v"
| "reply_fine (R_bulk obj) \<longleftrightarrow> obj \<noteq> Int_obj (word_of_int LLONG_MIN) \<and> length (obj_text obj) < 2 ^ 63"
| "reply_fine (R_bulk_buffer s) \<longleftrightarrow> length s < 2 ^ 63"
| "reply_fine (R_bulk_cstring s) \<longleftrightarrow> (case s of None \<Rightarrow> True | Some s \<Rightarrow> length (cstring s) < 2 ^ 63)"
| "reply_fine (R_deferred k ops) \<longleftrightarrow> replies_fine ops"
| "reply_fine _ \<longleftrightarrow> True"
| "replies_fine [] \<longleftrightarrow> True"
| "replies_fine (r # ops) \<longleftrightarrow> reply_fine r \<and> replies_fine ops"

lemma emits_longlong: "cl.emits x (\<lambda>nc. addReplyLongLong junk nc v) (hdr '':'' (sint v))"
proof -
  have "hdr '':'' 0 = str '':0'' @ crlf" "hdr '':'' 1 = str '':1'' @ crlf"
    by (simp_all add: hdr_def str_def dec_int_def dec_nat_small)
  then show ?thesis
    using emits_prefix [OF str_singles(3), of x junk v] emits_addReply [of x junk shared_czero] emits_addReply [of x junk shared_cone]
    by (cases "v = 0"; cases "v = 1") (simp_all add: addReplyLongLong_def shared_czero_def shared_cone_def)
qed

lemma emits_cstring:
  "(case s of None \<Rightarrow> True | Some s \<Rightarrow> length (cstring s) < 2 ^ 63) \<Longrightarrow>
    cl.emits x (\<lambda>nc. addReplyBulkCString junk nc s) (case s of None \<Rightarrow> hdr ''$'' (- 1) | Some s \<Rightarrow> bulk (cstring s))"
  using emits_addReply [of x junk shared_nullbulk]
  by (cases s) (simp_all add: addReplyBulkCString_def emits_bulk_buffer shared_nullbulk_def hdr_def str_def dec_int_def dec_nat_small)

lemma emits_bulk_longlong: "cl.emits x (\<lambda>nc. addReplyBulkLongLong junk nc v) (bulk (dec_int (sint v)))"
proof -
  have "length (dec_int (sint v)) < 2 ^ 63" using length_dec_int_le [of v] by simp
  then show ?thesis using emits_bulk_buffer(1) [of "dec_int (sint v)" x junk] by (simp add: addReplyBulkLongLong_def ll2string_fits)
qed

lemma emits_nothing: "cl.emits x Some []"
  by (rule cl.emitsI) simp

lemma emits_replies:
  "reply_fine r \<Longrightarrow> cl.emits (f, p) (run_reply junk r) (reply_text r)"
  "replies_fine ops \<Longrightarrow> cl.emits (f, p) (run_replies junk ops) (replies_text ops)"
proof (induction r and ops arbitrary: p and p rule: reply_fine_replies_fine.induct)
  case (5 k ops)
  then show ?case using emits_deferred [of f "run_replies junk ops"] by simp
qed (simp_all add: emits_addReply emits_addReplySds emits_longlong emits_multibulk emits_bulk emits_bulk_buffer emits_cstring
   emits_bulk_longlong emits_error addReplyErrorFormat_def addReplyStatus_def cl.emits_bind emits_nothing)

lemma not_writable:
  assumes "\<not> writable c"
  shows "addReply junk (n, c) obj = Some (n, c)" "addReplySds (n, c) s = Some (n, c)" "addReplyString (n, c) s = Some (n, c)"
    "str p = [b] \<Longrightarrow> addReplyLongLongWithPrefix junk (n, c) ll b = Some (n, c)"
  using assms by (simp_all add: addReply_def addReplySds_def addReplyString_def prefix_eq prepare_refused)

lemma replies_refused:
  assumes "\<not> writable c"
  shows "reply_fine r \<Longrightarrow> run_reply junk r (n, c) = Some (n, c)" "replies_fine ops \<Longrightarrow> run_replies junk ops (n, c) = Some (n, c)"
proof (induction r and ops rule: reply_fine_replies_fine.induct)
  case (2 obj)
  then show ?case using assms
    by (simp add: addReplyBulk_def addReplyBulkLen_def bulk_len_eq not_writable hdr_obj not_writable(4) [OF _ str_singles(2)])
next
  case (4 s)
  then show ?case using assms
    by (cases s) (simp_all add: addReplyBulkCString_def addReplyBulkCBuffer_def not_writable not_writable(4) [OF _ str_singles(2)])
qed (use assms not_writable in \<open>simp_all add: addReplyErrorFormat_def addReplyErrorLength_def addReplyStatus_def addReplyStatusLength_def
    addReplyLongLong_def addReplyMultiBulkLen_def hdr_obj addReplyBulkCBuffer_def addReplyBulkLongLong_def ll2string_fits
    with_deferred_len_def addDeferredMultiBulkLength_def setDeferredMultiBulkLength_def prepare_refused
    not_writable(4) [OF _ str_singles(1)] not_writable(4) [OF _ str_singles(2)] not_writable(4) [OF _ str_singles(3)]\<close>)

subsection \<open>Draining the queue\<close>

definition pending :: "client \<Rightarrow> bytes" where
  "pending c = drop (sentlen c) (queue c)"

definition drained :: "client \<Rightarrow> client \<Rightarrow> bool" where
  "drained c c' \<longleftrightarrow> c' = c\<lparr>bufpos := bufpos c', sentlen := sentlen c', reply := reply c', reply_bytes := reply_bytes c'\<rparr>"

lemma drained_refl: "drained c c" by (simp add: drained_def)

lemma drained_trans: "drained c c' \<Longrightarrow> drained c' c'' \<Longrightarrow> drained c c''"
  unfolding drained_def by (erule ssubst) (auto elim: ssubst)

lemma buf_step:
  assumes c: "client_ok c" "bufpos c > 0" "w \<le> bufpos c - sentlen c"
    and c1: "c1 = (if sentlen c + w = bufpos c then c\<lparr>bufpos := 0, sentlen := 0\<rparr> else c\<lparr>sentlen := sentlen c + w\<rparr>)"
  shows "\<exists>d. rdn (buf c) (sentlen c) w = Some d \<and> pending c = d @ pending c1 \<and> length d = w" "client_ok c1" "drained c c1"
proof -
  have l: "length (buf c) = 16384" "bufpos c \<le> 16384" "sentlen c < bufpos c"
    using c by (simp_all add: client_ok_def sent_ok_def)
  have w: "w + sentlen c \<le> bufpos c" using c(3) l by simp
  have "drop (sentlen c) (take (bufpos c) (buf c)) = take w (drop (sentlen c) (buf c)) @ drop (sentlen c + w) (take (bufpos c) (buf c))"
    using w append_take_drop_id [of w "drop (sentlen c) (take (bufpos c) (buf c))"]
    by (simp add: take_drop min_def add.commute)
  then show "\<exists>d. rdn (buf c) (sentlen c) w = Some d \<and> pending c = d @ pending c1 \<and> length d = w"
    using c(3) l by (auto simp: rdn_def pending_def queue_def c1)
  show "client_ok c1" "drained c c1"
    using c l by (auto simp: client_ok_def sent_ok_def drained_def c1)
qed

lemma block_step:
  assumes c: "client_ok c" "bufpos c = 0" "reply c = Some obj # rest" "obj \<noteq> []" "w \<le> length obj - sentlen c"
    and c1: "c1 = (if sentlen c + w = length obj
       then c\<lparr>reply := rest, sentlen := 0, reply_bytes := sub64 (reply_bytes c) (length obj)\<rparr>
       else c\<lparr>sentlen := sentlen c + w\<rparr>)"
  shows "\<exists>d. rdn obj (sentlen c) w = Some d \<and> pending c = d @ pending c1 \<and> length d = w" "client_ok c1" "drained c c1"
    "reply c1 = [] \<longrightarrow> reply_bytes c1 = 0"
proof -
  have s: "sentlen c < length obj" using c by (auto simp: client_ok_def sent_ok_def)
  have "drop (sentlen c) obj = take w (drop (sentlen c) obj) @ drop (sentlen c + w) obj"
    using append_take_drop_id [of w "drop (sentlen c) obj"] by (simp add: add.commute)
  then show "\<exists>d. rdn obj (sentlen c) w = Some d \<and> pending c = d @ pending c1 \<and> length d = w"
    using c s by (auto simp: rdn_def pending_def queue_def c1)
  have r: "reply_bytes c = length obj + length (blocks rest)" "reply_bytes c < 2 ^ 64"
    using c by (simp_all add: client_ok_def out_max_def)
  then have "sub64 (reply_bytes c) (length obj) = length (blocks rest)" by (simp add: sub64_def)
  then show "client_ok c1" "reply c1 = [] \<longrightarrow> reply_bytes c1 = 0"
    using c s by (auto simp: client_ok_def sent_ok_def c1 split: list.splits option.splits)
  show "drained c c1" by (simp add: c1 drained_def)
qed

text \<open>Why the loop ends: nothing is left, the socket took nothing, or enough was written.\<close>

definition write_end :: "(nat \<Rightarrow> nat \<Rightarrow> int) \<Rightarrow> bytes \<Rightarrow> client \<Rightarrow> bool" where
  "write_end write_res sent c \<longleftrightarrow> \<not> clientHasPendingReplies c \<or> (\<exists>k n. write_res k n \<le> 0 \<and> 0 < n) \<or>
     length sent > NET_MAX_WRITES_PER_EVENT"

definition write_good :: "(nat \<Rightarrow> nat \<Rightarrow> int) \<Rightarrow> bytes \<Rightarrow> client \<Rightarrow> (int \<times> bytes \<times> client) option \<Rightarrow> bool" where
  "write_good write_res sent c res \<longleftrightarrow> (\<exists>nw d c'. res = Some (nw, sent @ d, c') \<and>
     pending c = d @ pending c' \<and> client_ok c' \<and> None \<notin> set (reply c') \<and> drained c c' \<and> write_end write_res (sent @ d) c')"

lemma write_good_step:
  assumes "write_good write_res (sent @ d) c1 res" "pending c = d @ pending c1" "drained c c1"
  shows "write_good write_res sent c res"
proof -
  obtain nw d' c' where "res = Some (nw, (sent @ d) @ d', c')" "pending c1 = d' @ pending c'" "client_ok c'"
    "None \<notin> set (reply c')" "drained c1 c'" "write_end write_res ((sent @ d) @ d') c'"
    using assms(1) by (auto simp: write_good_def)
  then show ?thesis using assms(2,3) drained_trans [of c c1 c'] unfolding write_good_def
    by (intro exI [of _ nw] exI [of _ "d @ d'"] exI [of _ c']) simp
qed

lemma write_good_stop:
  assumes "pending c = d @ pending c1" "client_ok c1" "None \<notin> set (reply c1)" "drained c c1" "write_end write_res (sent @ d) c1"
  shows "write_good write_res sent c (Some (nw, sent @ d, c1))"
  using assms unfolding write_good_def by (intro exI [of _ nw] exI [of _ d] exI [of _ c1]) simp

text \<open>The hypothesis of the induction: the loop is right for clients that have less to send.\<close>

definition loop_good :: "(nat \<Rightarrow> nat \<Rightarrow> int) \<Rightarrow> (nat \<Rightarrow> nat) \<Rightarrow> net \<Rightarrow> nat \<Rightarrow> bool" where
  "loop_good write_res used n m \<longleftrightarrow> (\<forall>k nw sent c. client_ok c \<longrightarrow> None \<notin> set (reply c) \<longrightarrow>
     length (pending c) + length (reply c) < m \<longrightarrow> write_good write_res sent c (write_loop write_res used n k nw sent c))"

lemma loop_goodD:
  "loop_good write_res used n m \<Longrightarrow> client_ok c \<Longrightarrow> None \<notin> set (reply c) \<Longrightarrow>
    length (pending c) + length (reply c) < m \<Longrightarrow> write_good write_res sent c (write_loop write_res used n k nw sent c)"
  by (simp add: loop_good_def)

lemma write_next:
  assumes IH: "loop_good write_res used n (length (pending c) + length (reply c))"
    and c1: "pending c = d @ pending c1" "client_ok c1" "None \<notin> set (reply c1)" "drained c c1"
      "length d + length (reply c) > length (reply c1)"
  shows "write_good write_res sent c
      (if stop_writing n (used k) (length (sent @ d)) then Some (nw, sent @ d, c1)
       else write_loop write_res used n k' nw (sent @ d) c1)"
proof (cases "stop_writing n (used k) (length (sent @ d))")
  case True
  then show ?thesis using c1 by (simp add: write_good_stop write_end_def stop_writing_def)
next
  case False
  have "write_good write_res (sent @ d) c1 (write_loop write_res used n k' nw (sent @ d) c1)"
    by (rule loop_goodD [OF IH]) (use c1 in simp_all)
  then show ?thesis using False write_good_step c1 by simp
qed

lemma write_refused:
  assumes "client_ok c" "None \<notin> set (reply c)" "write_end write_res sent c"
  shows "write_good write_res sent c (Some (nw, sent, c))"
  using write_good_stop [of c "[]" c] assms by (simp add: drained_refl)

lemma write_buffer:
  assumes IH: "loop_good write_res used n (length (pending c) + length (reply c))"
    and c: "client_ok c" "None \<notin> set (reply c)" "bufpos c > 0" and le: "\<And>k n. write_res k n \<le> int n"
  shows "write_good write_res sent c (write_loop write_res used n k nw0 sent c)"
proof -
  let ?r = "bufpos c - sentlen c" and ?w = "write_res k (bufpos c - sentlen c)"
  define c1 where "c1 = (if sentlen c + nat ?w = bufpos c then c\<lparr>bufpos := 0, sentlen := 0\<rparr> else c\<lparr>sentlen := sentlen c + nat ?w\<rparr>)"
  have r: "0 < ?r" "nat ?w \<le> ?r" "clientHasPendingReplies c"
    using c le [of k ?r] by (auto simp: client_ok_def sent_ok_def clientHasPendingReplies_def)
  show ?thesis
  proof (cases "?w \<le> 0")
    case True
    then have "write_end write_res sent c" using r unfolding write_end_def by blast
    then show ?thesis using write_refused True c r(3) by (simp add: write_loop.simps [of write_res used n k nw0 sent c])
  next
    case False
    obtain d where d: "rdn (buf c) (sentlen c) (nat ?w) = Some d" "pending c = d @ pending c1" "length d = nat ?w"
      "client_ok c1" "drained c c1"
      using buf_step [OF c(1,3) r(2) c1_def] by blast
    have "write_loop write_res used n k nw0 sent c =
        (if stop_writing n (used k) (length (sent @ d)) then Some (?w, sent @ d, c1)
         else write_loop write_res used n (k + 1) ?w (sent @ d) c1)"
      using c(3) False r d(1) by (subst write_loop.simps) (simp add: Let_def c1_def)
    moreover have "reply c1 = reply c" by (simp add: c1_def)
    ultimately show ?thesis using write_next [OF IH d(2,4)] d False c(2) by auto
  qed
qed

lemma write_block:
  assumes IH: "loop_good write_res used n (length (pending c) + length (reply c))"
    and c: "client_ok c" "None \<notin> set (reply c)" "bufpos c = 0" "reply c = Some obj # rest" "obj \<noteq> []"
    and le: "\<And>k n. write_res k n \<le> int n"
  shows "write_good write_res sent c (write_loop write_res used n k nw0 sent c)"
proof -
  let ?r = "length obj - sentlen c" and ?w = "write_res k (length obj - sentlen c)"
  define c1 where "c1 = (if sentlen c + nat ?w = length obj
    then c\<lparr>reply := rest, sentlen := 0, reply_bytes := sub64 (reply_bytes c) (length obj)\<rparr>
    else c\<lparr>sentlen := sentlen c + nat ?w\<rparr>)"
  have r: "0 < ?r" "nat ?w \<le> ?r" "clientHasPendingReplies c"
    using c le [of k ?r] by (auto simp: client_ok_def sent_ok_def clientHasPendingReplies_def)
  show ?thesis
  proof (cases "?w \<le> 0")
    case True
    then have "write_end write_res sent c" using r unfolding write_end_def by blast
    then show ?thesis using write_refused True c r(3) by (simp add: write_loop.simps [of write_res used n k nw0 sent c])
  next
    case False
    obtain d where d: "rdn obj (sentlen c) (nat ?w) = Some d" "pending c = d @ pending c1" "length d = nat ?w"
      "client_ok c1" "drained c c1" "reply c1 = [] \<longrightarrow> reply_bytes c1 = 0"
      using block_step [OF c(1,3,4,5) r(2) c1_def] by blast
    have "write_loop write_res used n k nw0 sent c =
        (if reply c1 = [] \<and> reply_bytes c1 \<noteq> 0 then None
         else if stop_writing n (used k) (length (sent @ d)) then Some (?w, sent @ d, c1)
         else write_loop write_res used n (k + 1) ?w (sent @ d) c1)"
      using c(3-5) False r d(1) unfolding write_loop.simps [of write_res used n k nw0 sent c] c1_def
      by (cases "sentlen c + nat ?w = length obj"; cases "rest = []") (simp_all add: Let_def)
    moreover have "reply c1 = reply c \<or> reply c1 = rest" by (simp add: c1_def)
    ultimately show ?thesis using write_next [OF IH d(2,4), of sent k ?w "k + 1"] d False c(2,4) by auto
  qed
qed

lemma write_loop_spec:
  assumes "client_ok c" "None \<notin> set (reply c)" and le: "\<And>k n. write_res k n \<le> int n"
  shows "write_good write_res sent c (write_loop write_res used n k nw0 sent c)"
  using assms(1,2)
proof (induction "length (pending c) + length (reply c)" arbitrary: k nw0 sent c rule: less_induct)
  case less
  then have IH: "loop_good write_res used n (length (pending c) + length (reply c))" by (simp add: loop_good_def)
  consider (fin) "\<not> clientHasPendingReplies c" | (buffer) "bufpos c > 0"
    | (skip) rest where "bufpos c = 0" "reply c = Some [] # rest"
    | (block) obj rest where "bufpos c = 0" "reply c = Some obj # rest" "obj \<noteq> []"
    using less.prems(2) by (cases "reply c"; cases "hd (reply c)") (auto simp: clientHasPendingReplies_def)
  then show ?case
  proof cases
    case fin
    then show ?thesis using write_refused less.prems by (simp add: write_loop.simps [of _ _ _ k _ sent c] write_end_def)
  next
    case buffer
    then show ?thesis using write_buffer [OF IH] less.prems le by blast
  next
    case skip
    let ?c1 = "c\<lparr>reply := rest\<rparr>"
    have s: "sentlen c = 0" using less.prems(1) skip by (simp add: client_ok_def sent_ok_def)
    then have "client_ok ?c1" "pending c = [] @ pending ?c1" "drained c ?c1"
      using less.prems(1) skip by (simp_all add: client_ok_def sent_ok_def pending_def queue_def drained_def)
    then have "write_good write_res sent c (write_loop write_res used n k nw0 sent ?c1)"
      using write_good_step [of write_res sent "[]" ?c1] loop_goodD [OF IH, of ?c1] skip less.prems(2) by simp
    then show ?thesis using skip by (simp add: write_loop.simps [of _ _ _ k _ sent c] clientHasPendingReplies_def)
  next
    case block
    then show ?thesis using write_block [OF IH] less.prems le by blast
  qed
qed

lemma interaction:
  "client_ok (c\<lparr>lastinteraction := t\<rparr>) = client_ok c" "pending (c\<lparr>lastinteraction := t\<rparr>) = pending c"
  "clientHasPendingReplies (c\<lparr>lastinteraction := t\<rparr>) = clientHasPendingReplies c"
  by (simp_all add: client_ok_def sent_ok_def pending_def queue_def clientHasPendingReplies_def split: list.split option.split)

subsection \<open>Guarantees\<close>

text \<open>C37: However the reply is split over the static buffer and the blocks, what a client that
  accepts replies will receive is what the command meant: any sequence of the reply functions,
  deferred lengths and their nesting included, appends to the queue exactly the bytes of the
  protocol, in order, keeps the invariant of the buffers and changes nothing else of the client
  than the marks of a scheduled write or close. For a client that must not be written to (a
  silenced client, a master, a fake client) nothing happens.\<close>
theorem reply_refines_stream:
  assumes "client_ok c" "replies_fine ops" "length (queue c) + length (replies_text ops) \<le> out_max"
  shows "(accepts c \<longrightarrow> (\<exists>n' c'. run_replies junk ops (n, c) = Some (n', c') \<and> client_ok c' \<and> frame c' = frame c \<and>
      queue c' = queue c @ replies_text ops)) \<and>
    (\<not> writable c \<longrightarrow> run_replies junk ops (n, c) = Some (n, c))"
proof (intro conjI impI)
  assume "accepts c"
  then show "\<exists>n' c'. run_replies junk ops (n, c) = Some (n', c') \<and> client_ok c' \<and> frame c' = frame c \<and>
      queue c' = queue c @ replies_text ops"
    using cl.emitsD [OF emits_replies(2) [OF assms(2)], of "frame c" None "(n, c)" junk] assms
    by (auto simp: accepting_def)
qed (use assms replies_refused in blast)

definition client0 :: client where
  "client0 = \<lparr>client_id = 1, fd = 7, querybuf = [], pending_querybuf = [], querybuf_peak = 0, argv = [], reqtype = 0, multibulklen = 0,
     bulklen = - 1, reply = [], reply_bytes = 0, sentlen = 0, lastinteraction = 0, obuf_soft_limit_reached_time = 0,
     flags = 0, replstate = 0, repl_put_online_on_ack = False, read_reploff = 0, reploff = 0, repl_ack_time = 0,
     psync_initial_offset = 0, slave_capa = 0, btype = 0, bufpos = 0, buf = replicate 16384 0\<rparr>"

definition net0 :: net where
  "net0 = \<lparr>unixtime = 100, client_obuf_limits = replicate 3 \<lparr>hard_limit_bytes = 0, soft_limit_bytes = 0, soft_limit_seconds = 0\<rparr>,
     clients_pending_write = [], clients_to_close = [], stat_net_input_bytes = 0, stat_net_output_bytes = 0, maxmemory = 0\<rparr>"

lemma client0_ok: "client_ok client0" "accepts client0" "queue client0 = []"
  by (simp_all add: client_ok_def client0_def sent_ok_def out_max_def accepts_def writable_def has_def queue_def)

theorem reply_refines_stream_witness:
  "\<exists>n' c'. run_replies (\<lambda>_. 0) [R_deferred 2 [R_bulk (Int_obj (- 5)), R_error (str ''a'' @ crlf)]] (net0, client0) = Some (n', c') \<and>
    queue c' = str ''*2'' @ crlf @ str ''$2'' @ crlf @ str ''-5'' @ crlf @ str ''-ERR a  '' @ crlf"
  using reply_refines_stream [of client0 "[R_deferred 2 [R_bulk (Int_obj (- 5)), R_error (str ''a'' @ crlf)]]" "\<lambda>_. 0" net0]
  by (auto simp: client0_ok out_max_def hdr_def bulk_def dec_int_def dec_nat_small str_def)

text \<open>C38: Writing to a socket that takes as much as it likes of each piece sends the pending reply
  in order and loses nothing: what went out followed by what is still pending is what was pending
  before, no assertion on the byte count fails, and a socket that always takes something gets
  the whole of a reply of at most 64 KB.\<close>
theorem writeToClient_in_order:
  assumes "client_ok c" "None \<notin> set (reply c)" "\<And>k n. write_res k n \<le> int n"
  shows "\<exists>sent n' co rest. writeToClient write_res used eagain (n, c) = Some (sent, n', co) \<and> pending c = sent @ rest \<and>
    stat_net_output_bytes n' = stat_net_output_bytes n + length sent \<and>
    (\<forall>c'. co = Some c' \<longrightarrow> rest = pending c' \<and> client_ok c') \<and>
    ((\<forall>k n. 0 < n \<longrightarrow> 0 < write_res k n) \<and> length (pending c) \<le> NET_MAX_WRITES_PER_EVENT \<longrightarrow> rest = [])"
proof -
  have "write_good write_res [] c (write_loop write_res used n 0 0 [] c)" by (rule write_loop_spec [OF assms])
  then obtain nw sent c' where w: "write_loop write_res used n 0 0 [] c = Some (nw, sent, c')" "pending c = sent @ pending c'"
    "client_ok c'" "write_end write_res sent c'"
    by (auto simp: write_good_def)
  define c1 where "c1 = (if length sent > 0 \<and> \<not> has c' CLIENT_MASTER then c'\<lparr>lastinteraction := unixtime n\<rparr> else c')"
  have c1: "client_ok c1" "pending c1 = pending c'" "clientHasPendingReplies c1 = clientHasPendingReplies c'"
    using w(3) by (simp_all add: c1_def interaction)
  have fin: "pending c1 = [] \<and> c1\<lparr>sentlen := 0\<rparr> = c1" if "\<not> clientHasPendingReplies c1"
    using c1(1) that by (cases c1) (auto simp: clientHasPendingReplies_def pending_def queue_def client_ok_def sent_ok_def)
  have all: "(\<forall>k n. 0 < n \<longrightarrow> 0 < write_res k n) \<and> length (pending c) \<le> NET_MAX_WRITES_PER_EVENT \<longrightarrow> pending c' = []"
  proof
    assume p: "(\<forall>k n. 0 < n \<longrightarrow> 0 < write_res k n) \<and> length (pending c) \<le> NET_MAX_WRITES_PER_EVENT"
    have "\<not> (\<exists>k n. write_res k n \<le> 0 \<and> 0 < n)" using p by (meson not_less)
    moreover have "\<not> length sent > NET_MAX_WRITES_PER_EVENT" using w(2) p by simp
    ultimately have "\<not> clientHasPendingReplies c1" using w(4) c1(3) unfolding write_end_def by blast
    then show "pending c' = []" using fin c1(2) by simp
  qed
  let ?n = "n\<lparr>stat_net_output_bytes := stat_net_output_bytes n + length sent\<rparr>"
  have eq: "writeToClient write_res used eagain (n, c) =
      (if nw = - 1 \<and> \<not> eagain then Some (sent, ?n, None)
       else if clientHasPendingReplies c1 then Some (sent, ?n, Some c1)
       else if has c1 CLIENT_CLOSE_AFTER_REPLY then Some (sent, ?n, None)
       else Some (sent, ?n, Some (c1\<lparr>sentlen := 0\<rparr>)))"
    by (simp add: writeToClient_def w(1) Let_def c1_def split del: if_split cong: if_cong)
  have "\<exists>co. writeToClient write_res used eagain (n, c) = Some (sent, ?n, co) \<and> (co = None \<or> co = Some c1)"
    using fin unfolding eq by (simp split: if_split)
  then obtain co where co: "writeToClient write_res used eagain (n, c) = Some (sent, ?n, co)" "co = None \<or> co = Some c1" by blast
  show ?thesis
    by (intro exI [of _ sent] exI [of _ ?n] exI [of _ co] exI [of _ "pending c'"] conjI co(1) w(2) all)
      (use co(2) c1 in auto)
qed

definition client1 :: client where
  "client1 = client0\<lparr>reply := [Some (str ''+OK'' @ crlf)], reply_bytes := 5\<rparr>"

lemma client1_ok: "client_ok client1" "None \<notin> set (reply client1)" "pending client1 = str ''+OK'' @ crlf"
  by (simp_all add: client_ok_def client1_def client0_def sent_ok_def out_max_def pending_def queue_def str_def)

theorem writeToClient_in_order_witness:
  "\<exists>n' co. writeToClient (\<lambda>k n. min 3 (int n)) (\<lambda>k. 0) False (net0, client1) = Some (str ''+OK'' @ crlf, n', co)"
proof -
  have "\<And>k n. min 3 (int n) \<le> int n" by simp
  note writeToClient_in_order [of client1 "\<lambda>k n. min 3 (int n)" "\<lambda>k. 0" False net0, OF client1_ok(1,2) this]
  then obtain sent n' co rest where w: "writeToClient (\<lambda>k n. min 3 (int n)) (\<lambda>k. 0) False (net0, client1) = Some (sent, n', co)"
    "pending client1 = sent @ rest" "length (pending client1) \<le> 65536 \<longrightarrow> rest = []" by auto
  have "length (pending client1) \<le> 65536" by (simp add: client1_ok str_def)
  with w show ?thesis by (simp add: client1_ok)
qed

end
