(* ===== verification/Replication.thy ===== *)
theory Replication
  imports Reply
begin

unbundle bit_operations_syntax

text \<open>
  The master side of replication (\<open>src/replication.c\<close>): the circular backlog that keeps the last
  bytes of the replication stream, the functions that append a command to it and to the output
  queues of the slaves, and the partial resynchronization that serves a returning slave from it.
  Results of \<open>write(2)\<close> and fresh replication ids are arguments; \<open>None\<close> is a failed assertion, a
  memory error or a loop that does not end.
\<close>

subsection \<open>State\<close>

record repl =
  rnet :: net
  repl_backlog :: "bytes option"
  repl_backlog_size :: nat
  repl_backlog_histlen :: nat
  repl_backlog_idx :: nat
  repl_backlog_off :: int
  master_repl_offset :: int
  slaves :: "client list"
  slaveseldb :: int
  masterhost :: "bytes option"
  replid :: bytes
  replid2 :: bytes
  second_replid_offset :: int
  repl_min_slaves_to_write :: int
  repl_min_slaves_max_lag :: int
  repl_good_slaves_count :: nat

abbreviation (input) CONFIG_REPL_BACKLOG_MIN_SIZE :: nat where "CONFIG_REPL_BACKLOG_MIN_SIZE \<equiv> 16384"
abbreviation (input) PROTO_SHARED_SELECT_CMDS :: int where "PROTO_SHARED_SELECT_CMDS \<equiv> 10"
abbreviation (input) SLAVE_CAPA_PSYNC2 :: u32 where "SLAVE_CAPA_PSYNC2 \<equiv> 2"

subsection \<open>The backlog\<close>

definition createReplicationBacklog :: "(nat \<Rightarrow> u8) \<Rightarrow> repl \<Rightarrow> repl option" where
  "createReplicationBacklog junk s =
     (if repl_backlog s \<noteq> None then None
      else Some (s\<lparr>repl_backlog := Some (map junk [0..<repl_backlog_size s]), repl_backlog_histlen := 0,
        repl_backlog_idx := 0, repl_backlog_off := master_repl_offset s + 1\<rparr>))"

definition resizeReplicationBacklog :: "(nat \<Rightarrow> u8) \<Rightarrow> repl \<Rightarrow> int \<Rightarrow> repl" where
  "resizeReplicationBacklog junk s newsize =
     (let newsize = (if newsize < int CONFIG_REPL_BACKLOG_MIN_SIZE then CONFIG_REPL_BACKLOG_MIN_SIZE else nat newsize) in
      if repl_backlog_size s = newsize then s
      else
        let s = s\<lparr>repl_backlog_size := newsize\<rparr> in
        if repl_backlog s \<noteq> None
        then s\<lparr>repl_backlog := Some (map junk [0..<repl_backlog_size s]), repl_backlog_histlen := 0,
               repl_backlog_idx := 0, repl_backlog_off := master_repl_offset s + 1\<rparr>
        else s)"

definition freeReplicationBacklog :: "repl \<Rightarrow> repl option" where
  "freeReplicationBacklog s = (if slaves s \<noteq> [] then None else Some (s\<lparr>repl_backlog := None\<rparr>))"

text \<open>The loop of \<open>feedReplicationBacklog\<close>. A pass that copies nothing would repeat forever.\<close>

function feed_loop :: "bytes \<Rightarrow> repl \<Rightarrow> repl option" where
  "feed_loop p s =
     (if p = [] then Some s
      else
        let thislen = repl_backlog_size s - repl_backlog_idx s;
            thislen = (if thislen > length p then length p else thislen)
        in if thislen = 0 then None
           else do {
             b \<leftarrow> repl_backlog s;
             b \<leftarrow> wrn b (repl_backlog_idx s) (take thislen p);
             let idx = repl_backlog_idx s + thislen;
             let idx = (if idx = repl_backlog_size s then 0 else idx);
             feed_loop (drop thislen p)
               (s\<lparr>repl_backlog := Some b, repl_backlog_idx := idx,
                  repl_backlog_histlen := repl_backlog_histlen s + thislen\<rparr>) })"
  by pat_completeness auto
termination by (relation "measure (\<lambda>(p, s). length p)") (auto split: if_splits)

declare feed_loop.simps [simp del]

definition feedReplicationBacklog :: "bytes \<Rightarrow> repl \<Rightarrow> repl option" where
  "feedReplicationBacklog p s = do {
     let s = s\<lparr>master_repl_offset := master_repl_offset s + int (length p)\<rparr>;
     s \<leftarrow> feed_loop p s;
     let s = (if repl_backlog_histlen s > repl_backlog_size s then s\<lparr>repl_backlog_histlen := repl_backlog_size s\<rparr> else s);
     Some (s\<lparr>repl_backlog_off := master_repl_offset s - int (repl_backlog_histlen s) + 1\<rparr>) }"

definition feedReplicationBacklogWithObject :: "(nat \<Rightarrow> u8) \<Rightarrow> robj \<Rightarrow> repl \<Rightarrow> repl option" where
  "feedReplicationBacklogWithObject junk obj s =
     (case obj of
        Int_obj v \<Rightarrow> do { (llstr, len) \<leftarrow> ll2string (map junk [0..<21]) 21 v; feedReplicationBacklog (take len llstr) s }
      | Str_obj t \<Rightarrow> feedReplicationBacklog t s)"

subsection \<open>Feeding the slaves\<close>

text \<open>The loop over the slaves that are not waiting for a snapshot to start.\<close>

fun feed_slaves :: "(net \<times> client \<Rightarrow> (net \<times> client) option) \<Rightarrow> net \<Rightarrow> client list \<Rightarrow> (net \<times> client list) option" where
  "feed_slaves f n [] = Some (n, [])"
| "feed_slaves f n (slave # ss) =
     (if replstate slave = SLAVE_STATE_WAIT_BGSAVE_START
      then do { (n, ss) \<leftarrow> feed_slaves f n ss; Some (n, slave # ss) }
      else do { (n, slave) \<leftarrow> f (n, slave); (n, ss) \<leftarrow> feed_slaves f n ss; Some (n, slave # ss) })"

definition to_slaves :: "(net \<times> client \<Rightarrow> (net \<times> client) option) \<Rightarrow> repl \<Rightarrow> repl option" where
  "to_slaves f s = do { (n, ss) \<leftarrow> feed_slaves f (rnet s) (slaves s); Some (s\<lparr>rnet := n, slaves := ss\<rparr>) }"

definition select_text :: "nat \<Rightarrow> bytes \<Rightarrow> bytes" where
  "select_text dictid_len llstr =
     str ''*2'' @ crlf @ str ''$6'' @ crlf @ str ''SELECT'' @ crlf @ str ''$'' @ dec_nat dictid_len @ crlf @ llstr @ crlf"

definition shared_select :: "robj list" where
  "shared_select = map (\<lambda>j. Str_obj (select_text (length (dec_nat j)) (dec_nat j))) [0..<10]"

definition select_cmd :: "(nat \<Rightarrow> u8) \<Rightarrow> int \<Rightarrow> robj option" where
  "select_cmd junk dictid =
     (if dictid \<ge> 0 \<and> dictid < PROTO_SHARED_SELECT_CMDS then rd shared_select dictid
      else do {
        (llstr, dictid_len) \<leftarrow> ll2string (map junk [0..<21]) 21 (word_of_int dictid);
        Some (Str_obj (select_text dictid_len (cstring llstr))) })"

definition stringObjectLen :: "robj \<Rightarrow> nat" where
  "stringObjectLen obj = (case obj of Str_obj t \<Rightarrow> length t | Int_obj v \<Rightarrow> sdigits10 v)"

text \<open>A length line, built in the local array \<open>aux\<close> of 24 bytes; the array and the length of the digits.\<close>

definition aux_line :: "(nat \<Rightarrow> u8) \<Rightarrow> u8 \<Rightarrow> i64 \<Rightarrow> (bytes \<times> nat) option" where
  "aux_line junk c v = do {
     (d, len) \<leftarrow> ll2string (map junk [1..<24]) 23 v;
     aux \<leftarrow> wr (c # d) (int len + 1) 13;
     aux \<leftarrow> wr aux (int len + 2) 10;
     Some (aux, len) }"

fun feed_args :: "(nat \<Rightarrow> u8) \<Rightarrow> robj list \<Rightarrow> repl \<Rightarrow> repl option" where
  "feed_args junk [] s = Some s"
| "feed_args junk (obj # args) s = do {
     (aux, len) \<leftarrow> aux_line junk 36 (word_of_nat (stringObjectLen obj));
     t \<leftarrow> rdn aux 0 (len + 3);
     s \<leftarrow> feedReplicationBacklog t s;
     s \<leftarrow> feedReplicationBacklogWithObject junk obj s;
     t \<leftarrow> rdn aux (len + 1) 2;
     s \<leftarrow> feedReplicationBacklog t s;
     feed_args junk args s }"

definition feed_command :: "(nat \<Rightarrow> u8) \<Rightarrow> robj list \<Rightarrow> repl \<Rightarrow> repl option" where
  "feed_command junk args s = do {
     (aux, len) \<leftarrow> aux_line junk 42 (word_of_nat (length args));
     t \<leftarrow> rdn aux 0 (len + 3);
     s \<leftarrow> feedReplicationBacklog t s;
     feed_args junk args s }"

fun bulk_args :: "(nat \<Rightarrow> u8) \<Rightarrow> robj list \<Rightarrow> net \<times> client \<Rightarrow> (net \<times> client) option" where
  "bulk_args junk [] nc = Some nc"
| "bulk_args junk (obj # args) nc = do { nc \<leftarrow> addReplyBulk junk nc obj; bulk_args junk args nc }"

definition reply_command :: "(nat \<Rightarrow> u8) \<Rightarrow> robj list \<Rightarrow> net \<times> client \<Rightarrow> (net \<times> client) option" where
  "reply_command junk args nc = do {
     nc \<leftarrow> addReplyMultiBulkLen junk nc (word_of_nat (length args));
     bulk_args junk args nc }"

definition send_select :: "(nat \<Rightarrow> u8) \<Rightarrow> int \<Rightarrow> repl \<Rightarrow> repl option" where
  "send_select junk dictid s =
     (if slaveseldb s \<noteq> dictid then do {
        selectcmd \<leftarrow> select_cmd junk dictid;
        s \<leftarrow> (if repl_backlog s \<noteq> None then feedReplicationBacklogWithObject junk selectcmd s else Some s);
        to_slaves (\<lambda>nc. addReply junk nc selectcmd) s }
      else Some s)"

definition replicationFeedSlaves :: "(nat \<Rightarrow> u8) \<Rightarrow> int \<Rightarrow> robj list \<Rightarrow> repl \<Rightarrow> repl option" where
  "replicationFeedSlaves junk dictid args s =
     (if masterhost s \<noteq> None then Some s
      else if repl_backlog s = None \<and> slaves s = [] then Some s
      else if slaves s \<noteq> [] \<and> repl_backlog s = None then None
      else do {
        s \<leftarrow> send_select junk dictid s;
        let s = s\<lparr>slaveseldb := dictid\<rparr>;
        s \<leftarrow> (if repl_backlog s \<noteq> None then feed_command junk args s else Some s);
        to_slaves (reply_command junk args) s })"

definition replicationFeedSlavesFromMasterStream :: "bytes \<Rightarrow> repl \<Rightarrow> repl option" where
  "replicationFeedSlavesFromMasterStream b s = do {
     s \<leftarrow> (if repl_backlog s \<noteq> None then feedReplicationBacklog b s else Some s);
     to_slaves (\<lambda>nc. addReplyString nc b) s }"

subsection \<open>Partial resynchronization\<close>

function backlog_loop :: "bytes \<Rightarrow> int \<Rightarrow> int \<Rightarrow> int \<Rightarrow> net \<times> client \<Rightarrow> (net \<times> client) option" where
  "backlog_loop b bsize j len nc =
     (if len = 0 then Some nc
      else
        let thislen = (if bsize - j < len then bsize - j else len) in
        if thislen \<le> 0 \<or> j < 0 then None
        else do {
          t \<leftarrow> rdn b (nat j) (nat thislen);
          nc \<leftarrow> addReplySds nc t;
          backlog_loop b bsize 0 (len - thislen) nc })"
  by pat_completeness auto
termination by (relation "measure (\<lambda>(b, bsize, j, len, nc). nat len)") (auto split: if_splits)

declare backlog_loop.simps [simp del]

definition addReplyReplicationBacklog :: "repl \<Rightarrow> int \<Rightarrow> net \<times> client \<Rightarrow> (int \<times> net \<times> client) option" where
  "addReplyReplicationBacklog s offset nc =
     (if repl_backlog_histlen s = 0 then Some (0, nc)
      else do {
        b \<leftarrow> repl_backlog s;
        let bsize = int (repl_backlog_size s);
        let skip = offset - repl_backlog_off s;
        let j = (int (repl_backlog_idx s) + (bsize - int (repl_backlog_histlen s))) mod bsize;
        let j = (if j + skip < 0 then - ((- (j + skip)) mod bsize) else (j + skip) mod bsize);
        let len = int (repl_backlog_histlen s) - skip;
        nc \<leftarrow> backlog_loop b bsize j len nc;
        Some (int (repl_backlog_histlen s) - skip, nc) })"

definition refreshGoodSlavesCount :: "repl \<Rightarrow> repl" where
  "refreshGoodSlavesCount s =
     (if repl_min_slaves_to_write s = 0 \<or> repl_min_slaves_max_lag s = 0 then s
      else s\<lparr>repl_good_slaves_count :=
        length (filter (\<lambda>slave. replstate slave = SLAVE_STATE_ONLINE \<and>
          unixtime (rnet s) - repl_ack_time slave \<le> repl_min_slaves_max_lag s) (slaves s))\<rparr>)"

definition getLongLongFromObject :: "robj option \<Rightarrow> i64 option" where
  "getLongLongFromObject obj =
     (case obj of None \<Rightarrow> Some 0 | Some (Str_obj t) \<Rightarrow> string2ll t | Some (Int_obj v) \<Rightarrow> Some v)"

text \<open>The parsed value is \<open>None\<close> when the error has been queued.\<close>

definition getLongLongFromObjectOrReply ::
  "net \<times> client \<Rightarrow> robj option \<Rightarrow> bytes option \<Rightarrow> (i64 option \<times> net \<times> client) option" where
  "getLongLongFromObjectOrReply nc obj msg =
     (case getLongLongFromObject obj of
        Some v \<Rightarrow> Some (Some v, nc)
      | None \<Rightarrow> do {
          nc \<leftarrow> addReplyError nc (case msg of Some m \<Rightarrow> m | None \<Rightarrow> str ''value is not an integer or out of range'');
          Some (None, nc) })"

text \<open>\<open>strcasecmp(a, b) == 0\<close>\<close>

definition same_replid :: "bytes \<Rightarrow> bytes \<Rightarrow> bool" where
  "same_replid a b \<longleftrightarrow> map tolower (cstring a) = map tolower (cstring b)"

text \<open>
  \<open>write_res\<close> is the result of writing the status line to the socket. The result tells whether a
  full resynchronization is avoided, and gives the bytes written to the socket at once, the state
  and the client; an accepted client is also the last of the slaves.
\<close>

definition continue_line :: "repl \<Rightarrow> client \<Rightarrow> bytes" where
  "continue_line s c =
     (if slave_capa c AND SLAVE_CAPA_PSYNC2 \<noteq> 0
      then str ''+CONTINUE '' @ cstring (replid s) @ crlf else str ''+CONTINUE'' @ crlf)"

definition masterTryPartialResynchronization ::
  "int \<Rightarrow> repl \<Rightarrow> client \<Rightarrow> (bool \<times> bytes \<times> repl \<times> client) option" where
  "masterTryPartialResynchronization write_res s c = do {
     master_replid \<leftarrow> (case rd (argv c) 1 of Some (Str_obj t) \<Rightarrow> Some t | _ \<Rightarrow> None);
     off_obj \<leftarrow> rd (argv c) 2;
     (off, n, c) \<leftarrow> getLongLongFromObjectOrReply (rnet s, c) (Some off_obj) None;
     let s = s\<lparr>rnet := n\<rparr>;
     case off of
       None \<Rightarrow> Some (False, [], s, c)
     | Some v \<Rightarrow>
         let psync_offset = sint v in
         if \<not> same_replid master_replid (replid s) \<and>
            (\<not> same_replid master_replid (replid2 s) \<or> psync_offset > second_replid_offset s)
         then Some (False, [], s, c)
         else if repl_backlog s = None \<or> psync_offset < repl_backlog_off s \<or>
           psync_offset > repl_backlog_off s + int (repl_backlog_histlen s)
         then Some (False, [], s, c)
         else
           let c = c\<lparr>flags := flags c OR CLIENT_SLAVE, replstate := SLAVE_STATE_ONLINE,
                 repl_ack_time := unixtime (rnet s), repl_put_online_on_ack := False\<rparr>;
               line = continue_line s c
           in if write_res \<noteq> int (length line) then
                let (n, c) = freeClientAsync (rnet s, c)
                in Some (True, take (nat write_res) line, s\<lparr>rnet := n, slaves := slaves s @ [c]\<rparr>, c)
              else do {
                (psync_len, n, c) \<leftarrow> addReplyReplicationBacklog s psync_offset (rnet s, c);
                Some (True, line, refreshGoodSlavesCount (s\<lparr>rnet := n, slaves := slaves s @ [c]\<rparr>), c) } }"

definition replicationSetupSlaveForFullResync :: "int \<Rightarrow> int \<Rightarrow> repl \<Rightarrow> client \<Rightarrow> bool \<times> bytes \<times> repl \<times> client" where
  "replicationSetupSlaveForFullResync write_res offset s slave =
     (let slave = slave\<lparr>psync_initial_offset := offset, replstate := SLAVE_STATE_WAIT_BGSAVE_END\<rparr>;
          s = s\<lparr>slaveseldb := - 1\<rparr>
      in if has slave CLIENT_PRE_PSYNC then (True, [], s, slave)
         else
           let line = str ''+FULLRESYNC '' @ cstring (replid s) @ str '' '' @ dec_int offset @ crlf
           in if write_res \<noteq> int (length line)
              then let (n, slave) = freeClientAsync (rnet s, slave)
                   in (False, take (nat write_res) line, s\<lparr>rnet := n\<rparr>, slave)
              else (True, line, s, slave))"

subsection \<open>Replication ids\<close>

text \<open>\<open>fresh\<close> are the random characters of the new id.\<close>

definition changeReplicationId :: "bytes \<Rightarrow> repl \<Rightarrow> repl" where
  "changeReplicationId fresh s = s\<lparr>replid := fresh @ [0]\<rparr>"

definition clearReplicationId2 :: "repl \<Rightarrow> repl" where
  "clearReplicationId2 s = s\<lparr>replid2 := replicate 40 48 @ [0], second_replid_offset := - 1\<rparr>"

definition shiftReplicationId :: "bytes \<Rightarrow> repl \<Rightarrow> repl" where
  "shiftReplicationId fresh s =
     changeReplicationId fresh (s\<lparr>replid2 := replid s, second_replid_offset := master_repl_offset s + 1\<rparr>)"

subsection \<open>What the backlog holds\<close>

text \<open>The \<open>h\<close> bytes written last into a circular buffer whose next position is \<open>idx\<close>, newest first.\<close>

definition ring :: "bytes \<Rightarrow> nat \<Rightarrow> nat \<Rightarrow> bytes" where
  "ring b idx h = map (\<lambda>k. b ! ((idx + length b - 1 - k) mod length b)) [0..<h]"

definition last_n :: "nat \<Rightarrow> 'a list \<Rightarrow> 'a list" where
  "last_n n xs = drop (length xs - n) xs"

definition backlog_data :: "repl \<Rightarrow> bytes" where
  "backlog_data s = rev (ring (the (repl_backlog s)) (repl_backlog_idx s) (repl_backlog_histlen s))"

definition backlog_ok :: "repl \<Rightarrow> bool" where
  "backlog_ok s \<longleftrightarrow> (\<exists>b. repl_backlog s = Some b \<and> length b = repl_backlog_size s) \<and>
     repl_backlog_idx s < repl_backlog_size s \<and> repl_backlog_histlen s \<le> repl_backlog_size s \<and>
     repl_backlog_off s = master_repl_offset s - int (repl_backlog_histlen s) + 1"

lemma last_n_rev: "last_n n xs = rev (take n (rev xs))"
  by (simp add: last_n_def rev_take)

lemma length_ring [simp]: "length (ring b idx h) = h"
  by (simp add: ring_def)

lemma length_backlog_data [simp]: "length (backlog_data s) = repl_backlog_histlen s"
  by (simp add: backlog_data_def)

lemma put_nth:
  "i < length b \<Longrightarrow> idx + length c \<le> length b \<Longrightarrow>
    put b idx c ! i = (if idx \<le> i \<and> i < idx + length c then c ! (i - idx) else b ! i)"
  by (auto simp: put_def nth_append min_def)

lemma put_nth_in: "j < length c \<Longrightarrow> put b idx c ! (min idx (length b) + j) = c ! j"
  by (simp add: put_def nth_append min_def)

lemma ring_index:
  fixes N idx t k :: nat
  assumes "idx + t \<le> N" "k < N"
  shows "((idx + t) mod N + N - 1 - k) mod N = (idx + t + N - 1 - k) mod N"
proof (cases "idx + t = N")
  case True
  have "(N + N - 1 - k) mod N = (N + (N - 1 - k)) mod N" using assms(2) by simp
  also have "\<dots> = (N - 1 - k) mod N" by simp
  finally show ?thesis using True by simp
qed (use assms in simp)

lemma ring_write:
  assumes "idx + length c \<le> length b" "h \<le> length b" "0 < length b"
  shows "ring (put b idx c) ((idx + length c) mod length b) (min (length b) (length c + h)) =
    take (length b) (rev c @ ring b idx h)"
proof (rule nth_equalityI)
  let ?N = "length b" and ?t = "length c"
  have len: "length (put b idx c) = ?N" using assms(1) by (simp add: put_def)
  fix k assume "k < length (ring (put b idx c) ((idx + ?t) mod ?N) (min ?N (?t + h)))"
  then have k: "k < ?N" "k < ?t + h" by simp_all
  then have lhs: "ring (put b idx c) ((idx + ?t) mod ?N) (min ?N (?t + h)) ! k = put b idx c ! ((idx + ?t + ?N - 1 - k) mod ?N)"
    using ring_index [of idx ?t ?N k] assms(1) by (simp add: ring_def len)
  show "ring (put b idx c) ((idx + ?t) mod ?N) (min ?N (?t + h)) ! k = take ?N (rev c @ ring b idx h) ! k"
  proof (cases "k < ?t")
    case True
    have "idx + ?t + ?N - 1 - k = idx + (?t - 1 - k) + ?N" using True by simp
    moreover have "idx + (?t - 1 - k) < ?N" using True assms(1) by simp
    ultimately have "(idx + ?t + ?N - 1 - k) mod ?N = idx + (?t - 1 - k)" by (simp only: mod_add_self2 mod_less)
    then have "ring (put b idx c) ((idx + ?t) mod ?N) (min ?N (?t + h)) ! k = c ! (?t - 1 - k)"
      unfolding lhs using True put_nth_in [of "?t - 1 - k" c b idx] assms(1) by (simp add: min_absorb1)
    then show ?thesis using True k by (simp add: nth_append rev_nth)
  next
    case False
    let ?i = "(idx + ?N - 1 - (k - ?t)) mod ?N"
    have i: "idx + ?t + ?N - 1 - k = idx + ?N - 1 - (k - ?t)" using False k by simp
    have "\<not> (idx \<le> ?i \<and> ?i < idx + ?t)"
    proof (cases "k - ?t < idx")
      case True
      then have "idx + ?N - 1 - (k - ?t) = (idx - 1 - (k - ?t)) + ?N" by simp
      moreover have "idx - 1 - (k - ?t) < ?N" using True assms(1) by simp
      ultimately have "?i = idx - 1 - (k - ?t)" by (simp only: mod_add_self2 mod_less)
      then show ?thesis using True by simp
    next
      case f: False
      then have "?i = idx + ?N - 1 - (k - ?t)" using k False by simp
      then show ?thesis using f False k by arith
    qed
    moreover have "?i < ?N" using assms(3) by simp
    ultimately have "put b idx c ! ?i = b ! ?i" using put_nth [OF _ assms(1), of ?i] by presburger
    moreover have "k - ?t < h" using k False by simp
    ultimately show ?thesis unfolding lhs i using k False by (simp add: nth_append ring_def)
  qed
qed (use assms in \<open>auto simp: min_def\<close>)

lemma take_ring: "take n (rev (drop t p) @ take n (rev (take t p) @ x)) = take n (rev p @ x)"
proof -
  have "rev p = rev (drop t p) @ rev (take t p)" by (metis append_take_drop_id rev_append)
  then show ?thesis by (simp add: min_def)
qed

lemma feed_loop_step:
  assumes b: "repl_backlog s = Some b" "length b = repl_backlog_size s" "repl_backlog_idx s < repl_backlog_size s" and p: "p \<noteq> []"
  defines "t \<equiv> min (length p) (repl_backlog_size s - repl_backlog_idx s)"
  shows "feed_loop p s = feed_loop (drop t p)
    (s\<lparr>repl_backlog := Some (put b (repl_backlog_idx s) (take t p)), repl_backlog_idx := (repl_backlog_idx s + t) mod length b,
       repl_backlog_histlen := repl_backlog_histlen s + t\<rparr>)"
proof -
  have t: "0 < t" "t \<le> length p" "repl_backlog_idx s + t \<le> length b" using b p by (auto simp: t_def)
  have "(if repl_backlog_size s - repl_backlog_idx s > length p then length p else repl_backlog_size s - repl_backlog_idx s) = t"
    by (simp add: t_def)
  moreover have "(if repl_backlog_idx s + t = repl_backlog_size s then 0 else repl_backlog_idx s + t) = (repl_backlog_idx s + t) mod length b"
    using t(3) b(2) by simp
  moreover have "wrn b (repl_backlog_idx s) (take t p) = Some (put b (repl_backlog_idx s) (take t p))"
    using t by (simp add: wrn_def)
  ultimately show ?thesis using p b(1) t(1) unfolding feed_loop.simps [of p s] by (simp add: Let_def del: if_split_asm)
qed

lemma feed_loop_spec:
  assumes "repl_backlog s = Some b" "length b = repl_backlog_size s" "repl_backlog_idx s < repl_backlog_size s"
  shows "\<exists>b' idx'. feed_loop p s = Some (s\<lparr>repl_backlog := Some b', repl_backlog_idx := idx',
      repl_backlog_histlen := repl_backlog_histlen s + length p\<rparr>) \<and> length b' = length b \<and> idx' < length b \<and>
    ring b' idx' (min (length b) (length p + repl_backlog_histlen s)) =
      take (length b) (rev p @ ring b (repl_backlog_idx s) (min (length b) (repl_backlog_histlen s)))"
  using assms
proof (induction "length p" arbitrary: p s b rule: less_induct)
  case less
  show ?case
  proof (cases "p = []")
    case True
    then show ?thesis using less.prems by (intro exI [of _ b] exI [of _ "repl_backlog_idx s"]) (simp add: feed_loop.simps)
  next
    case False
    let ?N = "length b" and ?i = "repl_backlog_idx s" and ?h = "repl_backlog_histlen s"
    define t where "t = min (length p) (repl_backlog_size s - ?i)"
    have t: "0 < t" "t \<le> length p" "?i + t \<le> ?N" using less.prems False by (auto simp: t_def)
    define b1 where "b1 = put b ?i (take t p)"
    define s1 where "s1 = s\<lparr>repl_backlog := Some b1, repl_backlog_idx := (?i + t) mod ?N, repl_backlog_histlen := ?h + t\<rparr>"
    have b1: "length b1 = ?N" using t by (simp add: b1_def put_def)
    have "?N > 0" using less.prems by simp
    have "length (drop t p) < length p" using t by simp
    then obtain b' idx' where IH: "feed_loop (drop t p) s1 = Some (s1\<lparr>repl_backlog := Some b', repl_backlog_idx := idx',
        repl_backlog_histlen := repl_backlog_histlen s1 + length (drop t p)\<rparr>)" "length b' = ?N" "idx' < ?N"
      "ring b' idx' (min ?N (length (drop t p) + (?h + t))) = take ?N (rev (drop t p) @ ring b1 ((?i + t) mod ?N) (min ?N (?h + t)))"
      using less.hyps [of "drop t p" s1 b1] b1 t less.prems by (auto simp: s1_def)
    have "ring b1 ((?i + t) mod ?N) (min ?N (t + min ?N ?h)) = take ?N (rev (take t p) @ ring b ?i (min ?N ?h))"
      using ring_write [of ?i "take t p" b "min ?N ?h"] t \<open>?N > 0\<close> by (simp add: b1_def)
    moreover have "min ?N (t + min ?N ?h) = min ?N (?h + t)" by (simp add: min_def)
    moreover have "length (drop t p) + (?h + t) = length p + ?h" using t(2) by simp
    ultimately have "ring b' idx' (min ?N (length p + ?h)) = take ?N (rev p @ ring b ?i (min ?N ?h))"
      using IH(4) take_ring [of ?N t p "ring b ?i (min ?N ?h)"] by (simp only:)
    moreover have "feed_loop p s = feed_loop (drop t p) s1"
      using feed_loop_step [OF less.prems False] by (simp add: s1_def b1_def t_def)
    ultimately show ?thesis using IH(1-3) t(2) by (intro exI [of _ b'] exI [of _ idx']) (simp add: s1_def)
  qed
qed

lemma feedReplicationBacklog_spec:
  assumes "backlog_ok s"
  shows "\<exists>b' idx' h'. feedReplicationBacklog p s = Some (s\<lparr>repl_backlog := Some b', repl_backlog_idx := idx', repl_backlog_histlen := h',
      master_repl_offset := master_repl_offset s + int (length p),
      repl_backlog_off := master_repl_offset s + int (length p) - int h' + 1\<rparr>) \<and>
    length b' = repl_backlog_size s \<and> idx' < repl_backlog_size s \<and> h' = min (repl_backlog_size s) (length p + repl_backlog_histlen s) \<and>
    rev (ring b' idx' h') = last_n (repl_backlog_size s) (backlog_data s @ p)"
proof -
  obtain b where b: "repl_backlog s = Some b" "length b = repl_backlog_size s" "repl_backlog_idx s < repl_backlog_size s"
    "repl_backlog_histlen s \<le> repl_backlog_size s" using assms by (auto simp: backlog_ok_def)
  let ?s = "s\<lparr>master_repl_offset := master_repl_offset s + int (length p)\<rparr>" and ?N = "repl_backlog_size s" and ?h = "repl_backlog_histlen s"
  obtain b' idx' where f: "feed_loop p ?s = Some (?s\<lparr>repl_backlog := Some b', repl_backlog_idx := idx', repl_backlog_histlen := ?h + length p\<rparr>)"
    "length b' = ?N" "idx' < ?N" "ring b' idx' (min ?N (length p + ?h)) = take ?N (rev p @ ring b (repl_backlog_idx s) ?h)"
    using feed_loop_spec [of ?s b p] b by (auto simp: min_absorb2)
  have "feedReplicationBacklog p s = Some (s\<lparr>repl_backlog := Some b', repl_backlog_idx := idx', repl_backlog_histlen := min ?N (length p + ?h),
      master_repl_offset := master_repl_offset s + int (length p),
      repl_backlog_off := master_repl_offset s + int (length p) - int (min ?N (length p + ?h)) + 1\<rparr>)"
    using f(1) by (cases s) (simp add: feedReplicationBacklog_def Let_def min_def)
  moreover have "rev (ring b' idx' (min ?N (length p + ?h))) = last_n ?N (backlog_data s @ p)"
    using f(4) b(1) by (simp add: last_n_rev backlog_data_def)
  ultimately show ?thesis using f(2,3) by blast
qed

text \<open>A step that appends \<open>t\<close> to the stream: the backlog keeps the last bytes of it, the offset counts all.\<close>

definition rframe :: "repl \<Rightarrow> repl" where
  "rframe s = s\<lparr>repl_backlog := None, repl_backlog_idx := 0, repl_backlog_histlen := 0, repl_backlog_off := 0, master_repl_offset := 0\<rparr>"

definition fed :: "repl \<Rightarrow> bytes \<Rightarrow> repl \<Rightarrow> bool" where
  "fed s t s' \<longleftrightarrow> backlog_ok s' \<and> rframe s' = rframe s \<and> master_repl_offset s' = master_repl_offset s + int (length t) \<and>
     backlog_data s' = last_n (repl_backlog_size s) (backlog_data s @ t)"

definition feeds :: "(repl \<Rightarrow> repl option) \<Rightarrow> bytes \<Rightarrow> bool" where
  "feeds f t \<longleftrightarrow> (\<forall>s. backlog_ok s \<longrightarrow> (\<exists>s'. f s = Some s' \<and> fed s t s'))"

lemma rframe_sel [simp]:
  "repl_backlog_size (rframe s) = repl_backlog_size s" "rnet (rframe s) = rnet s" "slaves (rframe s) = slaves s"
  "slaveseldb (rframe s) = slaveseldb s" "masterhost (rframe s) = masterhost s" "replid (rframe s) = replid s"
  by (simp_all add: rframe_def)

lemma fed_frame:
  assumes "fed s t s'"
  shows "repl_backlog_size s' = repl_backlog_size s" "rnet s' = rnet s" "slaves s' = slaves s" "slaveseldb s' = slaveseldb s"
    "masterhost s' = masterhost s" "replid s' = replid s"
proof -
  have "rframe s' = rframe s" using assms by (simp add: fed_def)
  then show "repl_backlog_size s' = repl_backlog_size s" "rnet s' = rnet s" "slaves s' = slaves s" "slaveseldb s' = slaveseldb s"
    "masterhost s' = masterhost s" "replid s' = replid s"
    using rframe_sel by metis+
qed

lemma last_n_append: "last_n n (last_n n xs @ ys) = last_n n (xs @ ys)"
  by (cases "n \<le> length xs") (simp_all add: last_n_def add.commute)

lemma fed_trans: "fed s t s' \<Longrightarrow> fed s' u s'' \<Longrightarrow> fed s (t @ u) s''"
  using fed_frame(1) [of s t s'] last_n_append [of "repl_backlog_size s" "backlog_data s @ t" u] by (simp add: fed_def)

lemma fed_Nil: "backlog_ok s \<Longrightarrow> fed s [] s"
  by (simp add: fed_def last_n_def backlog_ok_def)

lemma feeds_bind: "feeds f t \<Longrightarrow> feeds g u \<Longrightarrow> feeds (\<lambda>s. f s \<bind> g) (t @ u)"
  unfolding feeds_def by (metis bind.bind_lunit fed_def fed_trans)

lemma feeds_Some: "feeds Some []"
  by (simp add: feeds_def fed_Nil)

lemma feeds_backlog: "feeds (feedReplicationBacklog p) p"
  unfolding feeds_def
proof (intro allI impI)
  fix s assume "backlog_ok s"
  from feedReplicationBacklog_spec [OF this, of p]
  show "\<exists>s'. feedReplicationBacklog p s = Some s' \<and> fed s p s'"
    by (auto simp: fed_def backlog_ok_def rframe_def backlog_data_def)
qed

lemma feeds_object: "feeds (feedReplicationBacklogWithObject junk obj) (obj_text obj)"
  using feeds_backlog by (cases obj) (simp_all add: feeds_def feedReplicationBacklogWithObject_def ll2string_fits)

lemma aux_line_spec:
  "\<exists>aux len. aux_line junk c v = Some (aux, len) \<and> rdn aux 0 (len + 3) = Some (c # dec_int (sint v) @ crlf) \<and> rdn aux (len + 1) 2 = Some crlf"
proof -
  let ?d = "dec_int (sint v)"
  have l: "length ?d \<le> 20" by (rule length_dec_int_le)
  obtain r where r: "ll2string (map junk [1..<24]) 23 v = Some (?d @ 0 # r, length ?d)" "length r = 22 - length ?d"
    using ll2string_fits [of 23 "map junk [1..<24]" v] l by simp
  then obtain y ys where "r = y # ys" using l by (cases r) auto
  then show ?thesis using r(1) by (simp add: aux_line_def wr_def rdn_def nat_add_distrib list_update_append numeral_2_eq_2 numeral_3_eq_3)
qed

lemma stringObjectLen_eq: "stringObjectLen obj = length (obj_text obj)"
  by (cases obj) (simp_all add: stringObjectLen_def sdigits10_length)

definition cmd_text :: "robj list \<Rightarrow> bytes" where
  "cmd_text args = hdr ''*'' (int (length args)) @ concat (map (\<lambda>a. bulk (obj_text a)) args)"

definition arg_fine :: "robj \<Rightarrow> bool" where
  "arg_fine obj \<longleftrightarrow> obj \<noteq> Int_obj (word_of_int LLONG_MIN) \<and> length (obj_text obj) < 2 ^ 63"

lemma feeds_args: "list_all arg_fine args \<Longrightarrow> feeds (feed_args junk args) (concat (map (\<lambda>a. bulk (obj_text a)) args))"
proof (induction args)
  case Nil
  then show ?case by (simp add: feeds_def fed_Nil)
next
  case (Cons obj args)
  let ?n = "length (obj_text obj)"
  have n: "sint (word_of_nat ?n :: i64) = int ?n" using Cons.prems sint_of_nat [of ?n] by (simp add: arg_fine_def)
  obtain aux len where a: "aux_line junk 36 (word_of_nat ?n) = Some (aux, len)" "rdn aux 0 (len + 3) = Some (hdr ''$'' (int ?n))"
    "rdn aux (len + 1) 2 = Some crlf"
    using aux_line_spec [of junk 36 "word_of_nat ?n"] by (auto simp: n hdr_def str_def)
  have "feeds (\<lambda>s. feedReplicationBacklog (hdr ''$'' (int ?n)) s \<bind> (\<lambda>s. feedReplicationBacklogWithObject junk obj s \<bind>
      (\<lambda>s. feedReplicationBacklog crlf s \<bind> feed_args junk args)))
      (hdr ''$'' (int ?n) @ obj_text obj @ crlf @ concat (map (\<lambda>a. bulk (obj_text a)) args))"
    using Cons by (intro feeds_bind feeds_backlog feeds_object) simp
  then show ?case by (simp add: feeds_def stringObjectLen_eq a a(3) [simplified] bulk_def)
qed

lemma feeds_command:
  assumes "list_all arg_fine args" "length args < 2 ^ 63"
  shows "feeds (feed_command junk args) (cmd_text args)"
proof -
  have n: "sint (word_of_nat (length args) :: i64) = int (length args)" using assms(2) by (rule sint_of_nat)
  obtain aux len where a: "aux_line junk 42 (word_of_nat (length args)) = Some (aux, len)"
    "rdn aux 0 (len + 3) = Some (hdr ''*'' (int (length args)))"
    using aux_line_spec [of junk 42 "word_of_nat (length args)"] by (auto simp: n hdr_def str_def)
  have "feeds (\<lambda>s. feedReplicationBacklog (hdr ''*'' (int (length args))) s \<bind> feed_args junk args) (cmd_text args)"
    unfolding cmd_text_def by (intro feeds_bind feeds_backlog feeds_args assms(1))
  then show ?thesis by (simp add: feeds_def feed_command_def a)
qed

lemma emits_args: "list_all arg_fine args \<Longrightarrow> cl.emits x (bulk_args junk args) (concat (map (\<lambda>a. bulk (obj_text a)) args))"
proof (induction args)
  case Nil
  then show ?case by (simp add: cl.emits_def)
next
  case (Cons obj args)
  have "cl.emits x (\<lambda>nc. addReplyBulk junk nc obj \<bind> bulk_args junk args) (bulk (obj_text obj) @ concat (map (\<lambda>a. bulk (obj_text a)) args))"
    using Cons by (intro cl.emits_bind emits_bulk) (simp_all add: arg_fine_def)
  then show ?case by (simp add: cl.emits_def)
qed

lemma emits_command:
  assumes "list_all arg_fine args" "length args < 2 ^ 63"
  shows "cl.emits x (reply_command junk args) (cmd_text args)"
proof -
  have n: "sint (word_of_nat (length args) :: i64) = int (length args)" using assms(2) by (rule sint_of_nat)
  then have "cl.emits x (\<lambda>nc. addReplyMultiBulkLen junk nc (word_of_nat (length args)) \<bind> bulk_args junk args) (cmd_text args)"
    unfolding cmd_text_def using emits_multibulk [of "word_of_nat (length args)" x junk]
    by (intro cl.emits_bind emits_args assms(1)) simp
  then show ?thesis by (simp add: reply_command_def [abs_def])
qed

text \<open>The command that selects a database is itself a command of the stream.\<close>

lemma select_text_eq: "select_text (length d) d = cmd_text [Str_obj (str ''SELECT''), Str_obj d]"
  by (simp add: select_text_def cmd_text_def bulk_def hdr_def str_def dec_int_def dec_nat_small)

lemma select_cmd_spec:
  assumes "- (2 ^ 31) \<le> dictid" "dictid < 2 ^ 31"
  shows "select_cmd junk dictid = Some (Str_obj (cmd_text [Str_obj (str ''SELECT''), Str_obj (dec_int dictid)]))"
proof (cases "0 \<le> dictid \<and> dictid < 10")
  case True
  then have "nat dictid < 10" by (simp add: nat_less_iff)
  then have "shared_select ! nat dictid = Str_obj (select_text (length (dec_nat (nat dictid))) (dec_nat (nat dictid)))"
    by (simp add: shared_select_def del: upt_conv_Cons_Cons upt_rec_numeral)
  with True show ?thesis
    by (simp add: select_cmd_def rd_def shared_select_def select_text_eq [symmetric] dec_int_def)
next
  case False
  have "sint (word_of_int dictid :: i64) = dictid"
    using assms by (simp add: signed_of_int signed_take_bit_int_eq_self)
  then show ?thesis
    using False ll2string_fits [of 21 "map junk [0..<21]" "word_of_int dictid"]
    by (auto simp: select_cmd_def cstring_prefix dec_int_nonzero select_text_eq)
qed

text \<open>What happens to a slave when \<open>t\<close> is sent to all of them.\<close>

definition can_feed :: "bytes \<Rightarrow> client \<Rightarrow> bool" where
  "can_feed t c \<longleftrightarrow> replstate c = SLAVE_STATE_WAIT_BGSAVE_START \<or>
     client_ok c \<and> accepts c \<and> length (queue c) + length t \<le> out_max"

definition fed_slave :: "bytes \<Rightarrow> client \<Rightarrow> client \<Rightarrow> bool" where
  "fed_slave t c c' \<longleftrightarrow>
     (if replstate c = SLAVE_STATE_WAIT_BGSAVE_START then c' = c
      else client_ok c' \<and> accepts c' \<and> frame c' = frame c \<and> queue c' = queue c @ t)"

lemma feed_slaves_spec:
  assumes "\<And>x. cl.emits (x, None) f t" "list_all (can_feed t) ss"
  shows "\<exists>n' ss'. feed_slaves f n ss = Some (n', ss') \<and> list_all2 (fed_slave t) ss ss'"
  using assms(2)
proof (induction ss arbitrary: n)
  case (Cons c ss)
  show ?case
  proof (cases "replstate c = SLAVE_STATE_WAIT_BGSAVE_START")
    case True
    then have "fed_slave t c c" by (simp add: fed_slave_def)
    then show ?thesis using True Cons.IH [of n] Cons.prems by auto
  next
    case False
    then have "accepting (frame c, None) (n, c)" "length (queue c) + length t \<le> out_max"
      using Cons.prems by (simp_all add: can_feed_def accepting_def)
    then obtain n1 c1 where "f (n, c) = Some (n1, c1)" "accepting (frame c, None) (n1, c1)" "queue c1 = queue c @ t"
      using cl.emitsD [OF assms(1), of "frame c" "(n, c)"] by auto
    moreover from this False have "fed_slave t c c1" by (simp add: fed_slave_def accepting_def)
    ultimately show ?thesis using Cons.IH [of n1] Cons.prems False by auto
  qed
qed simp

lemma frame_replstate: "frame c' = frame c \<Longrightarrow> replstate c' = replstate c"
  using frame_sel(3) by metis

lemma fed_slave_trans: "fed_slave t c c' \<Longrightarrow> fed_slave u c' c'' \<Longrightarrow> fed_slave (t @ u) c c''"
  using frame_replstate [of c' c] by (auto simp: fed_slave_def split: if_splits)

lemma can_feed_next: "can_feed (t @ u) c \<Longrightarrow> fed_slave t c c' \<Longrightarrow> can_feed u c'"
  using frame_replstate [of c' c] by (auto simp: fed_slave_def can_feed_def split: if_splits)

lemma list_all_feed_next:
  "list_all (can_feed (t @ u)) ss \<Longrightarrow> list_all2 (fed_slave t) ss ss' \<Longrightarrow> list_all (can_feed u) ss'"
  by (induction ss arbitrary: ss') (auto simp: list_all2_Cons1 intro: can_feed_next)

lemma list_all_feed_front: "list_all (can_feed (t @ u)) ss \<Longrightarrow> list_all (can_feed t) ss"
  by (auto simp: list_all_iff can_feed_def)

lemma list_all2_fed_trans:
  "list_all2 (fed_slave t) ss ss' \<Longrightarrow> list_all2 (fed_slave u) ss' ss'' \<Longrightarrow> list_all2 (fed_slave (t @ u)) ss ss''"
  by (rule list_all2_trans [where ?P1.0 = "fed_slave t" and ?P2.0 = "fed_slave u"]) (auto intro: fed_slave_trans)

lemma list_all2_fed_Nil: "list_all (can_feed []) ss \<Longrightarrow> list_all2 (fed_slave []) ss ss"
  by (induction ss) (auto simp: fed_slave_def can_feed_def)

text \<open>The stream as both sides see it: the backlog and the queue of every slave that is fed grow by
  the same bytes.\<close>

definition streamed :: "repl \<Rightarrow> bytes \<Rightarrow> repl \<Rightarrow> bool" where
  "streamed s t s' \<longleftrightarrow> backlog_ok s' \<and> repl_backlog_size s' = repl_backlog_size s \<and> replid s' = replid s \<and> masterhost s' = masterhost s \<and>
     master_repl_offset s' = master_repl_offset s + int (length t) \<and>
     backlog_data s' = last_n (repl_backlog_size s) (backlog_data s @ t) \<and>
     list_all2 (fed_slave t) (slaves s) (slaves s')"

lemma streamed_trans: "streamed s t s' \<Longrightarrow> streamed s' u s'' \<Longrightarrow> streamed s (t @ u) s''"
  using last_n_append [of "repl_backlog_size s" "backlog_data s @ t" u] list_all2_fed_trans [of t "slaves s" "slaves s'" u "slaves s''"]
  by (simp add: streamed_def)

lemma streamed_step:
  assumes s: "backlog_ok s" "list_all (can_feed t) (slaves s)" and f: "feeds f t" and g: "\<And>x. cl.emits (x, None) g t"
  shows "\<exists>s'. do { s \<leftarrow> f s; to_slaves g s } = Some s' \<and> streamed s t s' \<and> slaveseldb s' = slaveseldb s"
proof -
  obtain s1 where s1: "f s = Some s1" "fed s t s1" using f s(1) by (auto simp: feeds_def)
  obtain n' ss' where ss: "feed_slaves g (rnet s1) (slaves s1) = Some (n', ss')" "list_all2 (fed_slave t) (slaves s1) ss'"
    using feed_slaves_spec [OF g] s(2) fed_frame(3) [OF s1(2)] by metis
  then show ?thesis using s1 fed_frame [OF s1(2)]
    by (simp add: to_slaves_def streamed_def fed_def backlog_ok_def backlog_data_def)
qed

definition stream_text :: "repl \<Rightarrow> int \<Rightarrow> robj list \<Rightarrow> bytes" where
  "stream_text s dictid args =
     (if slaveseldb s \<noteq> dictid then cmd_text [Str_obj (str ''SELECT''), Str_obj (dec_int dictid)] else []) @ cmd_text args"

lemma send_select_streams:
  assumes s: "backlog_ok s" "- (2 ^ 31) \<le> dictid" "dictid < 2 ^ 31"
  defines "t \<equiv> if slaveseldb s \<noteq> dictid then cmd_text [Str_obj (str ''SELECT''), Str_obj (dec_int dictid)] else []"
  assumes can: "list_all (can_feed t) (slaves s)"
  shows "\<exists>s1. send_select junk dictid s = Some s1 \<and> streamed s t s1"
proof (cases "slaveseldb s = dictid")
  case True
  then show ?thesis using s(1) list_all2_fed_Nil can
    by (simp add: send_select_def t_def streamed_def last_n_def backlog_ok_def)
next
  case False
  have "repl_backlog s \<noteq> None" using s(1) by (auto simp: backlog_ok_def)
  then show ?thesis
    using streamed_step [OF s(1) can feeds_object [of junk "Str_obj t", simplified] emits_addReply [of _ junk "Str_obj t", simplified]] False
      select_cmd_spec [OF s(2,3)] by (auto simp: send_select_def t_def)
qed

subsection \<open>Serving the backlog\<close>

lemma backlog_data_rotate:
  assumes "repl_backlog s = Some b" "length b = repl_backlog_size s" "repl_backlog_histlen s \<le> length b" "k \<le> repl_backlog_histlen s"
  shows "drop k (backlog_data s) = take (repl_backlog_histlen s - k) (rotate (repl_backlog_idx s + length b - repl_backlog_histlen s + k) b)"
proof (rule nth_equalityI)
  let ?h = "repl_backlog_histlen s" and ?i = "repl_backlog_idx s" and ?N = "length b"
  show "length (drop k (backlog_data s)) = length (take (?h - k) (rotate (?i + ?N - ?h + k) b))" using assms by simp
  fix i assume "i < length (drop k (backlog_data s))"
  then have i: "k + i < ?h" by simp
  then have "backlog_data s ! (k + i) = b ! ((?i + ?N - 1 - (?h - Suc (k + i))) mod ?N)"
    using assms(1) by (simp add: backlog_data_def rev_nth ring_def)
  moreover have "?i + ?N - 1 - (?h - Suc (k + i)) = ?i + ?N - ?h + k + i" using i assms(3) by simp
  ultimately show "drop k (backlog_data s) ! i = take (?h - k) (rotate (?i + ?N - ?h + k) b) ! i"
    using i assms(3) by (simp add: nth_rotate)
qed

lemma emits_backlog_loop:
  assumes "j < length b" "len \<le> length b"
  shows "cl.emits x (backlog_loop b (int (length b)) (int j) (int len)) (take len (rotate j b))"
proof -
  have z: "backlog_loop b N 0 0 = Some" for N by (rule ext) (simp add: backlog_loop.simps)
  have eq: "backlog_loop b (int (length b)) (int j) (int len) = (\<lambda>nc. addReplySds nc (take len (drop j b)) \<bind> Some)"
    if "0 < len" "j + len \<le> length b" for j len :: nat
    using that by (auto simp: fun_eq_iff backlog_loop.simps [of b _ "int j" "int len"] z rdn_def Let_def)
  have one: "cl.emits x (backlog_loop b (int (length b)) (int j) (int len)) (take len (drop j b))" if "0 < len" "j + len \<le> length b" for j len :: nat
    using cl.emits_bind [OF emits_addReplySds [of x "take len (drop j b)"] emits_nothing] by (simp add: eq [OF that])
  have rot: "rotate j b = drop j b @ take j b" using assms(1) by (simp add: rotate_drop_take)
  consider "len = 0" | "0 < len" "j + len \<le> length b" | "length b < j + len" by linarith
  then show ?thesis
  proof cases
    case 1
    then show ?thesis using emits_nothing by (simp add: backlog_loop.simps [abs_def])
  next
    case 2
    then show ?thesis using one [of len j] by (simp add: rot)
  next
    case 3
    let ?r = "len - (length b - j)"
    have r: "0 < ?r" "?r \<le> length b" using 3 assms by simp_all
    have "backlog_loop b (int (length b)) (int j) (int len) nc =
        addReplySds nc (drop j b) \<bind> backlog_loop b (int (length b)) (int 0) (int ?r)" for nc
      using 3 assms by (subst backlog_loop.simps) (auto simp: rdn_def Let_def of_nat_diff nat_diff_distrib algebra_simps)
    then have "backlog_loop b (int (length b)) (int j) (int len) = (\<lambda>nc. addReplySds nc (drop j b) \<bind> backlog_loop b (int (length b)) (int 0) (int ?r))"
      by (rule ext)
    then show ?thesis
      using cl.emits_bind [OF emits_addReplySds [of x "drop j b"] one [of ?r 0]] r 3 assms by (simp add: rot min_absorb1)
  qed
qed

lemma backlog_served:
  assumes "backlog_ok s" "repl_backlog_off s \<le> offset" "offset \<le> repl_backlog_off s + int (repl_backlog_histlen s)"
    and "accepting x nc" "length (out_queue nc) + length (drop (nat (offset - repl_backlog_off s)) (backlog_data s)) \<le> out_max"
  shows "\<exists>k nc'. addReplyReplicationBacklog s offset nc = Some (k, nc') \<and> accepting x nc' \<and>
    out_queue nc' = out_queue nc @ drop (nat (offset - repl_backlog_off s)) (backlog_data s)"
proof (cases "repl_backlog_histlen s = 0")
  case True
  then have "backlog_data s = []" by (metis length_backlog_data length_0_conv)
  then show ?thesis using True assms(4) by (simp add: addReplyReplicationBacklog_def)
next
  case False
  obtain b where b: "repl_backlog s = Some b" "length b = repl_backlog_size s" "repl_backlog_idx s < length b"
    "repl_backlog_histlen s \<le> length b" using assms(1) by (auto simp: backlog_ok_def)
  let ?N = "length b" and ?h = "repl_backlog_histlen s" and ?i = "repl_backlog_idx s"
  obtain k where k: "offset - repl_backlog_off s = int k" "k \<le> ?h" using assms(2,3) by (metis diff_ge_0_iff_ge diff_le_eq add.commute nonneg_int_cases of_nat_le_iff)
  let ?j = "(?i + ?N - ?h + k) mod ?N"
  have "(int ?i + (int ?N - int ?h)) mod int ?N + int k \<ge> 0" using b by (simp add: add_nonneg_nonneg)
  moreover have "((int ?i + (int ?N - int ?h)) mod int ?N + int k) mod int ?N = int ?j"
    using b(4) by (simp add: mod_simps of_nat_mod of_nat_diff algebra_simps)
  ultimately have "addReplyReplicationBacklog s offset nc =
      do { nc \<leftarrow> backlog_loop b (int ?N) (int ?j) (int (?h - k)) nc; Some (int ?h - int k, nc) }"
    using False b(1,2) k by (simp add: addReplyReplicationBacklog_def Let_def of_nat_diff)
  moreover have "take (?h - k) (rotate ?j b) = drop k (backlog_data s)"
    using backlog_data_rotate [OF b(1,2,4) k(2)] by (simp add: rotate_conv_mod [symmetric])
  moreover have "?j < ?N" "?h - k \<le> ?N" using b by simp_all
  ultimately show ?thesis
    using cl.emitsD [OF emits_backlog_loop [of ?j b "?h - k" x], of nc] assms(4,5) k(1) by auto
qed

definition as_slave :: "repl \<Rightarrow> client \<Rightarrow> client" where
  "as_slave s c = c\<lparr>flags := flags c OR CLIENT_SLAVE, replstate := SLAVE_STATE_ONLINE,
     repl_ack_time := unixtime (rnet s), repl_put_online_on_ack := False\<rparr>"

lemma and_or_zero: "p AND f = 0 \<Longrightarrow> (w OR p) AND f = w AND (f :: 'a :: len word)"
  by (auto simp: bit_eq_iff bit_simps)

lemma as_slave_facts:
  "client_ok (as_slave s c) = client_ok c" "accepts (as_slave s c) = accepts c" "queue (as_slave s c) = queue c"
  "slave_capa (as_slave s c) = slave_capa c" "replstate (as_slave s c) = SLAVE_STATE_ONLINE"
proof -
  have h: "has (as_slave s c) fl = has c fl" if "CLIENT_SLAVE AND fl = 0" for fl
    using and_or_zero [OF that, of "flags c"] by (simp add: has_def as_slave_def)
  show "accepts (as_slave s c) = accepts c"
    by (simp add: accepts_def writable_def h) (simp add: as_slave_def)
qed (simp_all add: as_slave_def client_ok_def sent_ok_def queue_def split: list.split option.split)

lemma psync_eq:
  assumes "argv c = [cmd, Str_obj rid, Str_obj (dec_int off)]" "- (2 ^ 63) \<le> off" "off < 2 ^ 63"
  shows "masterTryPartialResynchronization write_res s c =
    (if \<not> same_replid rid (replid s) \<and> (\<not> same_replid rid (replid2 s) \<or> off > second_replid_offset s)
     then Some (False, [], s, c)
     else if repl_backlog s = None \<or> off < repl_backlog_off s \<or> off > repl_backlog_off s + int (repl_backlog_histlen s)
     then Some (False, [], s, c)
     else if write_res \<noteq> int (length (continue_line s (as_slave s c))) then
       (let (n, c') = freeClientAsync (rnet s, as_slave s c)
        in Some (True, take (nat write_res) (continue_line s (as_slave s c)), s\<lparr>rnet := n, slaves := slaves s @ [c']\<rparr>, c'))
     else do {
       (psync_len, n, c') \<leftarrow> addReplyReplicationBacklog s off (rnet s, as_slave s c);
       Some (True, continue_line s (as_slave s c), refreshGoodSlavesCount (s\<lparr>rnet := n, slaves := slaves s @ [c']\<rparr>), c') })"
proof -
  have off: "sint (word_of_int off :: i64) = off"
    using assms(2,3) by (simp add: signed_of_int signed_take_bit_int_eq_self)
  then have "string2ll (dec_int off) = Some (word_of_int off)" by (simp add: string2ll_iff)
  then have "getLongLongFromObjectOrReply (rnet s, c) (Some (Str_obj (dec_int off))) None = Some (Some (word_of_int off), rnet s, c)"
    by (simp add: getLongLongFromObjectOrReply_def getLongLongFromObject_def)
  then show ?thesis using assms(1) off
    by (simp add: masterTryPartialResynchronization_def rd_def Let_def as_slave_def)
qed

text \<open>A write command reaches the backlog and every attached slave as the same bytes: preceded by the
  command that selects its database when that is not the one of the last command, then in the
  multi bulk format. Only slaves that wait for a snapshot to start are left out.\<close>

lemma feedSlaves_streams:
  assumes "backlog_ok s" "masterhost s = None" "- (2 ^ 31) \<le> dictid" "dictid < 2 ^ 31"
    and "list_all arg_fine args" "length args < 2 ^ 63" "list_all (can_feed (stream_text s dictid args)) (slaves s)"
  shows "\<exists>s'. replicationFeedSlaves junk dictid args s = Some s' \<and> streamed s (stream_text s dictid args) s' \<and> slaveseldb s' = dictid"
proof -
  let ?t = "if slaveseldb s \<noteq> dictid then cmd_text [Str_obj (str ''SELECT''), Str_obj (dec_int dictid)] else []"
  have can: "list_all (can_feed (?t @ cmd_text args)) (slaves s)" using assms(7) by (simp only: stream_text_def)
  obtain s1 where s1: "send_select junk dictid s = Some s1" "streamed s ?t s1"
    using send_select_streams [OF assms(1,3,4) list_all_feed_front [OF can]] by blast
  let ?s = "s1\<lparr>slaveseldb := dictid\<rparr>"
  have ok: "backlog_ok ?s" "repl_backlog ?s \<noteq> None" using s1(2) by (auto simp: streamed_def backlog_ok_def)
  have "list_all (can_feed (cmd_text args)) (slaves ?s)"
    using list_all_feed_next [OF can] s1(2) by (simp add: streamed_def)
  then obtain s2 where s2: "do { s \<leftarrow> feed_command junk args ?s; to_slaves (reply_command junk args) s } = Some s2"
      "streamed ?s (cmd_text args) s2" "slaveseldb s2 = dictid"
    using streamed_step [OF ok(1) _ feeds_command [OF assms(5,6)] emits_command [OF assms(5,6)]] by fastforce
  have "streamed s1 (cmd_text args) s2" using s2(2) by (simp add: streamed_def backlog_data_def)
  then have "streamed s (stream_text s dictid args) s2" using streamed_trans [OF s1(2)] by (simp only: stream_text_def)
  moreover have "replicationFeedSlaves junk dictid args s = Some s2"
    using s1(1) s2(1) ok(2) assms(1,2) by (auto simp: replicationFeedSlaves_def Let_def backlog_ok_def)
  ultimately show ?thesis using s2(3) by blast
qed

text \<open>A sequence of write commands, each with its database; and the commands of the stream, with those that
  select a database.\<close>

fun propagate :: "(nat \<Rightarrow> u8) \<Rightarrow> (int \<times> robj list) list \<Rightarrow> repl \<Rightarrow> repl option" where
  "propagate junk [] s = Some s"
| "propagate junk ((dictid, args) # cs) s = do { s \<leftarrow> replicationFeedSlaves junk dictid args s; propagate junk cs s }"

fun stream_cmds :: "int \<Rightarrow> (int \<times> robj list) list \<Rightarrow> robj list list" where
  "stream_cmds sel [] = []"
| "stream_cmds sel ((dictid, args) # cs) =
     (if sel \<noteq> dictid then [[Str_obj (str ''SELECT''), Str_obj (dec_int dictid)]] else []) @ args # stream_cmds dictid cs"

definition write_fine :: "int \<times> robj list \<Rightarrow> bool" where
  "write_fine w \<longleftrightarrow> - (2 ^ 31) \<le> fst w \<and> fst w < 2 ^ 31 \<and> list_all arg_fine (snd w) \<and> length (snd w) < 2 ^ 63"

lemma propagate_streams:
  assumes "backlog_ok s" "masterhost s = None" "list_all write_fine cs"
    "list_all (can_feed (concat (map cmd_text (stream_cmds (slaveseldb s) cs)))) (slaves s)"
  shows "\<exists>s'. propagate junk cs s = Some s' \<and> streamed s (concat (map cmd_text (stream_cmds (slaveseldb s) cs))) s'"
  using assms
proof (induction cs arbitrary: s)
  case Nil
  then show ?case using list_all2_fed_Nil by (simp add: streamed_def last_n_def backlog_ok_def)
next
  case (Cons w cs)
  obtain dictid args where w: "w = (dictid, args)" by force
  let ?t = "stream_text s dictid args" and ?u = "concat (map cmd_text (stream_cmds dictid cs))"
  have t: "concat (map cmd_text (stream_cmds (slaveseldb s) (w # cs))) = ?t @ ?u" by (simp add: w stream_text_def)
  have can: "list_all (can_feed (?t @ ?u)) (slaves s)" using Cons.prems(4) t by simp
  obtain s1 where s1: "replicationFeedSlaves junk dictid args s = Some s1" "streamed s ?t s1" "slaveseldb s1 = dictid"
    using feedSlaves_streams [OF Cons.prems(1,2), of dictid args junk] list_all_feed_front [OF can] Cons.prems(3) by (auto simp: w write_fine_def)
  have "backlog_ok s1" "masterhost s1 = None" "list_all (can_feed ?u) (slaves s1)"
    using s1(2) Cons.prems(2) list_all_feed_next [OF can] by (simp_all add: streamed_def)
  then obtain s2 where "propagate junk cs s1 = Some s2" "streamed s1 ?u s2" using Cons.IH [of s1] s1(3) Cons.prems(3) by auto
  then show ?case using s1(1) streamed_trans [OF s1(2)] unfolding t by (simp add: w)
qed

text \<open>C39: A slave that received the stream up to some offset, lost its link and comes back gets exactly
  what it missed. When the bytes \<open>p\<close> of the stream were produced in the meantime and it asks with
  the replication id of the master for the offset that follows what it has, it is attached again
  with \<open>p\<close>, no more and no less, queued for it whenever \<open>p\<close> fits in the backlog, wherever the
  circular buffer wraps; when \<open>p\<close> does not fit, or the id is not that of the master, the request
  is refused and nothing changes.\<close>
theorem psync_resumes_stream:
  assumes "backlog_ok s" "feedReplicationBacklog p s = Some s'" "client_ok c" "accepts c"
    and "argv c = [cmd, Str_obj rid, Str_obj (dec_int (master_repl_offset s + 1))]"
    and "0 \<le> master_repl_offset s" "master_repl_offset s + 1 < 2 ^ 63" "length (queue c) + length p \<le> out_max"
    and "write_res = int (length (continue_line s' c))"
  shows "(same_replid rid (replid s) \<and> length p \<le> repl_backlog_size s \<longrightarrow>
      (\<exists>s'' c'. masterTryPartialResynchronization write_res s' c = Some (True, continue_line s' c, s'', c') \<and>
         slaves s'' = slaves s' @ [c'] \<and> queue c' = queue c @ p \<and> replstate c' = SLAVE_STATE_ONLINE)) \<and>
    (length p > repl_backlog_size s \<or> \<not> same_replid rid (replid s) \<and> \<not> same_replid rid (replid2 s') \<longrightarrow>
      masterTryPartialResynchronization write_res s' c = Some (False, [], s', c))"
proof -
  have f: "fed s p s'" using feeds_backlog [of p] assms(1,2) by (auto simp: feeds_def)
  let ?N = "repl_backlog_size s" and ?o = "master_repl_offset s + 1"
  have h: "repl_backlog_histlen s' = min ?N (repl_backlog_histlen s + length p)"
    using f length_backlog_data [of s'] length_backlog_data [of s] unfolding fed_def last_n_def by (simp del: length_backlog_data)
  have ok: "backlog_ok s'" "repl_backlog_off s' = master_repl_offset s + int (length p) - int (repl_backlog_histlen s') + 1"
    "repl_backlog s' \<noteq> None" using f by (auto simp: fed_def backlog_ok_def)
  have cl: "continue_line s' (as_slave s' c) = continue_line s' c" by (simp add: continue_line_def as_slave_facts)
  have "- (2 ^ 63) \<le> ?o" using assms(6) by simp
  note eq = psync_eq [OF assms(5) this assms(7), of write_res s', unfolded cl]
  show ?thesis
  proof (intro conjI impI)
    assume p: "same_replid rid (replid s) \<and> length p \<le> ?N"
    then have "length p \<le> repl_backlog_histlen s'" using h by simp
    then have range: "repl_backlog_off s' \<le> ?o" "?o \<le> repl_backlog_off s' + int (repl_backlog_histlen s')"
        "nat (?o - repl_backlog_off s') = repl_backlog_histlen s' - length p"
      using ok(2) by simp_all
    have d: "drop (repl_backlog_histlen s' - length p) (backlog_data s') = p"
      using f p h by (auto simp: fed_def last_n_def)
    have acc: "accepting (frame (as_slave s' c), None) (rnet s', as_slave s' c)"
      using assms(3,4) by (simp add: accepting_def as_slave_facts)
    obtain k n' c' where a: "addReplyReplicationBacklog s' ?o (rnet s', as_slave s' c) = Some (k, n', c')"
      "accepting (frame (as_slave s' c), None) (n', c')" "queue c' = queue c @ p"
      using backlog_served [OF ok(1) range(1,2) acc] assms(8) by (auto simp: range(3) d as_slave_facts)
    have "replstate c' = SLAVE_STATE_ONLINE"
      using a(2) frame_replstate [of c' "as_slave s' c"] as_slave_facts(5) by (simp add: accepting_def)
    moreover have "masterTryPartialResynchronization write_res s' c =
        Some (True, continue_line s' c, refreshGoodSlavesCount (s'\<lparr>rnet := n', slaves := slaves s' @ [c']\<rparr>), c')"
      unfolding eq using a(1) p range(1,2) ok(3) fed_frame(6) [OF f] assms(9) by auto
    ultimately show "\<exists>s'' c'. masterTryPartialResynchronization write_res s' c = Some (True, continue_line s' c, s'', c') \<and>
         slaves s'' = slaves s' @ [c'] \<and> queue c' = queue c @ p \<and> replstate c' = SLAVE_STATE_ONLINE"
      using a(3) by (simp add: refreshGoodSlavesCount_def)
  next
    assume "length p > ?N \<or> \<not> same_replid rid (replid s) \<and> \<not> same_replid rid (replid2 s')"
    then have "?o < repl_backlog_off s' \<or> \<not> same_replid rid (replid s') \<and> \<not> same_replid rid (replid2 s')"
      using h ok(2) fed_frame(6) [OF f] by auto
    then show "masterTryPartialResynchronization write_res s' c = Some (False, [], s', c)"
      by (auto simp: eq)
  qed
qed

definition slave0 :: client where
  "slave0 = client0\<lparr>client_id := 2, flags := CLIENT_SLAVE, replstate := SLAVE_STATE_ONLINE\<rparr>"

definition master0 :: repl where
  "master0 = \<lparr>rnet = net0, repl_backlog = Some [97, 98, 99, 100, 101, 102, 103, 104], repl_backlog_size = 8, repl_backlog_histlen = 8,
     repl_backlog_idx = 6, repl_backlog_off = 93, master_repl_offset = 100, slaves = [slave0], slaveseldb = 0, masterhost = None,
     replid = str ''abcd'' @ [0], replid2 = str ''0000'' @ [0], second_replid_offset = - 1, repl_min_slaves_to_write = 0,
     repl_min_slaves_max_lag = 10, repl_good_slaves_count = 0\<rparr>"

lemma master0_ok: "backlog_ok master0"
  by (simp add: backlog_ok_def master0_def)

lemma slave0_ok: "client_ok slave0" "accepts slave0" "queue slave0 = []"
  by (simp_all add: client_ok_def slave0_def client0_def sent_ok_def out_max_def accepts_def writable_def has_def queue_def)

definition back0 :: client where
  "back0 = client0\<lparr>argv := [Str_obj (str ''PSYNC''), Str_obj (str ''ABCD''), Str_obj (dec_int 101)]\<rparr>"

lemma back0_ok: "client_ok back0" "accepts back0" "queue back0 = []"
  by (simp_all add: client_ok_def back0_def client0_def sent_ok_def out_max_def accepts_def writable_def has_def queue_def)

theorem psync_resumes_stream_witness:
  "\<exists>s' s'' c'. feedReplicationBacklog (str ''xyz'') master0 = Some s' \<and>
    masterTryPartialResynchronization 11 s' back0 = Some (True, continue_line s' back0, s'', c') \<and> queue c' = str ''xyz''"
proof -
  obtain s' where s': "feedReplicationBacklog (str ''xyz'') master0 = Some s'" "fed master0 (str ''xyz'') s'"
    using feeds_backlog [of "str ''xyz''"] master0_ok by (auto simp: feeds_def)
  have l: "int (length (continue_line s' back0)) = 11"
    by (simp add: continue_line_def back0_def client0_def str_def)
  have "argv back0 = [Str_obj (str ''PSYNC''), Str_obj (str ''ABCD''), Str_obj (dec_int (master_repl_offset master0 + 1))]"
    by (simp add: back0_def master0_def)
  from psync_resumes_stream [OF master0_ok s'(1) back0_ok(1,2) this, of 11] l
  show ?thesis using s'(1)
    by (auto simp: back0_ok master0_def out_max_def str_def same_replid_def cstring_def tolower_def)
qed

end
