(* ===== verification/Sds.thy ===== *)
theory Sds
  imports Util Str_Builder
begin

text \<open>
  Simple dynamic strings (\<open>src/sds.h\<close>, \<open>src/sds.c\<close>): a byte buffer behind a header of one of
  five widths. A string is its header type, the length and capacity fields, which wrap at the
  width of the header, and the bytes of the allocated block after the header. \<open>None\<close> is a
  read or write outside of that block, or a failed assertion. New memory holds arbitrary bytes,
  given by \<open>junk\<close>; allocation itself does not fail. Sizes are computed in 64 bits as in the code.
\<close>

subsection \<open>Header\<close>

datatype sds_type = SDS_TYPE_5 | SDS_TYPE_8 | SDS_TYPE_16 | SDS_TYPE_32 | SDS_TYPE_64

record sds =
  hdr_type :: sds_type
  hdr_len :: nat
  hdr_alloc :: nat
  hdr_buf :: bytes

definition SDS_MAX_PREALLOC :: nat where "SDS_MAX_PREALLOC = 1024 * 1024"

primrec type_bits :: "sds_type \<Rightarrow> nat" where
  "type_bits SDS_TYPE_5 = 5"
| "type_bits SDS_TYPE_8 = 8"
| "type_bits SDS_TYPE_16 = 16"
| "type_bits SDS_TYPE_32 = 32"
| "type_bits SDS_TYPE_64 = 64"

primrec sdsHdrSize :: "sds_type \<Rightarrow> nat" where
  "sdsHdrSize SDS_TYPE_5 = 1"
| "sdsHdrSize SDS_TYPE_8 = 3"
| "sdsHdrSize SDS_TYPE_16 = 5"
| "sdsHdrSize SDS_TYPE_32 = 9"
| "sdsHdrSize SDS_TYPE_64 = 17"

definition sdsReqType :: "nat \<Rightarrow> sds_type" where
  "sdsReqType string_size =
     (if string_size < 2 ^ 5 then SDS_TYPE_5
      else if string_size < 2 ^ 8 then SDS_TYPE_8
      else if string_size < 2 ^ 16 then SDS_TYPE_16
      else if string_size < 2 ^ 32 then SDS_TYPE_32
      else SDS_TYPE_64)"

definition sdslen :: "sds \<Rightarrow> nat" where
  "sdslen s = hdr_len s"

definition sdsavail :: "sds \<Rightarrow> nat" where
  "sdsavail s =
     (case hdr_type s of
        SDS_TYPE_5 \<Rightarrow> 0
      | SDS_TYPE_32 \<Rightarrow> nat ((int (hdr_alloc s) - int (hdr_len s)) mod 2 ^ 32)
      | _ \<Rightarrow> nat ((int (hdr_alloc s) - int (hdr_len s)) mod 2 ^ 64))"

definition sdssetlen :: "sds \<Rightarrow> nat \<Rightarrow> sds" where
  "sdssetlen s newlen = s\<lparr>hdr_len := newlen mod 2 ^ type_bits (hdr_type s)\<rparr>"

definition sdsinclen :: "sds \<Rightarrow> nat \<Rightarrow> sds" where
  "sdsinclen s inc = s\<lparr>hdr_len := (hdr_len s + inc) mod 2 ^ type_bits (hdr_type s)\<rparr>"

definition sdsalloc :: "sds \<Rightarrow> nat" where
  "sdsalloc s = (case hdr_type s of SDS_TYPE_5 \<Rightarrow> hdr_len s | _ \<Rightarrow> hdr_alloc s)"

definition sdssetalloc :: "sds \<Rightarrow> nat \<Rightarrow> sds" where
  "sdssetalloc s newlen =
     (case hdr_type s of
        SDS_TYPE_5 \<Rightarrow> s
      | _ \<Rightarrow> s\<lparr>hdr_alloc := newlen mod 2 ^ type_bits (hdr_type s)\<rparr>)"

text \<open>The bytes after the header in a block of \<open>hdrlen + n + 1\<close> bytes, a \<open>size_t\<close>.\<close>

definition buf_size :: "sds_type \<Rightarrow> nat \<Rightarrow> nat" where
  "buf_size ty n = (sdsHdrSize ty + n + 1) mod 2 ^ 64 - sdsHdrSize ty"

subsection \<open>Operations\<close>

definition sdsnewlen :: "(nat \<Rightarrow> u8) \<Rightarrow> bytes option \<Rightarrow> nat \<Rightarrow> sds option" where
  "sdsnewlen junk init initlen =
     (let ty = sdsReqType initlen;
          ty = (if ty = SDS_TYPE_5 \<and> initlen = 0 then SDS_TYPE_8 else ty);
          buf = map (if init = None then (\<lambda>_. 0) else junk) [0 ..< buf_size ty initlen];
          s = \<lparr>hdr_type = ty, hdr_len = 0, hdr_alloc = 0, hdr_buf = buf\<rparr>;
          s = sdssetalloc (sdssetlen s initlen) initlen
      in do {
        buf \<leftarrow> (case init of
                  None \<Rightarrow> Some buf
                | Some t \<Rightarrow> if initlen = 0 then Some buf else do { bs \<leftarrow> rdn t 0 initlen; wrn buf 0 bs });
        buf \<leftarrow> wr buf (int initlen) 0;
        Some (s\<lparr>hdr_buf := buf\<rparr>) })"

definition sdsempty :: "(nat \<Rightarrow> u8) \<Rightarrow> sds option" where
  "sdsempty junk = sdsnewlen junk (Some []) 0"

definition sdsnew :: "(nat \<Rightarrow> u8) \<Rightarrow> bytes option \<Rightarrow> sds option" where
  "sdsnew junk init =
     sdsnewlen junk (map_option cstring init) (case init of None \<Rightarrow> 0 | Some t \<Rightarrow> length (cstring t))"

definition sdsdup :: "(nat \<Rightarrow> u8) \<Rightarrow> sds \<Rightarrow> sds option" where
  "sdsdup junk s = sdsnewlen junk (Some (hdr_buf s)) (sdslen s)"

definition sdsupdatelen :: "sds \<Rightarrow> sds option" where
  "sdsupdatelen s =
     (if 0 \<in> set (hdr_buf s)
      then Some (sdssetlen s (nat (signed_take_bit 31 (int (length (cstring (hdr_buf s)))) mod 2 ^ 64)))
      else None)"

definition sdsclear :: "sds \<Rightarrow> sds option" where
  "sdsclear s = do {
     let s = sdssetlen s 0;
     buf \<leftarrow> wr (hdr_buf s) 0 0;
     Some (s\<lparr>hdr_buf := buf\<rparr>) }"

definition sdsMakeRoomFor :: "(nat \<Rightarrow> u8) \<Rightarrow> sds \<Rightarrow> nat \<Rightarrow> sds option" where
  "sdsMakeRoomFor junk s addlen =
     (if sdsavail s \<ge> addlen then Some s
      else
        let len = sdslen s;
            newlen = (len + addlen) mod 2 ^ 64;
            newlen = (if newlen < SDS_MAX_PREALLOC then newlen * 2 else (newlen + SDS_MAX_PREALLOC) mod 2 ^ 64);
            ty = sdsReqType newlen;
            ty = (if ty = SDS_TYPE_5 then SDS_TYPE_8 else ty);
            size = buf_size ty newlen
        in if hdr_type s = ty
           then Some (sdssetalloc (s\<lparr>hdr_buf := realloc junk (hdr_buf s) size\<rparr>) newlen)
           else do {
             bs \<leftarrow> rdn (hdr_buf s) 0 (len + 1);
             buf \<leftarrow> wrn (map junk [0 ..< size]) 0 bs;
             let s = \<lparr>hdr_type = ty, hdr_len = 0, hdr_alloc = 0, hdr_buf = buf\<rparr>;
             Some (sdssetalloc (sdssetlen s len) newlen) })"

fun type_number :: "sds_type \<Rightarrow> nat" where
  "type_number SDS_TYPE_5 = 0"
| "type_number SDS_TYPE_8 = 1"
| "type_number SDS_TYPE_16 = 2"
| "type_number SDS_TYPE_32 = 3"
| "type_number SDS_TYPE_64 = 4"

definition sdsRemoveFreeSpace :: "(nat \<Rightarrow> u8) \<Rightarrow> sds \<Rightarrow> sds option" where
  "sdsRemoveFreeSpace junk s =
     (let len = sdslen s;
          ty = sdsReqType len
      in if hdr_type s = ty \<or> type_number ty > type_number SDS_TYPE_8
         then Some (sdssetalloc (s\<lparr>hdr_buf := realloc junk (hdr_buf s) (buf_size (hdr_type s) len)\<rparr>) len)
         else do {
           bs \<leftarrow> rdn (hdr_buf s) 0 (len + 1);
           buf \<leftarrow> wrn (map junk [0 ..< buf_size ty len]) 0 bs;
           let s = \<lparr>hdr_type = ty, hdr_len = 0, hdr_alloc = 0, hdr_buf = buf\<rparr>;
           Some (sdssetalloc (sdssetlen s len) len) })"

definition sdsAllocSize :: "sds \<Rightarrow> nat" where
  "sdsAllocSize s = (sdsHdrSize (hdr_type s) + sdsalloc s + 1) mod 2 ^ 64"

definition incr_ok :: "sds \<Rightarrow> int \<Rightarrow> bool" where
  "incr_ok s incr =
     (case hdr_type s of
        SDS_TYPE_5 \<Rightarrow> incr > 0 \<and> int (hdr_len s) + incr < 32 \<or> incr < 0 \<and> int (hdr_len s) \<ge> - incr
      | _ \<Rightarrow> incr \<ge> 0 \<and> int (sdsavail s) \<ge> incr \<or> incr < 0 \<and> int (hdr_len s) \<ge> - incr)"

definition sdsIncrLen :: "sds \<Rightarrow> int \<Rightarrow> sds option" where
  "sdsIncrLen s incr =
     (if \<not> incr_ok s incr then None
      else do {
        let len = nat ((int (hdr_len s) + incr) mod 2 ^ type_bits (hdr_type s));
        buf \<leftarrow> wr (hdr_buf s) (int len) 0;
        Some (s\<lparr>hdr_len := len, hdr_buf := buf\<rparr>) })"

definition sdsgrowzero :: "(nat \<Rightarrow> u8) \<Rightarrow> sds \<Rightarrow> nat \<Rightarrow> sds option" where
  "sdsgrowzero junk s len =
     (let curlen = sdslen s in
      if len \<le> curlen then Some s
      else do {
        s \<leftarrow> sdsMakeRoomFor junk s (len - curlen);
        buf \<leftarrow> wrn (hdr_buf s) curlen (replicate (len - curlen + 1) 0);
        Some (sdssetlen (s\<lparr>hdr_buf := buf\<rparr>) len) })"

definition sdscatlen :: "(nat \<Rightarrow> u8) \<Rightarrow> sds \<Rightarrow> bytes \<Rightarrow> sds option" where
  "sdscatlen junk s t = do {
     let curlen = sdslen s;
     s \<leftarrow> sdsMakeRoomFor junk s (length t);
     buf \<leftarrow> wrn (hdr_buf s) curlen t;
     let s = sdssetlen (s\<lparr>hdr_buf := buf\<rparr>) (curlen + length t);
     buf \<leftarrow> wr (hdr_buf s) (int (curlen + length t)) 0;
     Some (s\<lparr>hdr_buf := buf\<rparr>) }"

definition sdscat :: "(nat \<Rightarrow> u8) \<Rightarrow> sds \<Rightarrow> bytes \<Rightarrow> sds option" where
  "sdscat junk s t = sdscatlen junk s (cstring t)"

definition sdscatsds :: "(nat \<Rightarrow> u8) \<Rightarrow> sds \<Rightarrow> sds \<Rightarrow> sds option" where
  "sdscatsds junk s t = do { bs \<leftarrow> rdn (hdr_buf t) 0 (sdslen t); sdscatlen junk s bs }"

definition sdscpylen :: "(nat \<Rightarrow> u8) \<Rightarrow> sds \<Rightarrow> bytes \<Rightarrow> sds option" where
  "sdscpylen junk s t = do {
     let len = length t;
     s \<leftarrow> (if sdsalloc s < len then sdsMakeRoomFor junk s (len - sdslen s) else Some s);
     buf \<leftarrow> wrn (hdr_buf s) 0 t;
     buf \<leftarrow> wr buf (int len) 0;
     Some (sdssetlen (s\<lparr>hdr_buf := buf\<rparr>) len) }"

definition sdscpy :: "(nat \<Rightarrow> u8) \<Rightarrow> sds \<Rightarrow> bytes \<Rightarrow> sds option" where
  "sdscpy junk s t = sdscpylen junk s (cstring t)"

text \<open>\<open>while(sp <= end && strchr(cset, *sp)) sp++\<close>; \<open>strchr\<close> finds the terminator too.\<close>

definition in_cset :: "bytes \<Rightarrow> u8 \<Rightarrow> bool" where
  "in_cset cset c \<longleftrightarrow> c = 0 \<or> c \<in> set (cstring cset)"

function trim_left :: "bytes \<Rightarrow> bytes \<Rightarrow> int \<Rightarrow> int \<Rightarrow> int option" where
  "trim_left cset buf sp e =
     (if sp \<le> e then do {
        c \<leftarrow> rd buf sp;
        if in_cset cset c then trim_left cset buf (sp + 1) e else Some sp }
      else Some sp)"
  by pat_completeness auto
termination by (relation "measure (\<lambda>(cset, buf, sp, e). nat (e + 1 - sp))") auto

function trim_right :: "bytes \<Rightarrow> bytes \<Rightarrow> int \<Rightarrow> int \<Rightarrow> int option" where
  "trim_right cset buf sp ep =
     (if ep > sp then do {
        c \<leftarrow> rd buf ep;
        if in_cset cset c then trim_right cset buf sp (ep - 1) else Some ep }
      else Some ep)"
  by pat_completeness auto
termination by (relation "measure (\<lambda>(cset, buf, sp, ep). nat (ep - sp))") auto

declare trim_left.simps [simp del] trim_right.simps [simp del]

definition sdstrim :: "sds \<Rightarrow> bytes \<Rightarrow> sds option" where
  "sdstrim s cset = do {
     let ep = int (sdslen s) - 1;
     sp \<leftarrow> trim_left cset (hdr_buf s) 0 ep;
     ep \<leftarrow> trim_right cset (hdr_buf s) sp ep;
     let len = (if sp > ep then 0 else nat (ep - sp + 1));
     buf \<leftarrow> (if sp \<noteq> 0 then memmove (hdr_buf s) 0 (nat sp) len else Some (hdr_buf s));
     buf \<leftarrow> wr buf (int len) 0;
     Some (sdssetlen (s\<lparr>hdr_buf := buf\<rparr>) len) }"

text \<open>The indexes are \<open>int\<close>: a sum with the length is truncated to 32 bits.\<close>

definition sdsrange :: "sds \<Rightarrow> int \<Rightarrow> int \<Rightarrow> sds option" where
  "sdsrange s start stop =
     (let len = int (sdslen s) in
      if len = 0 then Some s
      else
        let start = (if start < 0 then max 0 (signed_take_bit 31 (len + start)) else start);
            stop = (if stop < 0 then max 0 (signed_take_bit 31 (len + stop)) else stop);
            newlen = (if start > stop then 0 else stop - start + 1);
            slen = signed_take_bit 31 len;
            (start, newlen) =
              (if newlen \<noteq> 0 then
                 if start \<ge> slen then (start, 0)
                 else if stop \<ge> slen then
                   let stop = slen - 1 in (start, if start > stop then 0 else stop - start + 1)
                 else (start, newlen)
               else (0, newlen))
        in do {
          buf \<leftarrow> (if start \<noteq> 0 \<and> newlen \<noteq> 0 then memmove (hdr_buf s) 0 (nat start) (nat newlen) else Some (hdr_buf s));
          buf \<leftarrow> wr buf newlen 0;
          Some (sdssetlen (s\<lparr>hdr_buf := buf\<rparr>) (nat newlen)) })"

definition toupper :: "u8 \<Rightarrow> u8" where
  "toupper c = (if 97 \<le> c \<and> c \<le> 122 then c - 32 else c)"

fun map_loop :: "(u8 \<Rightarrow> u8 option) \<Rightarrow> bytes \<Rightarrow> nat \<Rightarrow> nat \<Rightarrow> bytes option" where
  "map_loop f buf j 0 = Some buf"
| "map_loop f buf j (Suc n) = do {
     c \<leftarrow> rd buf (int j);
     d \<leftarrow> f c;
     buf \<leftarrow> wr buf (int j) d;
     map_loop f buf (j + 1) n }"

definition sdstolower :: "sds \<Rightarrow> sds option" where
  "sdstolower s = do {
     buf \<leftarrow> map_loop (\<lambda>c. Some (tolower c)) (hdr_buf s) 0 (nat (signed_take_bit 31 (int (sdslen s))));
     Some (s\<lparr>hdr_buf := buf\<rparr>) }"

definition sdstoupper :: "sds \<Rightarrow> sds option" where
  "sdstoupper s = do {
     buf \<leftarrow> map_loop (\<lambda>c. Some (toupper c)) (hdr_buf s) 0 (nat (signed_take_bit 31 (int (sdslen s))));
     Some (s\<lparr>hdr_buf := buf\<rparr>) }"

text \<open>The inner loop of \<open>sdsmapchars\<close>: the first \<open>i\<close> with \<open>from[i] = c\<close>.\<close>

fun map_char :: "bytes \<Rightarrow> bytes \<Rightarrow> nat \<Rightarrow> nat \<Rightarrow> u8 \<Rightarrow> u8 option" where
  "map_char from to i 0 c = Some c"
| "map_char from to i (Suc n) c = do {
     d \<leftarrow> rd from (int i);
     if c = d then rd to (int i) else map_char from to (i + 1) n c }"

definition sdsmapchars :: "sds \<Rightarrow> bytes \<Rightarrow> bytes \<Rightarrow> nat \<Rightarrow> sds option" where
  "sdsmapchars s from to setlen = do {
     buf \<leftarrow> map_loop (map_char from to 0 setlen) (hdr_buf s) 0 (sdslen s);
     Some (s\<lparr>hdr_buf := buf\<rparr>) }"

text \<open>\<open>memcmp\<close> of two blocks of the same size: the sign of the first difference.\<close>

fun memcmp :: "bytes \<Rightarrow> bytes \<Rightarrow> int" where
  "memcmp (x # xs) (y # ys) = (if x = y then memcmp xs ys else if x < y then - 1 else 1)"
| "memcmp _ _ = 0"

definition sdscmp :: "sds \<Rightarrow> sds \<Rightarrow> int option" where
  "sdscmp s1 s2 = do {
     let l1 = sdslen s1;
     let l2 = sdslen s2;
     let minlen = min l1 l2;
     a \<leftarrow> rdn (hdr_buf s1) 0 minlen;
     b \<leftarrow> rdn (hdr_buf s2) 0 minlen;
     let cmp = memcmp a b;
     Some (if cmp = 0 then signed_take_bit 31 (int l1 - int l2) else cmp) }"

subsection \<open>Well-formed strings\<close>

text \<open>The length fits the capacity, the capacity fits the header and the block, and a NUL byte follows
  the contents. While a string is written to, \<open>sds_open\<close>, the NUL byte may be missing.\<close>

definition sds_open :: "sds \<Rightarrow> bool" where
  "sds_open s \<longleftrightarrow> hdr_len s \<le> sdsalloc s \<and> sdsalloc s < 2 ^ type_bits (hdr_type s) \<and>
     sdsalloc s < length (hdr_buf s)"

definition sds_ok :: "sds \<Rightarrow> bool" where
  "sds_ok s \<longleftrightarrow> hdr_len s \<le> sdsalloc s \<and> sdsalloc s < 2 ^ type_bits (hdr_type s) \<and>
     sdsalloc s < length (hdr_buf s) \<and> hdr_buf s ! hdr_len s = 0"

definition sds_str :: "sds \<Rightarrow> bytes" where
  "sds_str s = take (hdr_len s) (hdr_buf s)"

text \<open>The largest string that the operations handle without a size computation wrapping around.\<close>

definition sds_max :: nat where
  "sds_max = 2 ^ 64 - SDS_MAX_PREALLOC - 32"

lemma sds_ok_open: "sds_ok s \<longleftrightarrow> sds_open s \<and> hdr_buf s ! hdr_len s = 0"
  by (auto simp: sds_ok_def sds_open_def)

lemma sds_okD:
  assumes "sds_ok s"
  shows "hdr_len s < length (hdr_buf s)" "length (sds_str s) = hdr_len s" "hdr_len s < 2 ^ type_bits (hdr_type s)"
  using assms by (auto simp: sds_ok_def sds_str_def)

lemma sdsReqType_fits: "n < 2 ^ 64 \<Longrightarrow> n < 2 ^ type_bits (sdsReqType n)"
  by (auto simp: sdsReqType_def)

lemma sdsHdrSize_le: "sdsHdrSize ty \<le> 17"
  by (cases ty) simp_all

lemma type_bits_le: "type_bits ty \<le> 64" "(2 :: nat) ^ type_bits ty \<le> 2 ^ 64"
  by (cases ty; simp)+

lemma buf_size_eq: "n + 18 < 2 ^ 64 \<Longrightarrow> buf_size ty n = n + 1"
  using sdsHdrSize_le [of ty] by (simp add: buf_size_def)

lemma nat_diff_mod: "a \<le> b \<Longrightarrow> b < m \<Longrightarrow> nat ((int b - int a) mod int m) = b - a"
  by (simp flip: of_nat_diff of_nat_mod)

lemma sdsavail_open: "sds_open s \<Longrightarrow> sdsavail s = sdsalloc s - hdr_len s"
  using nat_diff_mod [of "hdr_len s" "hdr_alloc s" "2 ^ 64"] nat_diff_mod [of "hdr_len s" "hdr_alloc s" "2 ^ 32"]
  by (cases "hdr_type s") (simp_all add: sdsavail_def sds_open_def sdsalloc_def)

lemma sdsavail_eq: "sds_ok s \<Longrightarrow> sdsavail s = sdsalloc s - hdr_len s"
  by (simp add: sdsavail_open sds_ok_open)

lemma setters [simp]:
  "hdr_type (sdssetlen s n) = hdr_type s" "hdr_buf (sdssetlen s n) = hdr_buf s" "hdr_alloc (sdssetlen s n) = hdr_alloc s"
  "hdr_type (sdssetalloc s n) = hdr_type s" "hdr_buf (sdssetalloc s n) = hdr_buf s" "hdr_len (sdssetalloc s n) = hdr_len s"
  "n < 2 ^ type_bits (hdr_type s) \<Longrightarrow> hdr_len (sdssetlen s n) = n"
  by (simp_all add: sdssetlen_def sdssetalloc_def split: sds_type.splits)

lemma sdsalloc_setalloc [simp]:
  "hdr_type s \<noteq> SDS_TYPE_5 \<Longrightarrow> n < 2 ^ type_bits (hdr_type s) \<Longrightarrow> sdsalloc (sdssetalloc s n) = n"
  by (cases "hdr_type s") (simp_all add: sdssetalloc_def sdsalloc_def)

lemma sdsalloc_upd [simp]:
  "sdsalloc (s\<lparr>hdr_buf := b\<rparr>) = sdsalloc s"
  "hdr_type s \<noteq> SDS_TYPE_5 \<Longrightarrow> sdsalloc (sdssetlen s n) = sdsalloc s"
  "hdr_type s = SDS_TYPE_5 \<Longrightarrow> sdsalloc s = hdr_len s"
  by (cases "hdr_type s"; simp add: sdssetlen_def sdsalloc_def)+

text \<open>How the operations finish: new contents, their length and a terminator at the end.\<close>

lemma sds_okI:
  assumes "sdsalloc s' < 2 ^ type_bits (hdr_type s')" "sdsalloc s' < length (hdr_buf s')" "hdr_len s' \<le> sdsalloc s'"
    "take (length t + 1) (hdr_buf s') = t @ [0]" "hdr_len s' = length t"
  shows "sds_ok s' \<and> sds_str s' = t"
proof -
  have "hdr_buf s' ! length t = (t @ [0]) ! length t" unfolding assms(4) [symmetric] by simp
  moreover have "take (length t) (hdr_buf s') = take (length t) (t @ [0])" unfolding assms(4) [symmetric] by simp
  ultimately show ?thesis using assms by (simp add: sds_ok_def sds_str_def)
qed

lemma sds_terminated: "sds_ok s \<Longrightarrow> take (hdr_len s + 1) (hdr_buf s) = sds_str s @ [0]"
  by (auto simp: sds_ok_def sds_str_def take_Suc_conv_app_nth)

lemma take_upd_last: "n < length b \<Longrightarrow> take (n + 1) (b[n := x]) = take n b @ [x]"
  by (simp add: take_Suc_conv_app_nth)

lemma setlen_buf [simp]: "(sdssetlen (s\<lparr>hdr_buf := a\<rparr>) n)\<lparr>hdr_buf := b\<rparr> = sdssetlen (s\<lparr>hdr_buf := b\<rparr>) n"
  "(sdssetlen s n)\<lparr>hdr_buf := b\<rparr> = sdssetlen (s\<lparr>hdr_buf := b\<rparr>) n"
  by (simp_all add: sdssetlen_def)

lemma sds_finish:
  assumes "sds_ok s" "length t \<le> sdsalloc s" "length buf = length (hdr_buf s)" "take (length t + 1) buf = t @ [0]"
  shows "sds_ok (sdssetlen (s\<lparr>hdr_buf := buf\<rparr>) (length t)) \<and> sds_str (sdssetlen (s\<lparr>hdr_buf := buf\<rparr>) (length t)) = t"
proof (rule sds_okI)
  let ?s = "sdssetlen (s\<lparr>hdr_buf := buf\<rparr>) (length t)"
  have lt: "length t < 2 ^ type_bits (hdr_type s)" using assms(1,2) by (simp add: sds_ok_def)
  then show "hdr_len ?s = length t" by simp
  show "sdsalloc ?s < 2 ^ type_bits (hdr_type ?s)" "sdsalloc ?s < length (hdr_buf ?s)" "hdr_len ?s \<le> sdsalloc ?s"
    using assms lt by (cases "hdr_type s = SDS_TYPE_5"; simp add: sds_ok_def)+
  show "take (length t + 1) (hdr_buf ?s) = t @ [0]" using assms(4) by simp
qed

lemma sds_fresh:
  assumes "ty = SDS_TYPE_5 \<Longrightarrow> n = length t" "n < 2 ^ type_bits ty" "n < length buf" "length t \<le> n" "take (length t + 1) buf = t @ [0]"
    "s' = sdssetalloc (sdssetlen \<lparr>hdr_type = ty, hdr_len = 0, hdr_alloc = 0, hdr_buf = buf\<rparr> (length t)) n"
  shows "sds_ok s' \<and> sds_str s' = t \<and> sdsalloc s' = n \<and> hdr_type s' = ty \<and> hdr_len s' = length t"
proof -
  have l: "hdr_len s' = length t" "hdr_type s' = ty" "hdr_buf s' = buf" using assms(2,4,6) by simp_all
  have a: "sdsalloc s' = n"
    using assms l by (cases "ty = SDS_TYPE_5") simp_all
  then show ?thesis using sds_okI [of s' t] assms(2-5) l by simp
qed

lemma sdsnewlen_spec:
  assumes "n + 18 < 2 ^ 64" "case init of None \<Rightarrow> t = replicate n 0 | Some b \<Rightarrow> n \<le> length b \<and> t = take n b"
  shows "\<exists>s. sdsnewlen junk init n = Some s \<and> sds_ok s \<and> sds_str s = t \<and> sdsalloc s = n"
proof -
  define ty where "ty = (if sdsReqType n = SDS_TYPE_5 \<and> n = 0 then SDS_TYPE_8 else sdsReqType n)"
  define b0 where "b0 = map (if init = None then (\<lambda>_. 0) else junk) [0 ..< n + 1]"
  define b1 where "b1 = (if init = None then b0 else put b0 0 t)"
  have lt: "length t = n" using assms(2) by (auto split: option.splits)
  have n: "n < 2 ^ type_bits ty" using assms(1) sdsReqType_fits [of n] by (auto simp: ty_def)
  have b1: "length b1 = n + 1" "take n b1 = t"
    using assms(2) take_replicate [of n "n + 1" "0 :: u8"]
    by (auto simp: b1_def b0_def put_def map_replicate_const split: option.splits)
  let ?buf = "b1[n := 0]"
  let ?s = "sdssetalloc (sdssetlen \<lparr>hdr_type = ty, hdr_len = 0, hdr_alloc = 0, hdr_buf = ?buf\<rparr> n) n"
  have "sdsnewlen junk init n = Some ?s"
    using assms lt b1 unfolding sdsnewlen_def Let_def ty_def [symmetric] buf_size_eq [OF assms(1)] b0_def [symmetric]
    by (auto simp: b1_def b0_def rdn_def wrn_def wr_def put_def sdssetalloc_def sdssetlen_def split: option.splits sds_type.splits)
  moreover have "take (n + 1) ?buf = t @ [0]" using take_upd_last [of n b1] b1 lt by simp
  then have "sds_ok ?s \<and> sds_str ?s = t \<and> sdsalloc ?s = n"
    using sds_fresh [of ty n t ?buf ?s] n b1(1) lt by simp
  ultimately show ?thesis by blast
qed

lemma sdsMakeRoomFor_open:
  assumes ok: "sds_open s" and room: "hdr_len s + addlen \<le> sds_max"
  shows "\<exists>s'. sdsMakeRoomFor junk s addlen = Some s' \<and> sds_open s' \<and> hdr_len s' = hdr_len s \<and>
    take (hdr_len s + 1) (hdr_buf s') = take (hdr_len s + 1) (hdr_buf s) \<and> hdr_len s + addlen \<le> sdsalloc s' \<and>
    (0 < addlen \<longrightarrow> hdr_type s' \<noteq> SDS_TYPE_5)"
proof (cases "sdsavail s \<ge> addlen")
  case True
  moreover have "hdr_type s = SDS_TYPE_5 \<Longrightarrow> sdsavail s = 0" by (simp add: sdsavail_def)
  ultimately show ?thesis using ok sdsavail_open [OF ok] by (auto simp: sdsMakeRoomFor_def sds_open_def)
next
  case False
  define m where "m = (if hdr_len s + addlen < SDS_MAX_PREALLOC then (hdr_len s + addlen) * 2 else hdr_len s + addlen + SDS_MAX_PREALLOC)"
  define ty where "ty = (if sdsReqType m = SDS_TYPE_5 then SDS_TYPE_8 else sdsReqType m)"
  have m: "m + 18 < 2 ^ 64" "hdr_len s + addlen \<le> m"
    using room by (auto simp: m_def sds_max_def SDS_MAX_PREALLOC_def)
  have mty: "m < 2 ^ type_bits ty" "ty \<noteq> SDS_TYPE_5"
    using m(1) sdsReqType_fits [of m] by (auto simp: ty_def sdsReqType_def)
  have m_eq: "(if (sdslen s + addlen) mod 2 ^ 64 < SDS_MAX_PREALLOC then (sdslen s + addlen) mod 2 ^ 64 * 2
      else ((sdslen s + addlen) mod 2 ^ 64 + SDS_MAX_PREALLOC) mod 2 ^ 64) = m"
    using room by (simp add: m_def sdslen_def sds_max_def SDS_MAX_PREALLOC_def)
  note defs = sdsMakeRoomFor_def Let_def m_eq ty_def [symmetric] buf_size_eq [OF m(1)]
  have d: "hdr_len s < length (hdr_buf s)" "hdr_len s < 2 ^ type_bits (hdr_type s)" using ok by (auto simp: sds_open_def)
  show ?thesis
  proof (cases "hdr_type s = ty")
    case True
    let ?s = "sdssetalloc (s\<lparr>hdr_buf := realloc junk (hdr_buf s) (m + 1)\<rparr>) m"
    have "sdsMakeRoomFor junk s addlen = Some ?s" using False True unfolding defs by simp
    moreover have "take (hdr_len s + 1) (hdr_buf ?s) = take (hdr_len s + 1) (hdr_buf s)"
      using d(1) m(2) by (simp add: take_realloc)
    ultimately show ?thesis using mty m True d by (simp add: sds_open_def)
  next
    case nty: False
    let ?buf = "put (map junk [0 ..< m + 1]) 0 (take (hdr_len s + 1) (hdr_buf s))"
    let ?s = "sdssetalloc (sdssetlen \<lparr>hdr_type = ty, hdr_len = 0, hdr_alloc = 0, hdr_buf = ?buf\<rparr> (hdr_len s)) m"
    have "sdsMakeRoomFor junk s addlen = Some ?s"
      using False nty d m(2) unfolding defs by (simp add: sdslen_def rdn_def wrn_def)
    moreover have "take (hdr_len s + 1) ?buf = take (hdr_len s + 1) (hdr_buf s)" using d(1) by (simp add: put_def)
    moreover have "hdr_len ?s = hdr_len s" "sdsalloc ?s = m" "hdr_type ?s = ty" "length ?buf = m + 1" using mty m d by simp_all
    ultimately show ?thesis using mty m by (simp add: sds_open_def)
  qed
qed

lemma sdsMakeRoomFor_spec:
  assumes ok: "sds_ok s" and room: "hdr_len s + addlen \<le> sds_max"
  shows "\<exists>s'. sdsMakeRoomFor junk s addlen = Some s' \<and> sds_ok s' \<and> sds_str s' = sds_str s \<and>
    hdr_len s' = hdr_len s \<and> hdr_len s + addlen \<le> sdsalloc s'"
proof -
  obtain s' where s': "sdsMakeRoomFor junk s addlen = Some s'" "sds_open s'" "hdr_len s' = hdr_len s"
    "take (hdr_len s + 1) (hdr_buf s') = take (hdr_len s + 1) (hdr_buf s)" "hdr_len s + addlen \<le> sdsalloc s'"
    using sdsMakeRoomFor_open [of s addlen junk] assms by (auto simp: sds_ok_open)
  have "sds_ok s' \<and> sds_str s' = sds_str s"
    by (rule sds_okI) (use s' sds_terminated [OF ok] sds_okD(2) [OF ok] in \<open>auto simp: sds_open_def\<close>)
  then show ?thesis using s' by blast
qed

subsection \<open>Functional behaviour\<close>

lemma sdsempty_spec: "\<exists>s. sdsempty junk = Some s \<and> sds_ok s \<and> sds_str s = []"
  using sdsnewlen_spec [of 0 "[]" "Some []" junk] by (auto simp: sdsempty_def)

lemma sdsdup_spec: "sds_ok s \<Longrightarrow> hdr_len s \<le> sds_max \<Longrightarrow> \<exists>s'. sdsdup junk s = Some s' \<and> sds_ok s' \<and> sds_str s' = sds_str s"
  using sdsnewlen_spec [of "hdr_len s" "sds_str s" "Some (hdr_buf s)" junk] sds_okD [of s]
  by (auto simp: sdsdup_def sdslen_def sds_str_def sds_max_def SDS_MAX_PREALLOC_def)

lemma sdscatlen_spec:
  assumes ok: "sds_ok s" and room: "hdr_len s + length t \<le> sds_max"
  shows "\<exists>s'. sdscatlen junk s t = Some s' \<and> sds_ok s' \<and> sds_str s' = sds_str s @ t"
proof -
  obtain s1 where s1: "sdsMakeRoomFor junk s (length t) = Some s1" "sds_ok s1" "sds_str s1 = sds_str s"
    "hdr_len s1 = hdr_len s" "hdr_len s + length t \<le> sdsalloc s1" using sdsMakeRoomFor_spec [OF assms] by blast
  let ?n = "hdr_len s + length t"
  let ?buf = "(put (hdr_buf s1) (hdr_len s) t)[?n := 0]"
  have lt: "?n < length (hdr_buf s1)" using s1(2,5) by (simp add: sds_ok_def)
  have l: "length (sds_str s @ t) = ?n" using sds_okD [OF ok] by simp
  have "take (hdr_len s) (hdr_buf s1) = sds_str s" using s1(3,4) by (simp add: sds_str_def)
  then have "take (?n + 1) ?buf = (sds_str s @ t) @ [0]"
    using lt l take_upd_last [of ?n "put (hdr_buf s1) (hdr_len s) t"] by (simp add: put_def)
  then have "sds_ok (sdssetlen (s1\<lparr>hdr_buf := ?buf\<rparr>) ?n) \<and> sds_str (sdssetlen (s1\<lparr>hdr_buf := ?buf\<rparr>) ?n) = sds_str s @ t"
    using sds_finish [of s1 "sds_str s @ t" ?buf] s1(2,5) lt l by simp
  moreover have "sdscatlen junk s t = Some (sdssetlen (s1\<lparr>hdr_buf := ?buf\<rparr>) ?n)"
    using s1(1) lt by (simp add: sdscatlen_def Let_def sdslen_def wrn_def wr_def nat_int_add)
  ultimately show ?thesis by blast
qed

lemma sdscatsds_spec:
  "sds_ok s \<Longrightarrow> sds_ok t \<Longrightarrow> hdr_len s + hdr_len t \<le> sds_max \<Longrightarrow>
    \<exists>s'. sdscatsds junk s t = Some s' \<and> sds_ok s' \<and> sds_str s' = sds_str s @ sds_str t"
  using sdscatlen_spec [of s "sds_str t" junk] sds_okD [of t] by (simp add: sdscatsds_def rdn_def sdslen_def sds_str_def)

lemma sdsgrowzero_spec:
  assumes ok: "sds_ok s" and room: "len \<le> sds_max"
  shows "\<exists>s'. sdsgrowzero junk s len = Some s' \<and> sds_ok s' \<and> sds_str s' = sds_str s @ replicate (len - hdr_len s) 0"
proof (cases "len \<le> hdr_len s")
  case True
  then show ?thesis using ok by (simp add: sdsgrowzero_def sdslen_def)
next
  case False
  then have "hdr_len s + (len - hdr_len s) \<le> sds_max" using room by simp
  from sdsMakeRoomFor_spec [OF ok this] obtain s1 where s1: "sdsMakeRoomFor junk s (len - hdr_len s) = Some s1" "sds_ok s1"
    "sds_str s1 = sds_str s" "hdr_len s1 = hdr_len s" "len \<le> sdsalloc s1" using False by auto
  let ?z = "replicate (len - hdr_len s) (0 :: u8)"
  let ?buf = "put (hdr_buf s1) (hdr_len s) (?z @ [0])"
  have lt: "len < length (hdr_buf s1)" using s1(2,5) by (simp add: sds_ok_def)
  have l: "length (sds_str s @ ?z) = len" using sds_okD [OF ok] False by simp
  have "take (hdr_len s) (hdr_buf s1) = sds_str s" using s1(3,4) by (simp add: sds_str_def)
  then have "take (len + 1) ?buf = (sds_str s @ ?z) @ [0]"
    using lt False sds_okD(2) [OF ok] by (simp add: put_def Suc_diff_le)
  then have "sds_ok (sdssetlen (s1\<lparr>hdr_buf := ?buf\<rparr>) len) \<and> sds_str (sdssetlen (s1\<lparr>hdr_buf := ?buf\<rparr>) len) = sds_str s @ ?z"
    using sds_finish [of s1 "sds_str s @ ?z" ?buf] s1(2,5) lt l False by simp
  moreover have "sdsgrowzero junk s len = Some (sdssetlen (s1\<lparr>hdr_buf := ?buf\<rparr>) len)"
    using s1(1) lt False by (simp add: sdsgrowzero_def Let_def sdslen_def wrn_def replicate_append_same)
  ultimately show ?thesis by blast
qed

lemma sdscpylen_spec:
  assumes ok: "sds_ok s" and room: "length t \<le> sds_max"
  shows "\<exists>s'. sdscpylen junk s t = Some s' \<and> sds_ok s' \<and> sds_str s' = t"
proof -
  have "\<exists>s1. (if sdsalloc s < length t then sdsMakeRoomFor junk s (length t - sdslen s) else Some s) = Some s1 \<and>
      sds_ok s1 \<and> length t \<le> sdsalloc s1"
  proof (cases "sdsalloc s < length t")
    case True
    then have "hdr_len s + (length t - hdr_len s) \<le> sds_max" "hdr_len s \<le> length t" using room ok by (simp_all add: sds_ok_def)
    with sdsMakeRoomFor_spec [OF ok this(1), of junk] True show ?thesis by (auto simp: sdslen_def)
  qed (use ok in simp)
  then obtain s1 where s1: "(if sdsalloc s < length t then sdsMakeRoomFor junk s (length t - sdslen s) else Some s) = Some s1"
    "sds_ok s1" "length t \<le> sdsalloc s1" by blast
  let ?buf = "(put (hdr_buf s1) 0 t)[length t := 0]"
  have lt: "length t < length (hdr_buf s1)" using s1(2,3) by (simp add: sds_ok_def)
  then have "take (length t + 1) ?buf = t @ [0]" by (simp add: put_def take_Suc_conv_app_nth)
  then have "sds_ok (sdssetlen (s1\<lparr>hdr_buf := ?buf\<rparr>) (length t)) \<and> sds_str (sdssetlen (s1\<lparr>hdr_buf := ?buf\<rparr>) (length t)) = t"
    using sds_finish [of s1 t ?buf] s1(2,3) lt by simp
  moreover have "sdscpylen junk s t = Some (sdssetlen (s1\<lparr>hdr_buf := ?buf\<rparr>) (length t))"
    unfolding sdscpylen_def Let_def s1(1) using lt by (simp add: wrn_def)
  ultimately show ?thesis by blast
qed

lemma sdsclear_spec: "sds_ok s \<Longrightarrow> \<exists>s'. sdsclear s = Some s' \<and> sds_ok s' \<and> sds_str s' = []"
  using sds_finish [of s "[]" "(hdr_buf s)[0 := 0]"] sds_okD [of s]
  by (auto simp: sdsclear_def Let_def wr_def take_Suc_conv_app_nth)

lemma sdsRemoveFreeSpace_spec:
  assumes ok: "sds_ok s" and room: "hdr_len s \<le> sds_max"
  shows "\<exists>s'. sdsRemoveFreeSpace junk s = Some s' \<and> sds_ok s' \<and> sds_str s' = sds_str s \<and> sdsavail s' = 0"
proof -
  define ty where "ty = sdsReqType (hdr_len s)"
  note d = sds_okD [OF ok]
  have l: "hdr_len s + 18 < 2 ^ 64" using room by (simp add: sds_max_def SDS_MAX_PREALLOC_def)
  note defs = sdsRemoveFreeSpace_def Let_def sdslen_def buf_size_eq [OF l] ty_def [symmetric]
  show ?thesis
  proof (cases "hdr_type s = ty \<or> type_number ty > type_number SDS_TYPE_8")
    case True
    let ?s = "sdssetalloc (s\<lparr>hdr_buf := realloc junk (hdr_buf s) (hdr_len s + 1)\<rparr>) (hdr_len s)"
    have a: "sdsalloc ?s = hdr_len s" using d by (cases "hdr_type s = SDS_TYPE_5") simp_all
    have "sds_ok ?s \<and> sds_str ?s = sds_str s"
    proof (rule sds_okI)
      show "take (length (sds_str s) + 1) (hdr_buf ?s) = sds_str s @ [0]"
        using sds_terminated [OF ok] d by (simp add: realloc_def)
    qed (use a d in simp_all)
    then show ?thesis using True a sdsavail_eq [of ?s] unfolding defs by simp
  next
    case False
    let ?buf = "put (map junk [0 ..< hdr_len s + 1]) 0 (take (hdr_len s + 1) (hdr_buf s))"
    let ?s = "sdssetalloc (sdssetlen \<lparr>hdr_type = ty, hdr_len = 0, hdr_alloc = 0, hdr_buf = ?buf\<rparr> (length (sds_str s))) (hdr_len s)"
    have "sdsRemoveFreeSpace junk s = Some ?s"
      using False d unfolding defs by (simp add: rdn_def wrn_def)
    moreover have "sds_ok ?s \<and> sds_str ?s = sds_str s \<and> sdsalloc ?s = hdr_len s \<and> hdr_type ?s = ty \<and> hdr_len ?s = length (sds_str s)"
    proof (rule sds_fresh)
      show "take (length (sds_str s) + 1) ?buf = sds_str s @ [0]"
        using sds_terminated [OF ok] d by (simp add: put_def)
      show "hdr_len s < 2 ^ type_bits ty" using sdsReqType_fits [of "hdr_len s"] l by (simp add: ty_def)
    qed (use d in simp_all)
    ultimately show ?thesis using sdsavail_eq [of ?s] d(2) by simp
  qed
qed

text \<open>After \<open>sdsMakeRoomFor\<close> a caller may write up to \<open>sdsavail\<close> bytes after the contents and then
  commit them with \<open>sdsIncrLen\<close>.\<close>

lemma sdsIncrLen_spec:
  assumes "sds_ok s" "hdr_type s \<noteq> SDS_TYPE_5" "incr \<le> sdsavail s"
  shows "\<exists>s'. sdsIncrLen s (int incr) = Some s' \<and> sds_ok s' \<and> sds_str s' = take (hdr_len s + incr) (hdr_buf s)"
proof -
  let ?n = "hdr_len s + incr" and ?buf = "(hdr_buf s)[hdr_len s + incr := 0]"
  have n: "?n \<le> sdsalloc s" using assms sdsavail_eq [OF assms(1)] by (auto simp: sds_ok_def)
  then have lt: "?n < length (hdr_buf s)" "?n < 2 ^ type_bits (hdr_type s)" using assms(1) by (simp_all add: sds_ok_def)
  have e: "nat ((int (hdr_len s) + int incr) mod 2 ^ type_bits (hdr_type s)) = ?n"
    using lt(2) by (simp flip: of_nat_add of_nat_power add: nat_mod_distrib)
  have "incr_ok s (int incr)" using assms(2,3) by (cases "hdr_type s") (simp_all add: incr_ok_def)
  then have "sdsIncrLen s (int incr) = Some (sdssetlen (s\<lparr>hdr_buf := ?buf\<rparr>) ?n)"
    using lt unfolding sdsIncrLen_def Let_def e by (simp add: wr_def nat_int_add sdssetlen_def)
  moreover have "length (take ?n (hdr_buf s)) = ?n" using lt by simp
  ultimately show ?thesis
    using sds_finish [of s "take ?n (hdr_buf s)" ?buf] take_upd_last [OF lt(1)] n assms(1) by simp
qed

text \<open>\<open>sdsIncrLen\<close> asserts on a type 5 string when the increment is 0, which any other type accepts.\<close>

lemma sdsIncrLen_type5: "hdr_type s = SDS_TYPE_5 \<Longrightarrow> sdsIncrLen s 0 = None"
  by (simp add: sdsIncrLen_def incr_ok_def)

lemma trim_left_spec:
  assumes "p \<le> n" "n \<le> length buf"
  shows "trim_left cset buf (int p) (int n - 1) =
    Some (int (p + length (takeWhile (in_cset cset) (drop p (take n buf)))))"
  using assms
proof (induction "n - p" arbitrary: p)
  case 0
  then show ?case by (subst trim_left.simps) simp
next
  case (Suc k)
  then have p: "p < n" "drop p (take n buf) = buf ! p # drop (Suc p) (take n buf)"
    by (simp_all add: Cons_nth_drop_Suc [symmetric])
  have "trim_left cset buf (int (Suc p)) (int n - 1) =
      Some (int (Suc p + length (takeWhile (in_cset cset) (drop (Suc p) (take n buf)))))"
    by (rule Suc.hyps(1)) (use Suc in simp_all)
  then show ?case using p Suc.prems by (subst trim_left.simps) (simp add: add.commute)
qed

lemma trim_right_spec:
  assumes "p < n" "n \<le> length buf" "\<not> in_cset cset (buf ! p)"
  shows "trim_right cset buf (int p) (int n - 1) =
    Some (int p + int (length (dropWhile (in_cset cset) (rev (drop p (take n buf))))) - 1)"
  using assms(1,2)
proof (induction n)
  case (Suc n)
  have split: "drop p (take (Suc n) buf) = drop p (take n buf) @ [buf ! n]"
    using Suc.prems by (simp add: take_Suc_conv_app_nth)
  show ?case
  proof (cases "p = n")
    case True
    then have "drop n (take (Suc n) buf) = [buf ! n]" using split by simp
    then show ?thesis using True assms(3) Suc.prems by (subst trim_right.simps) simp
  next
    case False
    then have "trim_right cset buf (int p) (int n - 1) =
      Some (int p + int (length (dropWhile (in_cset cset) (rev (drop p (take n buf))))) - 1)" using Suc by simp
    then show ?thesis using False Suc.prems by (subst trim_right.simps) (simp add: split)
  qed
qed simp

text \<open>Moving \<open>m\<close> bytes at \<open>p\<close> to the front and cutting there, as \<open>sdstrim\<close> and \<open>sdsrange\<close> do.\<close>

lemma sds_move:
  assumes ok: "sds_ok s" and le: "p + m \<le> hdr_len s"
  obtains b where "(if int p \<noteq> 0 then memmove (hdr_buf s) 0 (nat (int p)) m else Some (hdr_buf s)) = Some b"
    "(if int p \<noteq> 0 \<and> int m \<noteq> 0 then memmove (hdr_buf s) 0 (nat (int p)) (nat (int m)) else Some (hdr_buf s)) = Some b"
    "wr b (int m) 0 = Some (b[m := 0])" "sds_ok (sdssetlen (s\<lparr>hdr_buf := b[m := 0]\<rparr>) m)"
    "sds_str (sdssetlen (s\<lparr>hdr_buf := b[m := 0]\<rparr>) m) = take m (drop p (sds_str s))"
proof -
  let ?b = "hdr_buf s" and ?t = "take m (drop p (sds_str s))"
  define b1 where "b1 = (if p = 0 then ?b else put ?b 0 (take m (drop p ?b)))"
  have lt: "p + m < length ?b" "length ?t = m" "m \<le> sdsalloc s" using sds_okD [OF ok] le ok by (simp_all add: sds_ok_def)
  have "take m (drop p ?b) = ?t" using le by (simp add: sds_str_def drop_take min_absorb1)
  then have b1: "take m b1 = ?t" "length b1 = length ?b" using lt by (auto simp: b1_def put_def)
  then have fin: "take (length ?t + 1) (b1[m := 0]) = ?t @ [0]" "length (b1[m := 0]) = length ?b"
    using take_upd_last [of m b1] lt by simp_all
  have "put ?b 0 [] = ?b" by (simp add: put_def)
  then show ?thesis using sds_finish [OF ok _ fin(2,1)] lt b1(2) memmove_Some [of p m ?b 0]
    by (intro that [of b1]) (auto simp: b1_def)
qed

text \<open>What \<open>sdstrim\<close> keeps: NUL bytes count as members of the set, because \<open>strchr\<close> finds the
  terminator of \<open>cset\<close>.\<close>

definition trimmed :: "(u8 \<Rightarrow> bool) \<Rightarrow> bytes \<Rightarrow> bytes" where
  "trimmed P xs = rev (dropWhile P (rev (dropWhile P xs)))"

lemma dropWhile_take_rev: "take (length (dropWhile P (rev ys))) ys = rev (dropWhile P (rev ys))"
proof -
  have "ys = rev (dropWhile P (rev ys)) @ rev (takeWhile P (rev ys))" by (simp flip: rev_append)
  then have "take (length (dropWhile P (rev ys))) ys = take (length (dropWhile P (rev ys))) (rev (dropWhile P (rev ys)) @ rev (takeWhile P (rev ys)))"
    by (rule arg_cong)
  then show ?thesis by simp
qed

lemma sdstrim_spec:
  assumes ok: "sds_ok s"
  shows "\<exists>s'. sdstrim s cset = Some s' \<and> sds_ok s' \<and> sds_str s' = trimmed (in_cset cset) (sds_str s)"
proof -
  let ?P = "in_cset cset" and ?b = "hdr_buf s" and ?n = "hdr_len s"
  define p where "p = length (takeWhile ?P (sds_str s))"
  define ys where "ys = dropWhile ?P (sds_str s)"
  define t where "t = trimmed ?P (sds_str s)"
  note d = sds_okD [OF ok]
  have "length (takeWhile ?P (sds_str s) @ dropWhile ?P (sds_str s)) = ?n" using d(2) by simp
  then have ys: "drop p (sds_str s) = ys" "p + length ys = ?n"
    unfolding length_append by (simp_all add: p_def ys_def dropWhile_eq_drop)
  have t: "t = rev (dropWhile ?P (rev ys))" "length t \<le> length ys" "take (length t) ys = t"
    using dropWhile_take_rev [of ?P ys] length_dropWhile_le [of ?P "rev ys"] by (simp_all add: t_def trimmed_def ys_def)
  have l: "trim_left cset ?b 0 (int ?n - 1) = Some (int p)"
    using trim_left_spec [of 0 ?n ?b cset] d(1) by (simp add: p_def sds_str_def)
  have r: "\<exists>ep. trim_right cset ?b (int p) (int ?n - 1) = Some ep \<and> (if int p > ep then 0 else nat (ep - int p + 1)) = length t"
  proof (cases "ys = []")
    case True
    then show ?thesis using ys t by (subst trim_right.simps) simp
  next
    case False
    then have "p < ?n" using ys(2) by (cases ys) simp_all
    moreover have "\<not> ?P (hd ys)" using hd_dropWhile [of ?P "sds_str s"] False by (simp add: ys_def)
    moreover have "hd ys = ?b ! p" using \<open>p < ?n\<close> d(1) by (simp add: hd_drop_conv_nth sds_str_def flip: ys(1))
    ultimately have "p < ?n" "\<not> ?P (?b ! p)" by simp_all
    then show ?thesis using trim_right_spec [of p ?n ?b cset] d(1) ys(1) t(1) by (simp add: sds_str_def [symmetric])
  qed
  then obtain ep where ep: "trim_right cset ?b (int p) (int ?n - 1) = Some ep"
    "(if int p > ep then 0 else nat (ep - int p + 1)) = length t" by blast
  have le: "p + length t \<le> ?n" using ys(2) t(2) by simp
  from sds_move [OF ok le] obtain b where b:
    "(if int p \<noteq> 0 then memmove (hdr_buf s) 0 (nat (int p)) (length t) else Some (hdr_buf s)) = Some b"
    "wr b (int (length t)) 0 = Some (b[length t := 0])" "sds_ok (sdssetlen (s\<lparr>hdr_buf := b[length t := 0]\<rparr>) (length t))"
    "sds_str (sdssetlen (s\<lparr>hdr_buf := b[length t := 0]\<rparr>) (length t)) = take (length t) (drop p (sds_str s))" .
  have "sdstrim s cset = Some (sdssetlen (s\<lparr>hdr_buf := b[length t := 0]\<rparr>) (length t))"
    unfolding sdstrim_def Let_def sdslen_def l bind.bind_lunit ep b ..
  then show ?thesis using b(3,4) ys(1) t(3) by (simp add: t_def)
qed

definition str_range :: "bytes \<Rightarrow> int \<Rightarrow> int \<Rightarrow> bytes" where
  "str_range xs start stop =
     (let n = int (length xs);
          start = (if start < 0 then max 0 (n + start) else start);
          stop = (if stop < 0 then max 0 (n + stop) else stop)
      in take (nat (stop - start + 1)) (drop (nat start) xs))"

lemma int32_id: "- (2 ^ 31) \<le> k \<Longrightarrow> k < 2 ^ 31 \<Longrightarrow> signed_take_bit 31 (k :: int) = k"
  by (rule signed_take_bit_int_eq_self) simp_all

lemma sdsrange_spec:
  assumes ok: "sds_ok s" and len: "hdr_len s < 2 ^ 31"
    and idx: "- (2 ^ 31) \<le> start" "start < 2 ^ 31" "- (2 ^ 31) \<le> stop" "stop < 2 ^ 31"
  shows "\<exists>s'. sdsrange s start stop = Some s' \<and> sds_ok s' \<and> sds_str s' = str_range (sds_str s) start stop"
proof (cases "hdr_len s = 0")
  case True
  then show ?thesis using ok by (simp add: sdsrange_def sdslen_def str_range_def sds_str_def)
next
  case False
  define n where "n = int (hdr_len s)"
  define a where "a = (if start < 0 then max 0 (n + start) else start)"
  define b where "b = (if stop < 0 then max 0 (n + stop) else stop)"
  have n: "0 < n" "n < 2 ^ 31" using False len by (simp_all add: n_def)
  have sa: "(if start < 0 then max 0 (signed_take_bit 31 (n + start)) else start) = a"
    "(if stop < 0 then max 0 (signed_take_bit 31 (n + stop)) else stop) = b" "signed_take_bit 31 n = n"
    using n idx by (simp_all add: a_def b_def int32_id)
  have ab: "0 \<le> a" "0 \<le> b" by (simp_all add: a_def b_def)
  have t: "str_range (sds_str s) start stop = take (nat (b - a + 1)) (drop (nat a) (sds_str s))"
    by (simp only: str_range_def Let_def sds_okD(2) [OF ok] a_def b_def n_def)
  let ?t = "take (nat (b - a + 1)) (drop (nat a) (sds_str s))"
  define m where "m = length ?t"
  have m: "int m = (if a > b \<or> a \<ge> n then 0 else if b \<ge> n then n - a else b - a + 1)"
    using ab n sds_okD(2) [OF ok] by (auto simp: m_def n_def)
  define p where "p = (if a > b then 0 else nat a)"
  have sel: "(if (if a > b then 0 else b - a + 1) \<noteq> 0 then
      if a \<ge> n then (a, 0) else if b \<ge> n then (a, if a > n - 1 then 0 else n - 1 - a + 1)
      else (a, if a > b then 0 else b - a + 1) else (0, if a > b then 0 else b - a + 1)) = (int p, int m)"
    unfolding m using ab by (auto simp: p_def)
  have le: "m = 0 \<or> p + m \<le> hdr_len s" using m ab by (auto simp: p_def n_def split: if_splits)
  have eq: "take m (drop p (sds_str s)) = ?t" 
    by (cases "a > b") (simp_all add: p_def m_def min_def)
  define q where "q = (if m = 0 then 0 else p)"
  have q: "q + m \<le> hdr_len s" "take m (drop q (sds_str s)) = ?t" "(int q \<noteq> 0 \<and> int m \<noteq> 0) = (int p \<noteq> 0 \<and> int m \<noteq> 0)"
    using le eq by (auto simp: q_def)
  from sds_move [OF ok q(1)] obtain buf where
    "(if int q \<noteq> 0 \<and> int m \<noteq> 0 then memmove (hdr_buf s) 0 (nat (int q)) (nat (int m)) else Some (hdr_buf s)) = Some buf"
    and mv: "wr buf (int m) 0 = Some (buf[m := 0])" "sds_ok (sdssetlen (s\<lparr>hdr_buf := buf[m := 0]\<rparr>) m)"
    "sds_str (sdssetlen (s\<lparr>hdr_buf := buf[m := 0]\<rparr>) m) = take m (drop q (sds_str s))" .
  then have "(if int p \<noteq> 0 \<and> int m \<noteq> 0 then memmove (hdr_buf s) 0 (nat (int p)) (nat (int m)) else Some (hdr_buf s)) = Some buf"
    using q(3) by (simp add: q_def split: if_splits)
  then have "sdsrange s start stop = Some (sdssetlen (s\<lparr>hdr_buf := buf[m := 0]\<rparr>) m)"
    unfolding sdsrange_def Let_def sdslen_def n_def [symmetric] sa sel using n mv(1) by simp
  then show ?thesis using mv(2,3) q(2) t by simp
qed

lemma map_loop_spec:
  "j + n \<le> length buf \<Longrightarrow> 
    map_loop (\<lambda>c. Some (g c)) buf j n = Some (put buf j (map g (take n (drop j buf))))"
proof (induction n arbitrary: buf j)
  case (Suc n)
  let ?b = "buf[j := g (buf ! j)]"
  have "map_loop (\<lambda>c. Some (g c)) ?b (j + 1) n = Some (put ?b (j + 1) (map g (take n (drop (j + 1) ?b))))"
    by (rule Suc.IH) (use Suc.prems in simp_all)
  moreover have "put ?b (j + 1) (map g (take n (drop (j + 1) ?b))) = put buf j (map g (take (Suc n) (drop j buf)))"
    using Suc.prems by (intro nth_equalityI) (auto simp: nth_put nth_list_update nth_Cons' less_Suc_eq_le)
  ultimately show ?case using Suc.prems by simp
qed (simp add: put_def)

lemma sds_map:
  assumes "sds_ok s"
  shows "sds_ok (s\<lparr>hdr_buf := put (hdr_buf s) 0 (map g (take (hdr_len s) (hdr_buf s)))\<rparr>) \<and>
    sds_str (s\<lparr>hdr_buf := put (hdr_buf s) 0 (map g (take (hdr_len s) (hdr_buf s)))\<rparr>) = map g (sds_str s)"
  using assms sds_okD [OF assms] by (auto simp: sds_ok_def sds_str_def put_def nth_append)

lemma sdstolower_spec:
  "sds_ok s \<Longrightarrow> hdr_len s < 2 ^ 31 \<Longrightarrow> \<exists>s'. sdstolower s = Some s' \<and> sds_ok s' \<and> sds_str s' = map tolower (sds_str s)"
  "sds_ok s \<Longrightarrow> hdr_len s < 2 ^ 31 \<Longrightarrow> \<exists>s'. sdstoupper s = Some s' \<and> sds_ok s' \<and> sds_str s' = map toupper (sds_str s)"
  using sds_map [of s tolower] sds_map [of s toupper] sds_okD(1) [of s]
  by (simp_all add: sdstolower_def sdstoupper_def sdslen_def int32_id map_loop_spec)

text \<open>The first pair of the two arrays that matches.\<close>

fun mapped_char :: "(u8 \<times> u8) list \<Rightarrow> u8 \<Rightarrow> u8" where
  "mapped_char [] c = c"
| "mapped_char ((a, b) # ps) c = (if c = a then b else mapped_char ps c)"

lemma map_char_spec:
  "i + n \<le> length from \<Longrightarrow> i + n \<le> length to \<Longrightarrow>
    map_char from to i n c = Some (mapped_char (take n (drop i (zip from to))) c)"
proof (induction n arbitrary: i)
  case (Suc n)
  then have "drop i (zip from to) = (from ! i, to ! i) # drop (Suc i) (zip from to)"
    by (simp add: Cons_nth_drop_Suc [symmetric])
  then show ?case using Suc.IH [of "i + 1"] Suc.prems by simp
qed simp

lemma sdsmapchars_spec:
  assumes "sds_ok s" "setlen \<le> length from" "setlen \<le> length to"
  shows "\<exists>s'. sdsmapchars s from to setlen = Some s' \<and> sds_ok s' \<and>
    sds_str s' = map (mapped_char (take setlen (zip from to))) (sds_str s)"
proof -
  have "map_char from to 0 setlen = (\<lambda>c. Some (mapped_char (take setlen (zip from to)) c))"
    using assms(2,3) by (simp add: map_char_spec fun_eq_iff)
  then show ?thesis
    using sds_map [OF assms(1), of "mapped_char (take setlen (zip from to))"] sds_okD(1) [OF assms(1)]
    by (simp add: sdsmapchars_def sdslen_def map_loop_spec)
qed

text \<open>\<open>sdscmp\<close> orders strings by the order of their bytes, a prefix first.\<close>

lemma memcmp_take: "memcmp (take (min (length xs) (length ys)) xs) (take (min (length xs) (length ys)) ys) = memcmp xs ys"
  by (induction xs ys rule: memcmp.induct) simp_all

lemma memcmp_lex:
  "memcmp xs ys < 0 \<or> memcmp xs ys = 0 \<and> length xs < length ys \<longleftrightarrow> ord_class.lexordp xs ys"
  "memcmp xs ys = 0 \<and> length xs = length ys \<longleftrightarrow> xs = ys"
  by (induction xs ys rule: memcmp.induct) (auto simp: neq_Nil_conv)

lemma sdscmp_spec:
  assumes "sds_ok s" "sds_ok t" "hdr_len s < 2 ^ 31" "hdr_len t < 2 ^ 31"
  shows "\<exists>c. sdscmp s t = Some c \<and> (c < 0 \<longleftrightarrow> ord_class.lexordp (sds_str s) (sds_str t)) \<and> (c = 0 \<longleftrightarrow> sds_str s = sds_str t)"
proof -
  let ?m = "min (hdr_len s) (hdr_len t)"
  have r: "rdn (hdr_buf s) 0 ?m = Some (take ?m (sds_str s))" "rdn (hdr_buf t) 0 ?m = Some (take ?m (sds_str t))"
    using sds_okD(1) [OF assms(1)] sds_okD(1) [OF assms(2)] by (simp_all add: rdn_def sds_str_def)
  have d: "signed_take_bit 31 (int (hdr_len s) - int (hdr_len t)) = int (hdr_len s) - int (hdr_len t)"
    by (rule int32_id) (use assms(3,4) in simp_all)
  have "sdscmp s t = Some (if memcmp (sds_str s) (sds_str t) = 0 then int (hdr_len s) - int (hdr_len t) else memcmp (sds_str s) (sds_str t))"
    using memcmp_take [of "sds_str s" "sds_str t"] r d sds_okD(2) [OF assms(1)] sds_okD(2) [OF assms(2)]
    by (simp add: sdscmp_def Let_def sdslen_def)
  then show ?thesis
    using memcmp_lex [of "sds_str s" "sds_str t"] sds_okD(2) [OF assms(1)] sds_okD(2) [OF assms(2)] by auto
qed

interpretation sb: str_builder sds_ok sds_str sds_max "sdscatlen junk" for junk
proof (unfold_locales)
  fix s :: sds and t :: bytes
  assume "sds_ok s" "length (sds_str s) + length t \<le> sds_max"
  then show "\<exists>s'. sdscatlen junk s t = Some s' \<and> sds_ok s' \<and> sds_str s' = sds_str s @ t"
    using sdscatlen_spec [of s t junk] sds_okD(2) [of s] by simp
qed

subsection \<open>Sequences of operations\<close>

datatype sds_op =
  Op_cat bytes | Op_cpy bytes | Op_grow nat | Op_room nat | Op_range int int | Op_trim bytes | Op_clear | Op_compact |
  Op_lower | Op_dup

fun run_op :: "(nat \<Rightarrow> u8) \<Rightarrow> sds \<Rightarrow> sds_op \<Rightarrow> sds option" where
  "run_op junk s (Op_cat t) = sdscatlen junk s t"
| "run_op junk s (Op_cpy t) = sdscpylen junk s t"
| "run_op junk s (Op_grow n) = sdsgrowzero junk s n"
| "run_op junk s (Op_room n) = sdsMakeRoomFor junk s n"
| "run_op junk s (Op_range a b) = sdsrange s a b"
| "run_op junk s (Op_trim cset) = sdstrim s cset"
| "run_op junk s Op_clear = sdsclear s"
| "run_op junk s Op_compact = sdsRemoveFreeSpace junk s"
| "run_op junk s Op_lower = sdstolower s"
| "run_op junk s Op_dup = sdsdup junk s"

fun run_ops :: "(nat \<Rightarrow> u8) \<Rightarrow> sds \<Rightarrow> sds_op list \<Rightarrow> sds option" where
  "run_ops junk s [] = Some s"
| "run_ops junk s (c # cs) = do { s \<leftarrow> run_op junk s c; run_ops junk s cs }"

text \<open>The same operations on the contents alone.\<close>

fun op_spec :: "bytes \<Rightarrow> sds_op \<Rightarrow> bytes" where
  "op_spec xs (Op_cat t) = xs @ t"
| "op_spec xs (Op_cpy t) = t"
| "op_spec xs (Op_grow n) = xs @ replicate (n - length xs) 0"
| "op_spec xs (Op_room n) = xs"
| "op_spec xs (Op_range a b) = str_range xs a b"
| "op_spec xs (Op_trim cset) = trimmed (in_cset cset) xs"
| "op_spec xs Op_clear = []"
| "op_spec xs Op_compact = xs"
| "op_spec xs Op_lower = map tolower xs"
| "op_spec xs Op_dup = xs"

text \<open>Arguments and results that fit an \<open>int\<close>.\<close>

fun op_small :: "bytes \<Rightarrow> sds_op \<Rightarrow> bool" where
  "op_small xs (Op_room n) \<longleftrightarrow> n < 2 ^ 31"
| "op_small xs (Op_range a b) \<longleftrightarrow> - (2 ^ 31) \<le> a \<and> a < 2 ^ 31 \<and> - (2 ^ 31) \<le> b \<and> b < 2 ^ 31"
| "op_small xs c \<longleftrightarrow> length (op_spec xs c) < 2 ^ 31"

fun ops_small :: "bytes \<Rightarrow> sds_op list \<Rightarrow> bool" where
  "ops_small xs [] \<longleftrightarrow> True"
| "ops_small xs (c # cs) \<longleftrightarrow> op_small xs c \<and> ops_small (op_spec xs c) cs"

lemma length_str_range: "length (str_range xs a b) \<le> length xs"
  by (simp add: str_range_def Let_def)

lemma length_trimmed: "length (trimmed P xs) \<le> length xs"
  unfolding trimmed_def using length_dropWhile_le [of P "rev (dropWhile P xs)"] length_dropWhile_le [of P xs] by simp

lemma run_op_spec:
  assumes "sds_ok s" "length (sds_str s) < 2 ^ 31" "op_small (sds_str s) c"
  shows "\<exists>s'. run_op junk s c = Some s' \<and> sds_ok s' \<and> sds_str s' = op_spec (sds_str s) c \<and> length (sds_str s') < 2 ^ 31"
proof -
  have l: "hdr_len s < 2 ^ 31" using assms(2) sds_okD(2) [OF assms(1)] by simp
  have max: "n < 2 ^ 31 \<Longrightarrow> m < 2 ^ 31 \<Longrightarrow> n + m \<le> sds_max" "n < 2 ^ 31 \<Longrightarrow> n \<le> sds_max" for n m
    by (simp_all add: sds_max_def SDS_MAX_PREALLOC_def)
  show ?thesis
  proof (cases c)
    case (Op_cat t)
    then have "length t < 2 ^ 31" using assms(3) by simp
    with Op_cat show ?thesis using sdscatlen_spec [of s t junk] assms max(1) [of "hdr_len s" "length t"] l by auto
  next
    case (Op_cpy t)
    then show ?thesis using sdscpylen_spec [of s t junk] assms max(2) by auto
  next
    case (Op_grow n)
    then have "n < 2 ^ 31" using assms(3) by (simp split: if_splits)
    with Op_grow show ?thesis using sdsgrowzero_spec [of s n junk] assms max(2) sds_okD(2) [OF assms(1)] by auto
  next
    case (Op_room n)
    then show ?thesis using sdsMakeRoomFor_spec [of s n junk] assms max(1) [of "hdr_len s" n] l by auto
  next
    case (Op_range a b)
    then obtain s' where "run_op junk s c = Some s'" "sds_ok s'" "sds_str s' = str_range (sds_str s) a b"
      using sdsrange_spec [OF assms(1) l, of a b] assms(3) by auto
    with Op_range show ?thesis using length_str_range [of "sds_str s" a b] assms(2) by auto
  next
    case (Op_trim cset)
    with sdstrim_spec [OF assms(1), of cset] show ?thesis using length_trimmed [of "in_cset cset" "sds_str s"] assms(2) by auto
  next
    case Op_clear
    then show ?thesis using sdsclear_spec [OF assms(1)] by auto
  next
    case Op_compact
    then show ?thesis using sdsRemoveFreeSpace_spec [of s junk] assms max(2) l by auto
  next
    case Op_lower
    then show ?thesis using sdstolower_spec(1) [OF assms(1) l] assms(2) by auto
  next
    case Op_dup
    then show ?thesis using sdsdup_spec [of s junk] assms max(2) l by auto
  qed
qed

lemma run_ops_spec:
  "sds_ok s \<Longrightarrow> length (sds_str s) < 2 ^ 31 \<Longrightarrow> ops_small (sds_str s) cs \<Longrightarrow>
    \<exists>s'. run_ops junk s cs = Some s' \<and> sds_ok s' \<and> sds_str s' = foldl op_spec (sds_str s) cs"
proof (induction cs arbitrary: s)
  case (Cons c cs)
  then obtain s1 where "run_op junk s c = Some s1" "sds_ok s1" "sds_str s1 = op_spec (sds_str s) c" "length (sds_str s1) < 2 ^ 31"
    using run_op_spec [of s c junk] by auto
  with Cons.IH [of s1] Cons.prems show ?case by auto
qed simp

text \<open>C28: Any sequence of string operations on a new string (appends, copies, growing with zeros,
  making room, cutting a range with negative indexes, trimming, clearing, compacting, lower casing,
  duplicating) runs without touching memory outside of the string's block, whatever new memory
  holds and whichever header widths it goes through, keeps the length, capacity and terminator
  consistent, and ends with the contents of the same operations on byte lists.\<close>

theorem sds_refines_bytes:
  assumes "ops_small [] cs"
  shows "\<exists>e s. sdsempty junk = Some e \<and> run_ops junk e cs = Some s \<and> sds_ok s \<and> sds_str s = foldl op_spec [] cs \<and>
    sdslen s = length (foldl op_spec [] cs) \<and> sdslen s + sdsavail s = sdsalloc s"
proof -
  obtain e where e: "sdsempty junk = Some e" "sds_ok e" "sds_str e = []" using sdsempty_spec [of junk] by blast
  then obtain s where s: "run_ops junk e cs = Some s" "sds_ok s" "sds_str s = foldl op_spec [] cs"
    using run_ops_spec [OF e(2), of cs junk] assms by auto
  then show ?thesis using e(1) sds_okD(2) [OF s(2)] sdsavail_eq [OF s(2)] by (auto simp: sdslen_def sds_ok_def)
qed

theorem sds_refines_bytes_witness:
  "\<exists>e s. sdsempty (\<lambda>_. 7) = Some e \<and> run_ops (\<lambda>_. 7) e [Op_cat (str ''  Hello''), Op_trim (str '' ''), Op_lower, Op_range (- 3) (- 1)] = Some s \<and>
    sds_str s = str ''llo'' \<and> sds_ok s"
  using sds_refines_bytes [of "[Op_cat (str ''  Hello''), Op_trim (str '' ''), Op_lower, Op_range (- 3) (- 1)]" "\<lambda>_. 7"]
  by (simp add: str_def trimmed_def in_cset_def cstring_def tolower_def str_range_def) blast

text \<open>C34: \<open>sdscmp\<close> on two strings shorter than \<open>2 ^ 31\<close> bytes reads only their contents, is negative
  exactly when the first is smaller in the lexicographic order of unsigned bytes, and zero exactly
  when the strings are equal.\<close>

theorem sdscmp_lexicographic:
  assumes "sds_ok s" "sds_ok t" "sdslen s < 2 ^ 31" "sdslen t < 2 ^ 31"
  shows "\<exists>c. sdscmp s t = Some c \<and> (c < 0 \<longleftrightarrow> ord_class.lexordp (sds_str s) (sds_str t)) \<and> (c = 0 \<longleftrightarrow> sds_str s = sds_str t)"
  by (rule sdscmp_spec) (use assms in \<open>simp_all add: sdslen_def\<close>)

definition sds_a :: sds where
  "sds_a = \<lparr>hdr_type = SDS_TYPE_8, hdr_len = 1, hdr_alloc = 2, hdr_buf = [97, 0, 5]\<rparr>"

theorem sdscmp_lexicographic_witness:
  "\<exists>c. sdscmp sds_a sds_a = Some c \<and> c = 0"
  using sdscmp_lexicographic [of sds_a sds_a] by (simp add: sds_a_def sds_ok_def sdsalloc_def sdslen_def)

end
