(* ===== verification/Sds_Text.thy ===== *)
theory Sds_Text
  imports Sds
begin

text \<open>
  The text functions of \<open>src/sds.c\<close> on top of the string operations of \<open>Sds\<close>: printing integers,
  formatted appends, splitting and joining, and the quoted representation of binary strings with
  its parser, which reads the arguments of inline commands and of the configuration file. C
  strings are byte lists that include their terminator; a pointer into one is the suffix it
  points to, and a read behind the terminator is \<open>None\<close>.
\<close>

subsection \<open>Integers\<close>

definition SDS_LLSTR_SIZE :: nat where "SDS_LLSTR_SIZE = 21"

function digit_loop :: "bytes \<Rightarrow> nat \<Rightarrow> u64 \<Rightarrow> (bytes \<times> nat) option" where
  "digit_loop buf p v = do {
     buf \<leftarrow> wr buf (int p) (48 + ucast (v mod 10));
     if v div 10 \<noteq> 0 then digit_loop buf (p + 1) (v div 10) else Some (buf, p + 1) }"
  by pat_completeness auto
termination
  by (relation "measure (\<lambda>(buf, p, v). unat v)") (auto simp: unat_div word_unat_eq_iff)

declare digit_loop.simps [simp del]

function rev_swap_loop :: "bytes \<Rightarrow> int \<Rightarrow> int \<Rightarrow> bytes option" where
  "rev_swap_loop buf s p =
     (if s < p then do {
        aux \<leftarrow> rd buf s;
        c \<leftarrow> rd buf p;
        buf \<leftarrow> wr buf s c;
        buf \<leftarrow> wr buf p aux;
        rev_swap_loop buf (s + 1) (p - 1) }
      else Some buf)"
  by pat_completeness auto
termination by (relation "measure (\<lambda>(buf, s, p). nat (p - s))") auto

declare rev_swap_loop.simps [simp del]

text \<open>\<open>-value\<close> is undefined for the most negative \<open>long long\<close>.\<close>

definition sdsll2str :: "bytes \<Rightarrow> i64 \<Rightarrow> (bytes \<times> nat) option" where
  "sdsll2str s val =
     (if sint val = LLONG_MIN then None
      else do {
        let v = (if sint val < 0 then - val else val);
        (s, p) \<leftarrow> digit_loop s 0 v;
        (s, p) \<leftarrow> (if sint val < 0 then do { s \<leftarrow> wr s (int p) 45; Some (s, p + 1) } else Some (s, p));
        s \<leftarrow> wr s (int p) 0;
        s \<leftarrow> rev_swap_loop s 0 (int p - 1);
        Some (s, p) })"

definition sdsull2str :: "bytes \<Rightarrow> u64 \<Rightarrow> (bytes \<times> nat) option" where
  "sdsull2str s v = do {
     (s, p) \<leftarrow> digit_loop s 0 v;
     s \<leftarrow> wr s (int p) 0;
     s \<leftarrow> rev_swap_loop s 0 (int p - 1);
     Some (s, p) }"

definition sdsfromlonglong :: "(nat \<Rightarrow> u8) \<Rightarrow> i64 \<Rightarrow> sds option" where
  "sdsfromlonglong junk val = do {
     (buf, len) \<leftarrow> sdsll2str (map junk [0 ..< SDS_LLSTR_SIZE]) val;
     sdsnewlen junk (Some buf) len }"

subsection \<open>Formatted appends\<close>

text \<open>The retry loop of \<open>sdscatvprintf\<close> around \<open>vsnprintf\<close>, which prints \<open>text\<close>, cut to the buffer.\<close>

function vprintf_loop :: "nat \<Rightarrow> bytes \<Rightarrow> bytes" where
  "vprintf_loop buflen text =
     (if buflen \<ge> 2 \<and> buflen \<le> length text + 1 \<and> text ! (buflen - 2) \<noteq> 0
      then vprintf_loop (buflen * 2) text
      else take (buflen - 1) text)"
  by pat_completeness auto
termination by (relation "measure (\<lambda>(buflen, text). length text + 2 - buflen)") auto

declare vprintf_loop.simps [simp del]

definition sdscatvprintf :: "(nat \<Rightarrow> u8) \<Rightarrow> sds \<Rightarrow> bytes \<Rightarrow> bytes \<Rightarrow> sds option" where
  "sdscatvprintf junk s fmt text =
     (let buflen = length (cstring fmt) * 2;
          buflen = (if buflen > 1024 then buflen else 1024)
      in sdscat junk s (vprintf_loop buflen text))"

definition sdscatprintf :: "(nat \<Rightarrow> u8) \<Rightarrow> sds \<Rightarrow> bytes \<Rightarrow> bytes \<Rightarrow> sds option" where
  "sdscatprintf junk s fmt text = sdscatvprintf junk s fmt text"

text \<open>The arguments of \<open>sdscatfmt\<close>; reading one at another type is \<open>None\<close>.\<close>

datatype fmt_arg = Arg_str bytes | Arg_sds sds | Arg_int i64 | Arg_uint u64

definition fmt_bytes :: "(nat \<Rightarrow> u8) \<Rightarrow> u8 \<Rightarrow> fmt_arg list \<Rightarrow> (bytes \<times> fmt_arg list) option" where
  "fmt_bytes junk c args =
     (case args of
        [] \<Rightarrow> None
      | a # rest \<Rightarrow>
          (case a of
             Arg_str t \<Rightarrow> if c = 115 then Some (cstring t, rest) else None
           | Arg_sds t \<Rightarrow> if c = 83 then do { bs \<leftarrow> rdn (hdr_buf t) 0 (sdslen t); Some (bs, rest) } else None
           | Arg_int v \<Rightarrow>
               if c = 105 \<or> c = 73 then do {
                 (buf, l) \<leftarrow> sdsll2str (map junk [0 ..< SDS_LLSTR_SIZE]) v;
                 Some (take l buf, rest) }
               else None
           | Arg_uint v \<Rightarrow>
               if c = 117 \<or> c = 85 then do {
                 (buf, l) \<leftarrow> sdsull2str (map junk [0 ..< SDS_LLSTR_SIZE]) v;
                 Some (take l buf, rest) }
               else None))"

text \<open>\<open>memcpy(s+i,str,l); sdsinclen(s,l); i += l;\<close> with \<open>i\<close> an \<open>int\<close>.\<close>

definition fmt_put :: "sds \<Rightarrow> int \<Rightarrow> bytes \<Rightarrow> (sds \<times> int) option" where
  "fmt_put s i bs =
     (if i < 0 then None
      else do {
        buf \<leftarrow> wrn (hdr_buf s) (nat i) bs;
        Some (sdsinclen (s\<lparr>hdr_buf := buf\<rparr>) (length bs), signed_take_bit 31 (i + int (length bs))) })"

fun catfmt_loop :: "(nat \<Rightarrow> u8) \<Rightarrow> bytes \<Rightarrow> fmt_arg list \<Rightarrow> sds \<Rightarrow> int \<Rightarrow> (sds \<times> int) option" where
  "catfmt_loop junk [] args s i = None"
| "catfmt_loop junk (c # f) args s i =
     (if c = 0 then Some (s, i)
      else do {
        s \<leftarrow> (if sdsavail s = 0 then sdsMakeRoomFor junk s 1 else Some s);
        if c = 37 then
          (case f of
             [] \<Rightarrow> None
           | next # f \<Rightarrow>
               if next \<in> {115, 83, 105, 73, 117, 85} then do {
                 (bs, args) \<leftarrow> fmt_bytes junk next args;
                 s \<leftarrow> (if sdsavail s < length bs then sdsMakeRoomFor junk s (length bs) else Some s);
                 (s, i) \<leftarrow> fmt_put s i bs;
                 catfmt_loop junk f args s i }
               else do {
                 (s, i) \<leftarrow> fmt_put s i [next];
                 catfmt_loop junk f args s i })
        else do {
          (s, i) \<leftarrow> fmt_put s i [c];
          catfmt_loop junk f args s i } })"

definition sdscatfmt :: "(nat \<Rightarrow> u8) \<Rightarrow> sds \<Rightarrow> bytes \<Rightarrow> fmt_arg list \<Rightarrow> sds option" where
  "sdscatfmt junk s fmt args = do {
     (s, i) \<leftarrow> catfmt_loop junk fmt args s (signed_take_bit 31 (int (sdslen s)));
     buf \<leftarrow> wr (hdr_buf s) i 0;
     Some (s\<lparr>hdr_buf := buf\<rparr>) }"

subsection \<open>Splitting and joining\<close>

text \<open>\<open>tokens\<close> holds the \<open>elements\<close> tokens found so far in an array of \<open>slots\<close> places; a token written
  outside of the array is \<open>None\<close>.\<close>

definition add_token :: "nat \<Rightarrow> sds list \<Rightarrow> sds \<Rightarrow> sds list option" where
  "add_token slots tokens t = (if length tokens < slots then Some (tokens @ [t]) else None)"

function split_loop :: "(nat \<Rightarrow> u8) \<Rightarrow> bytes \<Rightarrow> bytes \<Rightarrow> nat \<Rightarrow> nat \<Rightarrow> nat \<Rightarrow> sds list \<Rightarrow> (nat \<times> nat \<times> sds list) option" where
  "split_loop junk s sep j start slots tokens =
     (if int j < int (length s) - (int (length sep) - 1) then do {
        let slots = (if slots < length tokens + 2 then slots * 2 else slots);
        w \<leftarrow> rdn s j (length sep);
        if w = sep then do {
          b \<leftarrow> rdn s start (j - start);
          t \<leftarrow> sdsnewlen junk (Some b) (j - start);
          tokens \<leftarrow> add_token slots tokens t;
          split_loop junk s sep (max (j + 1) (j + length sep)) (j + length sep) slots tokens }
        else split_loop junk s sep (j + 1) start slots tokens }
      else Some (start, slots, tokens))"
  by pat_completeness auto
termination by (relation "measure (\<lambda>(junk, s, sep, j, start, slots, tokens). length s + 1 - j)") auto

declare split_loop.simps [simp del]

text \<open>\<open>Some None\<close> is the \<open>NULL\<close> returned for an empty separator.\<close>

definition sdssplitlen :: "(nat \<Rightarrow> u8) \<Rightarrow> bytes \<Rightarrow> bytes \<Rightarrow> sds list option option" where
  "sdssplitlen junk s sep =
     (if length sep < 1 then Some None
      else if s = [] then Some (Some [])
      else do {
        (start, slots, tokens) \<leftarrow> split_loop junk s sep 0 0 5 [];
        b \<leftarrow> rdn s start (length s - start);
        t \<leftarrow> sdsnewlen junk (Some b) (length s - start);
        tokens \<leftarrow> add_token slots tokens t;
        Some (Some tokens) })"

fun join_loop :: "(sds \<Rightarrow> 'a \<Rightarrow> sds option) \<Rightarrow> (sds \<Rightarrow> sds option) \<Rightarrow> sds \<Rightarrow> 'a list \<Rightarrow> sds option" where
  "join_loop cat catsep join [] = Some join"
| "join_loop cat catsep join (a # as) = do {
     join \<leftarrow> cat join a;
     join \<leftarrow> (if as \<noteq> [] then catsep join else Some join);
     join_loop cat catsep join as }"

definition sdsjoin :: "(nat \<Rightarrow> u8) \<Rightarrow> bytes list \<Rightarrow> bytes \<Rightarrow> sds option" where
  "sdsjoin junk argv sep = do {
     join \<leftarrow> sdsempty junk;
     join_loop (sdscat junk) (\<lambda>s. sdscat junk s sep) join argv }"

definition sdsjoinsds :: "(nat \<Rightarrow> u8) \<Rightarrow> sds list \<Rightarrow> bytes \<Rightarrow> sds option" where
  "sdsjoinsds junk argv sep = do {
     join \<leftarrow> sdsempty junk;
     join_loop (sdscatsds junk) (\<lambda>s. sdscatlen junk s sep) join argv }"

subsection \<open>Quoted representation\<close>

definition isprint :: "u8 \<Rightarrow> bool" where
  "isprint c \<longleftrightarrow> 32 \<le> c \<and> c \<le> 126"

definition hex_char :: "nat \<Rightarrow> u8" where
  "hex_char n = (if n < 10 then 48 + word_of_nat n else 87 + word_of_nat n)"

definition catrepr_char :: "(nat \<Rightarrow> u8) \<Rightarrow> sds \<Rightarrow> u8 \<Rightarrow> sds option" where
  "catrepr_char junk s c =
     (if c = 92 \<or> c = 34 then sdscatprintf junk s [92, 37, 99, 0] [92, c]
      else if c = 10 then sdscatlen junk s [92, 110]
      else if c = 13 then sdscatlen junk s [92, 114]
      else if c = 9 then sdscatlen junk s [92, 116]
      else if c = 7 then sdscatlen junk s [92, 97]
      else if c = 8 then sdscatlen junk s [92, 98]
      else if isprint c then sdscatprintf junk s [37, 99, 0] [c]
      else sdscatprintf junk s [92, 120, 37, 48, 50, 120, 0] [92, 120, hex_char (unat c div 16), hex_char (unat c mod 16)])"

fun catrepr_loop :: "(nat \<Rightarrow> u8) \<Rightarrow> sds \<Rightarrow> bytes \<Rightarrow> sds option" where
  "catrepr_loop junk s [] = Some s"
| "catrepr_loop junk s (c # p) = do { s \<leftarrow> catrepr_char junk s c; catrepr_loop junk s p }"

definition sdscatrepr :: "(nat \<Rightarrow> u8) \<Rightarrow> sds \<Rightarrow> bytes \<Rightarrow> sds option" where
  "sdscatrepr junk s p = do {
     s \<leftarrow> sdscatlen junk s [34];
     s \<leftarrow> catrepr_loop junk s p;
     sdscatlen junk s [34] }"

definition is_hex_digit :: "u8 \<Rightarrow> bool" where
  "is_hex_digit c \<longleftrightarrow> 48 \<le> c \<and> c \<le> 57 \<or> 97 \<le> c \<and> c \<le> 102 \<or> 65 \<le> c \<and> c \<le> 70"

definition hex_digit_to_int :: "u8 \<Rightarrow> nat" where
  "hex_digit_to_int c =
     (if 48 \<le> c \<and> c \<le> 57 then unat c - 48
      else if 97 \<le> c \<and> c \<le> 102 then unat c - 87
      else if 65 \<le> c \<and> c \<le> 70 then unat c - 55
      else 0)"

definition unescape :: "u8 \<Rightarrow> u8" where
  "unescape c =
     (if c = 110 then 10 else if c = 114 then 13 else if c = 116 then 9
      else if c = 98 then 8 else if c = 97 then 7 else c)"

datatype quote_mode = Plain | Dquote | Squote

text \<open>Whether \<open>p\<close> starts with a complete \<open>\xHH\<close> escape, read as far as the code reads.\<close>

definition hex_escape :: "bytes \<Rightarrow> bool option" where
  "hex_escape p = do {
     c1 \<leftarrow> rd p 1;
     if c1 = 120 then do {
       c2 \<leftarrow> rd p 2;
       if is_hex_digit c2 then do { c3 \<leftarrow> rd p 3; Some (is_hex_digit c3) } else Some False }
     else Some False }"

text \<open>The loop that reads one token, from the character \<open>p\<close> points to; \<open>Some None\<close> is \<open>goto err\<close>.\<close>

function arg_loop :: "(nat \<Rightarrow> u8) \<Rightarrow> quote_mode \<Rightarrow> bytes \<Rightarrow> sds \<Rightarrow> (bytes \<times> sds) option option" where
  "arg_loop junk mode p cur = do {
     c \<leftarrow> rd p 0;
     (case mode of
        Dquote \<Rightarrow>
          if c = 92 then do {
            hex \<leftarrow> hex_escape p;
            c1 \<leftarrow> rd p 1;
            if hex then do {
              c2 \<leftarrow> rd p 2;
              c3 \<leftarrow> rd p 3;
              cur \<leftarrow> sdscatlen junk cur [word_of_nat (hex_digit_to_int c2 * 16 + hex_digit_to_int c3)];
              arg_loop junk Dquote (drop 4 p) cur }
            else if c1 \<noteq> 0 then do {
              cur \<leftarrow> sdscatlen junk cur [unescape c1];
              arg_loop junk Dquote (drop 2 p) cur }
            else do {
              cur \<leftarrow> sdscatlen junk cur [c];
              arg_loop junk Dquote (drop 1 p) cur } }
          else if c = 34 then do {
            c1 \<leftarrow> rd p 1;
            Some (if c1 \<noteq> 0 \<and> \<not> isspace c1 then None else Some (drop 1 p, cur)) }
          else if c = 0 then Some None
          else do {
            cur \<leftarrow> sdscatlen junk cur [c];
            arg_loop junk Dquote (drop 1 p) cur }
      | Squote \<Rightarrow>
          do {
            quote \<leftarrow> (if c = 92 then do { c1 \<leftarrow> rd p 1; Some (c1 = 39) } else Some False);
            if quote then do {
              cur \<leftarrow> sdscatlen junk cur [39];
              arg_loop junk Squote (drop 2 p) cur }
            else if c = 39 then do {
              c1 \<leftarrow> rd p 1;
              Some (if c1 \<noteq> 0 \<and> \<not> isspace c1 then None else Some (drop 1 p, cur)) }
            else if c = 0 then Some None
            else do {
              cur \<leftarrow> sdscatlen junk cur [c];
              arg_loop junk Squote (drop 1 p) cur } }
      | Plain \<Rightarrow>
          if c \<in> {32, 10, 13, 9} then Some (Some (drop 1 p, cur))
          else if c = 0 then Some (Some (p, cur))
          else if c = 34 then arg_loop junk Dquote (drop 1 p) cur
          else if c = 39 then arg_loop junk Squote (drop 1 p) cur
          else do {
            cur \<leftarrow> sdscatlen junk cur [c];
            arg_loop junk Plain (drop 1 p) cur }) }"
  by pat_completeness auto
termination by (relation "measure (\<lambda>(junk, mode, p, cur). length p)") (auto simp: rd_def split: if_splits)

declare arg_loop.simps [simp del]

lemma arg_loop_progress:
  "arg_loop junk mode p cur = Some (Some (p', cur')) \<Longrightarrow> length p' \<le> length p \<and> (mode \<noteq> Plain \<or> hd p \<noteq> 0 \<longrightarrow> length p' < length p)"
proof (induction "length p" arbitrary: mode p cur rule: less_induct)
  case less
  have ne: "rd p 0 = Some c \<Longrightarrow> p \<noteq> [] \<and> c = hd p" for c by (auto simp: rd_def hd_conv_nth split: if_splits)
  have ih: "length p' < length p" if "arg_loop junk m (drop n p) s = Some (Some (p', cur'))" "0 < n" "p \<noteq> []" for m n s
  proof -
    have "length (drop n p) < length p" using that(2,3) by (cases p) simp_all
    with less.hyps [OF this that(1)] show ?thesis by linarith
  qed
  show ?case using less.prems
    by (subst (asm) arg_loop.simps) (cases mode; fastforce simp: bind_eq_Some_conv dest!: ne dest: ih split: if_splits)
qed

fun skip_blanks :: "bytes \<Rightarrow> bytes option" where
  "skip_blanks [] = None"
| "skip_blanks (c # p) = (if c \<noteq> 0 \<and> isspace c then skip_blanks p else Some (c # p))"

lemma skip_blanks_length: "skip_blanks p = Some q \<Longrightarrow> length q \<le> length p"
  by (induction p) (auto split: if_splits)

text \<open>\<open>Some None\<close> is the \<open>NULL\<close> returned for unbalanced quotes.\<close>

function splitargs_loop :: "(nat \<Rightarrow> u8) \<Rightarrow> bytes \<Rightarrow> sds list \<Rightarrow> sds list option option" where
  "splitargs_loop junk p vec = do {
     p \<leftarrow> skip_blanks p;
     c \<leftarrow> rd p 0;
     if c \<noteq> 0 then do {
       cur \<leftarrow> sdsempty junk;
       r \<leftarrow> arg_loop junk Plain p cur;
       (case r of
          None \<Rightarrow> Some None
        | Some (p, cur) \<Rightarrow> splitargs_loop junk p (vec @ [cur])) }
     else Some (Some vec) }"
  by pat_completeness auto
termination
proof (relation "measure (\<lambda>(junk, p, vec). length p)", goal_cases)
  case (2 junk p vec p1 c cur r q p2 cur2)
  then have "hd p1 \<noteq> 0" by (auto simp: rd_def hd_conv_nth split: if_splits)
  with 2 skip_blanks_length [of p p1] arg_loop_progress [of junk Plain p1 cur p2 cur2] show ?case by auto
qed simp

declare splitargs_loop.simps [simp del]

definition sdssplitargs :: "(nat \<Rightarrow> u8) \<Rightarrow> bytes \<Rightarrow> sds list option option" where
  "sdssplitargs junk line = splitargs_loop junk line []"

subsection \<open>Integers are printed in decimal\<close>

lemma digit_loop_spec:
  "p + length (dec_nat (unat v)) \<le> length buf \<Longrightarrow>
    digit_loop buf p v = Some (put buf p (rev (dec_nat (unat v))), p + length (dec_nat (unat v)))"
proof (induction buf p v rule: digit_loop.induct)
  case (1 buf p v)
  have lt: "p < length buf" using "1.prems" length_dec_nat_pos [of "unat v"] by linarith
  have d: "48 + ucast (v mod 10) = (48 + word_of_nat (unat v mod 10) :: u8)"
    by (simp add: ucast_unat unat_mod)
  show ?case
  proof (cases "unat v < 10")
    case True
    then have z: "v div 10 = 0" by (simp add: word_unat_eq_iff unat_div)
    then show ?thesis using lt True d by (subst digit_loop.simps) (simp add: dec_nat_small put_def upd_conv_take_nth_drop)
  next
    case False
    then have nz: "v div 10 \<noteq> 0" by (simp add: word_unat_eq_iff unat_div)
    let ?b = "buf[p := 48 + word_of_nat (unat v mod 10)]"
    have dec: "dec_nat (unat v) = dec_nat (unat (v div 10)) @ [48 + word_of_nat (unat v mod 10)]"
      using False by (simp add: dec_nat_big unat_div)
    have w: "wr buf (int p) (48 + ucast (v mod 10)) = Some ?b" using lt d by simp
    have "digit_loop ?b (p + 1) (v div 10) =
      Some (put ?b (p + 1) (rev (dec_nat (unat (v div 10)))), p + 1 + length (dec_nat (unat (v div 10))))"
      by (rule "1.IH" [OF w nz]) (use "1.prems" dec in simp)
    moreover have "put ?b (p + 1) (rev (dec_nat (unat (v div 10)))) = put buf p (rev (dec_nat (unat v)))"
      using lt by (simp add: dec put_def take_Suc_conv_app_nth)
    ultimately show ?thesis using w nz dec by (subst digit_loop.simps) simp
  qed
qed

lemma rev_swap_loop_spec:
  "i + k \<le> length buf \<Longrightarrow> rev_swap_loop buf (int i) (int i + int k - 1) = Some (put buf i (rev (take k (drop i buf))))"
proof (induction k arbitrary: buf i rule: less_induct)
  case (less k)
  show ?case
  proof (cases "k < 2")
    case True
    then have "k = 0 \<or> k = 1" by auto
    then have "rev (take k (drop i buf)) = take k (drop i buf)" by (cases "drop i buf") auto
    moreover have "put buf i (take k (drop i buf)) = buf"
      using less.prems by (simp add: put_def) (metis append_take_drop_id drop_drop add.commute)
    ultimately show ?thesis using True by (subst rev_swap_loop.simps) simp
  next
    case False
    define j where "j = i + k - 1"
    let ?b = "buf[i := buf ! j, j := buf ! i]"
    have j: "int i + int k - 1 = int j" "i < j" "j < length buf" using False less.prems by (auto simp: j_def)
    have "rev_swap_loop ?b (int (i + 1)) (int (i + 1) + int (k - 2) - 1) = Some (put ?b (i + 1) (rev (take (k - 2) (drop (i + 1) ?b))))"
      by (rule less.IH) (use False less.prems in simp_all)
    moreover have "int (i + 1) + int (k - 2) - 1 = int j - 1" using False by (simp add: j_def)
    moreover have "put ?b (i + 1) (rev (take (k - 2) (drop (i + 1) ?b))) = put buf i (rev (take k (drop i buf)))"
    proof (rule nth_equalityI)
      fix n assume "n < length (put ?b (i + 1) (rev (take (k - 2) (drop (i + 1) ?b))))"
      then have n: "n < length buf" using False less.prems by simp
      show "put ?b (i + 1) (rev (take (k - 2) (drop (i + 1) ?b))) ! n = put buf i (rev (take k (drop i buf))) ! n"
        using n False less.prems
        by (auto simp: j_def nth_put rev_nth nth_list_update) (rule arg_cong [where f = "\<lambda>x. buf ! x"], arith)
    qed (use False less.prems in simp)
    ultimately show ?thesis unfolding j(1) using j(2,3) by (subst rev_swap_loop.simps) (simp add: add.commute)
  qed
qed

lemma put_twice: "i + length xs \<le> length buf \<Longrightarrow> put (put buf i xs) (i + length xs) ys = put buf i (xs @ ys)"
  by (simp add: put_def ac_simps)

lemma put_again: "length xs = length ys \<Longrightarrow> i + length xs \<le> length buf \<Longrightarrow> put (put buf i (xs @ zs)) i ys = put buf i (ys @ zs)"
  by (simp add: put_def)

lemma wr_put: "n < length buf \<Longrightarrow> wr buf (int n) b = Some (put buf n [b])"
  by (simp add: put_def upd_conv_take_nth_drop)

lemma rev_front:
  assumes "length xs < length buf"
  shows "rev_swap_loop (put buf 0 (xs @ [0])) 0 (int (length xs) - 1) = Some (put buf 0 (rev xs @ [0]))"
proof -
  have "take (length xs) (put buf 0 (xs @ [0])) = xs" by (simp add: put_def)
  then show ?thesis
    using rev_swap_loop_spec [of 0 "length xs" "put buf 0 (xs @ [0])"] assms by (simp add: put_again [of _ "rev xs", simplified])
qed

lemma sdsull2str_spec:
  assumes "21 \<le> length buf"
  shows "sdsull2str buf v = Some (put buf 0 (dec_nat (unat v) @ [0]), length (dec_nat (unat v)))"
proof -
  have "unat v < 10 ^ 20" using unsigned_less [of v, where 'a = nat] by simp
  then have "length (dec_nat (unat v)) \<le> 20" by (rule length_dec_nat_le) simp
  then show ?thesis
    using assms digit_loop_spec [of 0 v buf] rev_front [of "rev (dec_nat (unat v))" buf]
      put_twice [of 0 "rev (dec_nat (unat v))" buf "[0]"]
    by (simp add: sdsull2str_def wr_put del: wr_nat)
qed

lemma sdsll2str_spec:
  assumes "21 \<le> length buf" "sint v \<noteq> LLONG_MIN"
  shows "sdsll2str buf v = Some (put buf 0 (dec_int (sint v) @ [0]), length (dec_int (sint v)))"
proof -
  define sign :: bytes where "sign = (if sint v < 0 then [45] else [])"
  define ds where "ds = rev (dec_nat (unat (magnitude v)))"
  have dec: "dec_int (sint v) = rev (ds @ sign)" by (simp add: dec_int_magnitude sign_def ds_def)
  have l: "length ds + length sign \<le> 20" using length_dec_int_le [of v] by (simp add: dec)
  have m: "(if sint v < 0 then - v else v) = magnitude v" by (simp add: magnitude_def)
  have "digit_loop buf 0 (magnitude v) = Some (put buf 0 ds, length ds)"
    using digit_loop_spec [of 0 "magnitude v" buf] assms(1) l by (simp add: ds_def)
  moreover have "(if sint v < 0 then do { s \<leftarrow> wr (put buf 0 ds) (int (length ds)) 45; Some (s, length ds + 1) }
      else Some (put buf 0 ds, length ds)) = Some (put buf 0 (ds @ sign), length ds + length sign)"
    using assms(1) l put_twice [of 0 ds buf "[45]"] by (auto simp: sign_def wr_put simp del: wr_nat)
  moreover have "wr (put buf 0 (ds @ sign)) (int (length ds + length sign)) 0 = Some (put buf 0 ((ds @ sign) @ [0]))"
    using assms(1) l put_twice [of 0 "ds @ sign" buf "[0]"] wr_put [of "length ds + length sign" "put buf 0 (ds @ sign)" 0] by simp
  ultimately show ?thesis
    using rev_front [of "ds @ sign" buf] assms l unfolding sdsll2str_def Let_def m by (simp add: dec)
qed

lemma sdsfromlonglong_spec:
  "sint v \<noteq> LLONG_MIN \<Longrightarrow> \<exists>s. sdsfromlonglong junk v = Some s \<and> sds_ok s \<and> sds_str s = dec_int (sint v)"
proof -
  assume v: "sint v \<noteq> LLONG_MIN"
  let ?buf = "put (map junk [0 ..< 21]) 0 (dec_int (sint v) @ [0])"
  have l: "length (dec_int (sint v)) \<le> 20" by (rule length_dec_int_le)
  then show ?thesis
    using sdsnewlen_spec [of "length (dec_int (sint v))" "dec_int (sint v)" "Some ?buf" junk]
      sdsll2str_spec [of "map junk [0 ..< 21]" v] v
    by (auto simp: sdsfromlonglong_def SDS_LLSTR_SIZE_def put_def)
qed

subsection \<open>Formatted appends\<close>

lemma vprintf_loop_id: "2 \<le> buflen \<Longrightarrow> 0 \<notin> set tx \<Longrightarrow> vprintf_loop buflen tx = tx"
proof (induction buflen tx rule: vprintf_loop.induct)
  case (1 buflen tx)
  show ?case
  proof (cases "buflen \<le> length tx + 1")
    case True
    then have "buflen - 2 < length tx" using "1.prems"(1) by linarith
    from nth_mem [OF this] have "tx ! (buflen - 2) \<noteq> 0" using "1.prems"(2) by metis
    then show ?thesis using "1.IH" "1.prems" True by (subst vprintf_loop.simps) simp
  qed (subst vprintf_loop.simps, simp)
qed

lemma cstring_id: "0 \<notin> set t \<Longrightarrow> cstring t = t"
  unfolding cstring_def by (rule takeWhile_eq_all_conv [THEN iffD2]) auto

text \<open>\<open>sdscatprintf\<close> appends the whole text, however long, when it holds no NUL byte.\<close>

lemma sdscatprintf_eq: "0 \<notin> set text \<Longrightarrow> sdscatprintf junk s fmt text = sdscatlen junk s text"
  by (simp add: sdscatprintf_def sdscatvprintf_def sdscat_def Let_def vprintf_loop_id cstring_id)

fun arg_text :: "u8 \<Rightarrow> fmt_arg \<Rightarrow> bytes option" where
  "arg_text c (Arg_str t) = (if c = 115 then Some (cstring t) else None)"
| "arg_text c (Arg_sds t) = (if c = 83 \<and> sds_ok t then Some (sds_str t) else None)"
| "arg_text c (Arg_int v) = (if (c = 105 \<or> c = 73) \<and> sint v \<noteq> LLONG_MIN then Some (dec_int (sint v)) else None)"
| "arg_text c (Arg_uint v) = (if c = 117 \<or> c = 85 then Some (dec_nat (unat v)) else None)"

text \<open>The text a format stands for; a format that ends in a percent sign has none.\<close>

fun fmt_text :: "bytes \<Rightarrow> fmt_arg list \<Rightarrow> bytes option" where
  "fmt_text [] args = None"
| "fmt_text (c # f) args =
     (if c = 0 then Some []
      else if c = 37 then
        (case f of
           [] \<Rightarrow> None
         | n # f \<Rightarrow>
             if n \<in> {115, 83, 105, 73, 117, 85} then
               (case args of
                  [] \<Rightarrow> None
                | a # rest \<Rightarrow> do { t \<leftarrow> arg_text n a; u \<leftarrow> fmt_text f rest; Some (t @ u) })
             else do { u \<leftarrow> fmt_text f args; Some (n # u) })
      else do { u \<leftarrow> fmt_text f args; Some (c # u) })"

lemma fmt_bytes_spec:
  "arg_text c a = Some t \<Longrightarrow> fmt_bytes junk c (a # rest) = Some (t, rest)"
  using sds_okD(1) length_dec_nat_le
  by (cases a) (auto simp: fmt_bytes_def rdn_def sdslen_def sds_str_def SDS_LLSTR_SIZE_def sdsll2str_spec sdsull2str_spec put_def
      split: if_splits dest: sds_okD(1))

text \<open>The state of the loop: \<open>t\<close> has been written and \<open>i\<close> is its length.\<close>

definition fmt_state :: "sds \<Rightarrow> int \<Rightarrow> bytes \<Rightarrow> bool" where
  "fmt_state s i t \<longleftrightarrow> sds_open s \<and> hdr_len s = length t \<and> i = int (length t) \<and> take (length t) (hdr_buf s) = t"

lemma fmt_put_spec:
  assumes "fmt_state s i t" "hdr_type s \<noteq> SDS_TYPE_5" "length bs \<le> sdsavail s" "length t + length bs < 2 ^ 31"
  shows "\<exists>s' i'. fmt_put s i bs = Some (s', i') \<and> fmt_state s' i' (t @ bs) \<and> hdr_type s' \<noteq> SDS_TYPE_5"
proof -
  have st: "sds_open s" "hdr_len s = length t" "i = int (length t)" "take (length t) (hdr_buf s) = t"
    using assms(1) by (simp_all add: fmt_state_def)
  have le: "length t + length bs \<le> sdsalloc s" using sdsavail_open [OF st(1)] assms(3) st(1,2) by (auto simp: sds_open_def)
  let ?buf = "put (hdr_buf s) (length t) bs"
  let ?s = "sdsinclen (s\<lparr>hdr_buf := ?buf\<rparr>) (length bs)"
  have fits: "length t + length bs < 2 ^ type_bits (hdr_type s)" "length t + length bs < length (hdr_buf s)"
    using le st(1) by (simp_all add: sds_open_def)
  have "fmt_put s i bs = Some (?s, int (length (t @ bs)))"
    using fits assms(4) st(3) by (simp add: fmt_put_def wrn_def int32_id)
  moreover have "sds_open ?s" "hdr_len ?s = length (t @ bs)" "hdr_type ?s = hdr_type s"
    using fits le st(1,2) assms(2) by (cases "hdr_type s"; simp add: sds_open_def sdsinclen_def sdsalloc_def)+
  moreover have "take (length (t @ bs)) (hdr_buf ?s) = t @ bs"
    using st(4) fits by (simp add: sdsinclen_def put_def)
  ultimately show ?thesis using assms(2) by (auto simp: fmt_state_def)
qed

lemma fmt_room:
  assumes "fmt_state s i t" "length t + n \<le> sds_max" "0 < n"
  shows "\<exists>s'. (if sdsavail s < n then sdsMakeRoomFor junk s n else Some s) = Some s' \<and> fmt_state s' i t \<and>
    hdr_type s' \<noteq> SDS_TYPE_5 \<and> n \<le> sdsavail s'"
proof (cases "sdsavail s < n")
  case True
  have st: "sds_open s" "hdr_len s = length t" using assms(1) by (simp_all add: fmt_state_def)
  then obtain s' where s': "sdsMakeRoomFor junk s n = Some s'" "sds_open s'" "hdr_len s' = hdr_len s"
    "take (hdr_len s + 1) (hdr_buf s') = take (hdr_len s + 1) (hdr_buf s)" "hdr_len s + n \<le> sdsalloc s'"
    "hdr_type s' \<noteq> SDS_TYPE_5"
    using sdsMakeRoomFor_open [of s n junk] assms(2,3) by auto
  from s'(4) have "take (hdr_len s) (hdr_buf s') = take (hdr_len s) (hdr_buf s)"
    by (metis le_add1 min.absorb1 take_take)
  then show ?thesis using s' st assms(1) True sdsavail_open [OF s'(2)] by (simp add: fmt_state_def)
next
  case False
  then have "hdr_type s \<noteq> SDS_TYPE_5" using assms(3) by (auto simp: sdsavail_def)
  then show ?thesis using False assms(1) by simp
qed

lemma fmt_append:
  assumes st: "fmt_state s i t" "hdr_type s \<noteq> SDS_TYPE_5" and len: "length t + length bs < 2 ^ 31"
  shows "\<exists>s1 s2 i2. (if sdsavail s < length bs then sdsMakeRoomFor junk s (length bs) else Some s) = Some s1 \<and>
    fmt_put s1 i bs = Some (s2, i2) \<and> fmt_state s2 i2 (t @ bs)"
proof (cases "bs = []")
  case True
  then show ?thesis using fmt_put_spec [OF st, of bs] len by auto
next
  case False
  then have "\<exists>s'. (if sdsavail s < length bs then sdsMakeRoomFor junk s (length bs) else Some s) = Some s' \<and> fmt_state s' i t \<and>
      hdr_type s' \<noteq> SDS_TYPE_5 \<and> length bs \<le> sdsavail s'"
    by (intro fmt_room [OF st(1)]) (use len in \<open>simp_all add: sds_max_def SDS_MAX_PREALLOC_def\<close>)
  then show ?thesis using fmt_put_spec [of _ i t bs] len by blast
qed

lemma catfmt_loop_spec:
  assumes "fmt_text fmt args = Some u" "fmt_state s i t" "length t + length u < 2 ^ 31"
  shows "\<exists>s' i'. catfmt_loop junk fmt args s i = Some (s', i') \<and> fmt_state s' i' (t @ u)"
  using assms
proof (induction fmt args arbitrary: s i t u rule: fmt_text.induct)
  case (2 c f args)
  show ?case
  proof (cases "c = 0")
    case True
    then show ?thesis using "2.prems" by simp
  next
    case nz: False
    have "\<exists>s'. (if sdsavail s < 1 then sdsMakeRoomFor junk s 1 else Some s) = Some s' \<and> fmt_state s' i t \<and>
        hdr_type s' \<noteq> SDS_TYPE_5 \<and> 1 \<le> sdsavail s'"
      by (rule fmt_room [OF "2.prems"(2)]) (use "2.prems"(3) in \<open>simp_all add: sds_max_def SDS_MAX_PREALLOC_def\<close>)
    then obtain s1 where s1: "(if sdsavail s = 0 then sdsMakeRoomFor junk s 1 else Some s) = Some s1" "fmt_state s1 i t"
      "hdr_type s1 \<noteq> SDS_TYPE_5" "1 \<le> sdsavail s1" by auto
    have one: "\<exists>s2 i2. fmt_put s1 i [x] = Some (s2, i2) \<and> fmt_state s2 i2 (t @ [x])" if "length t + 1 < 2 ^ 31" for x
      using fmt_put_spec [OF s1(2,3), of "[x]"] s1(4) that by auto
    show ?thesis
    proof (cases "c = 37")
      case False
      then obtain u' where u': "fmt_text f args = Some u'" "u = c # u'" using "2.prems"(1) nz by (auto simp: bind_eq_Some_conv)
      with one [of c] "2.prems"(3) obtain s2 i2 where "fmt_put s1 i [c] = Some (s2, i2)" "fmt_state s2 i2 (t @ [c])" by auto
      with "2.IH"(3) [OF nz False u'(1), of s2 i2 "t @ [c]"] "2.prems"(3) s1(1) u' nz False show ?thesis by simp
    next
      case pc: True
      then obtain n f' where f: "f = n # f'" using "2.prems"(1) by (cases f) simp_all
      show ?thesis
      proof (cases "n \<in> {115, 83, 105, 73, 117, 85}")
        case True
        with "2.prems"(1) pc f obtain a rest bs u' where u': "args = a # rest" "arg_text n a = Some bs" "fmt_text f' rest = Some u'" "u = bs @ u'"
          by (cases args) (auto simp: bind_eq_Some_conv simp del: insert_iff)
        obtain s2 s3 i3 where st: "(if sdsavail s1 < length bs then sdsMakeRoomFor junk s1 (length bs) else Some s1) = Some s2"
          "fmt_put s2 i bs = Some (s3, i3)" "fmt_state s3 i3 (t @ bs)"
          using fmt_append [OF s1(2,3), of bs junk] "2.prems"(3) u'(4) by auto
        with "2.IH"(1) [OF nz pc f True u'(1) u'(2) u'(3) st(3)] "2.prems"(3) s1(1) u' nz pc f True fmt_bytes_spec [OF u'(2)]
        show ?thesis by (simp del: insert_iff)
      next
        case False
        then obtain u' where u': "fmt_text f' args = Some u'" "u = n # u'" using "2.prems"(1) nz pc f
          by (auto simp: bind_eq_Some_conv simp del: insert_iff)
        with one [of n] "2.prems"(3) obtain s2 i2 where "fmt_put s1 i [n] = Some (s2, i2)" "fmt_state s2 i2 (t @ [n])" by auto
        with "2.IH"(2) [OF nz pc f False u'(1), of s2 i2 "t @ [n]"] "2.prems"(3) s1(1) u' nz pc f False show ?thesis
          by (simp del: insert_iff)
      qed
    qed
  qed
qed simp

lemma sdscatfmt_spec:
  assumes ok: "sds_ok s" and fmt: "fmt_text fmt args = Some u" and len: "hdr_len s + length u < 2 ^ 31"
  shows "\<exists>s'. sdscatfmt junk s fmt args = Some s' \<and> sds_ok s' \<and> sds_str s' = sds_str s @ u"
proof -
  have st: "fmt_state s (int (hdr_len s)) (sds_str s)" using ok sds_okD(2) [OF ok] by (simp add: fmt_state_def sds_ok_open sds_str_def)
  then obtain s1 i where s1: "catfmt_loop junk fmt args s (int (hdr_len s)) = Some (s1, i)" "fmt_state s1 i (sds_str s @ u)"
    using catfmt_loop_spec [OF fmt st, of junk] len sds_okD(2) [OF ok] by auto
  let ?t = "sds_str s @ u" and ?s = "s1\<lparr>hdr_buf := (hdr_buf s1)[hdr_len s1 := 0]\<rparr>"
  have o: "sds_open s1" "hdr_len s1 = length ?t" "i = int (length ?t)" "take (length ?t) (hdr_buf s1) = ?t"
    using s1(2) by (simp_all add: fmt_state_def)
  then have lt: "hdr_len s1 < length (hdr_buf s1)" by (simp add: sds_open_def)
  have "sds_ok ?s \<and> sds_str ?s = ?t"
    by (rule sds_okI) (use o lt take_upd_last [of "hdr_len s1" "hdr_buf s1" 0] in \<open>simp_all add: sds_open_def\<close>)
  moreover have "sdscatfmt junk s fmt args = Some ?s"
    using s1(1) o(2,3) lt len by (simp add: sdscatfmt_def sdslen_def int32_id wr_def nat_int_add)
  ultimately show ?thesis by blast
qed

subsection \<open>Splitting and joining are inverse\<close>

fun intercalate :: "'a list \<Rightarrow> 'a list list \<Rightarrow> 'a list" where
  "intercalate sep [] = []"
| "intercalate sep [x] = x"
| "intercalate sep (x # y # zs) = x @ sep @ intercalate sep (y # zs)"

lemma intercalate_Cons: "xs \<noteq> [] \<Longrightarrow> intercalate sep (x # xs) = x @ sep @ intercalate sep xs"
  by (cases xs) simp_all

lemma intercalate_snoc: "intercalate sep (xs @ [x]) = concat (map (\<lambda>t. t @ sep) xs) @ x"
  by (induction xs) (simp_all add: intercalate_Cons)

lemma join_loop_spec:
  assumes "\<forall>a \<in> set as. \<forall>s. sds_ok s \<and> length (sds_str s) + length (txt_of a) \<le> sds_max \<longrightarrow>
      (\<exists>s'. cat s a = Some s' \<and> sds_ok s' \<and> sds_str s' = sds_str s @ txt_of a)"
    "\<And>s. sds_ok s \<Longrightarrow> length (sds_str s) + length sep \<le> sds_max \<Longrightarrow> \<exists>s'. catsep s = Some s' \<and> sds_ok s' \<and> sds_str s' = sds_str s @ sep"
    "sds_ok join" "length (sds_str join) + length (intercalate sep (map txt_of as)) \<le> sds_max"
  shows "\<exists>s'. join_loop cat catsep join as = Some s' \<and> sds_ok s' \<and> sds_str s' = sds_str join @ intercalate sep (map txt_of as)"
  using assms(1,3,4)
proof (induction as arbitrary: join)
  case (Cons a as)
  have l: "length (sds_str join) + length (txt_of a) + (if as = [] then 0 else length sep + length (intercalate sep (map txt_of as))) \<le> sds_max"
    using Cons.prems(3) by (cases as) simp_all
  then obtain j1 where j1: "cat join a = Some j1" "sds_ok j1" "sds_str j1 = sds_str join @ txt_of a"
    using Cons.prems(1,2) by fastforce
  show ?case
  proof (cases "as = []")
    case True
    then show ?thesis using j1 by simp
  next
    case False
    then obtain j2 where j2: "catsep j1 = Some j2" "sds_ok j2" "sds_str j2 = sds_str join @ txt_of a @ sep"
      using assms(2) [OF j1(2)] j1(3) l by auto
    have "\<exists>s'. join_loop cat catsep j2 as = Some s' \<and> sds_ok s' \<and> sds_str s' = sds_str j2 @ intercalate sep (map txt_of as)"
      by (rule Cons.IH) (use Cons.prems(1) j2 l False in auto)
    then show ?thesis using False j1 j2 by (auto simp: intercalate_Cons)
  qed
qed simp

lemma sdsjoinsds_spec:
  assumes "\<forall>a \<in> set argv. sds_ok a" "length (intercalate sep (map sds_str argv)) \<le> sds_max"
  shows "\<exists>s. sdsjoinsds junk argv sep = Some s \<and> sds_ok s \<and> sds_str s = intercalate sep (map sds_str argv)"
proof -
  obtain e where e: "sdsempty junk = Some e" "sds_ok e" "sds_str e = []" using sdsempty_spec [of junk] by blast
  have "\<exists>s'. join_loop (sdscatsds junk) (\<lambda>s. sdscatlen junk s sep) e argv = Some s' \<and> sds_ok s' \<and>
      sds_str s' = sds_str e @ intercalate sep (map sds_str argv)"
  proof (rule join_loop_spec)
    show "\<forall>a \<in> set argv. \<forall>s. sds_ok s \<and> length (sds_str s) + length (sds_str a) \<le> sds_max \<longrightarrow>
      (\<exists>s'. sdscatsds junk s a = Some s' \<and> sds_ok s' \<and> sds_str s' = sds_str s @ sds_str a)"
      using assms(1) sdscatsds_spec sds_okD(2) by metis
  qed (use e assms(2) sb.app_law in auto)
  then show ?thesis using e by (simp add: sdsjoinsds_def)
qed

definition no_sep :: "bytes \<Rightarrow> bytes \<Rightarrow> bool" where
  "no_sep sep t \<longleftrightarrow> (\<forall>k. k + length sep \<le> length t \<longrightarrow> take (length sep) (drop k t) \<noteq> sep)"

lemma split_loop_spec:
  assumes "sep \<noteq> []" "length s < 2 ^ 31" "start \<le> j" "start \<le> length s" "length tokens < slots"
    "\<forall>t \<in> set tokens. sds_ok t \<and> no_sep sep (sds_str t)"
    "concat (map (\<lambda>t. sds_str t @ sep) tokens) = take start s"
    "\<forall>k. start \<le> k \<and> k < j \<and> k + length sep \<le> length s \<longrightarrow> take (length sep) (drop k s) \<noteq> sep"
  shows "\<exists>start' slots' tokens'. split_loop junk s sep j start slots tokens = Some (start', slots', tokens') \<and>
    start' \<le> length s \<and> length tokens' < slots' \<and> (\<forall>t \<in> set tokens'. sds_ok t \<and> no_sep sep (sds_str t)) \<and>
    concat (map (\<lambda>t. sds_str t @ sep) tokens') = take start' s \<and> no_sep sep (drop start' s)"
  using assms
proof (induction "length s + 1 - j" arbitrary: j start slots tokens rule: less_induct)
  case less
  show ?case
  proof (cases "j + length sep \<le> length s")
    case False
    have "no_sep sep (drop start s)" unfolding no_sep_def
    proof (intro allI impI)
      fix k assume "k + length sep \<le> length (drop start s)"
      then have "start + k < j" "start + k + length sep \<le> length s" using less.prems(4) False by auto
      then have "take (length sep) (drop (start + k) s) \<noteq> sep" using less.prems(8) by simp
      then show "take (length sep) (drop k (drop start s)) \<noteq> sep" by (simp add: add.commute)
    qed
    moreover have "\<not> int j < int (length s) - (int (length sep) - 1)" using False by linarith
    ultimately show ?thesis using less.prems by (subst split_loop.simps) simp
  next
    case True
    let ?slots = "if slots < length tokens + 2 then slots * 2 else slots"
    have slots: "length tokens + 2 \<le> ?slots" using less.prems(5) by auto
    have go: "int j < int (length s) - (int (length sep) - 1)" using True by linarith
    have rdj: "rdn s j (length sep) = Some (take (length sep) (drop j s))" using True by (simp add: rdn_def)
    show ?thesis
    proof (cases "take (length sep) (drop j s) = sep")
      case ne: False
      have eq: "split_loop junk s sep j start slots tokens = split_loop junk s sep (j + 1) start ?slots tokens"
        using go rdj ne by (subst split_loop.simps) simp
      have "\<forall>k. start \<le> k \<and> k < j + 1 \<and> k + length sep \<le> length s \<longrightarrow> take (length sep) (drop k s) \<noteq> sep"
        using less.prems(8) ne by (auto simp: less_Suc_eq)
      then show ?thesis unfolding eq by (intro less.hyps) (use True less.prems slots in auto)
    next
      case found: True
      let ?b = "take (j - start) (drop start s)"
      have "rdn s start (j - start) = Some ?b" using less.prems(3) True by (simp add: rdn_def)
      moreover have l: "j - start + 18 < 2 ^ 64" "j - start \<le> length ?b" using less.prems(2,3) True by auto
      obtain t where t: "sdsnewlen junk (Some ?b) (j - start) = Some t" "sds_ok t" "sds_str t = ?b"
        using sdsnewlen_spec [of "j - start" ?b "Some ?b" junk] l by auto
      note t(1)
      moreover have "add_token ?slots tokens t = Some (tokens @ [t])" using slots by (simp add: add_token_def)
      moreover have "max (j + 1) (j + length sep) = j + length sep" using less.prems(1) by (cases sep) simp_all
      ultimately have eq: "split_loop junk s sep j start slots tokens =
          split_loop junk s sep (j + length sep) (j + length sep) ?slots (tokens @ [t])"
        using go rdj found by (subst split_loop.simps) simp
      have "no_sep sep (sds_str t)" unfolding no_sep_def
      proof (intro allI impI)
        fix k assume k: "k + length sep \<le> length (sds_str t)"
        then have "start + k < j" "start + k + length sep \<le> length s" using t(3) less.prems(1,3,4) True by (auto simp: neq_Nil_conv)
        moreover have "length sep \<le> j - (k + start)" using k t(3) by auto
        then have "take (length sep) (drop k (sds_str t)) = take (length sep) (drop (start + k) s)"
          using t(3) by (simp add: drop_take min_absorb1 add.commute)
        ultimately show "take (length sep) (drop k (sds_str t)) \<noteq> sep" using less.prems(8) by simp
      qed
      moreover have "concat (map (\<lambda>t. sds_str t @ sep) (tokens @ [t])) = take (j + length sep) s"
      proof -
        have "take (j + length sep) s = take j s @ sep" using found by (simp add: take_add)
        moreover have "take j s = take start s @ ?b" using take_add [of start "j - start" s] less.prems(3) by simp
        ultimately show ?thesis using less.prems(7) t(3) by simp
      qed
      moreover have "length s + 1 - (j + length sep) < length s + 1 - j" using less.prems(1) True by (cases sep) auto
      ultimately show ?thesis unfolding eq by (intro less.hyps) (use True less.prems slots t(2) in auto)
    qed
  qed
qed

lemma sdssplitlen_spec:
  assumes "sep \<noteq> []" "s \<noteq> []" "length s < 2 ^ 31"
  shows "\<exists>tokens. sdssplitlen junk s sep = Some (Some tokens) \<and> (\<forall>t \<in> set tokens. sds_ok t \<and> no_sep sep (sds_str t)) \<and>
    intercalate sep (map sds_str tokens) = s"
proof -
  obtain start slots tokens where sp: "split_loop junk s sep 0 0 5 [] = Some (start, slots, tokens)" "start \<le> length s"
    "length tokens < slots" "\<forall>t \<in> set tokens. sds_ok t \<and> no_sep sep (sds_str t)"
    "concat (map (\<lambda>t. sds_str t @ sep) tokens) = take start s" "no_sep sep (drop start s)"
    using split_loop_spec [of sep s 0 0 "[]" 5 junk] assms by auto
  have "length s - start + 18 < 2 ^ 64" using assms(3) by simp
  then obtain t where t: "sdsnewlen junk (Some (drop start s)) (length s - start) = Some t" "sds_ok t" "sds_str t = drop start s"
    using sdsnewlen_spec [of "length s - start" "drop start s" "Some (drop start s)" junk] by auto
  have "sdssplitlen junk s sep = Some (Some (tokens @ [t]))"
    using sp(1,2,3) t(1) assms by (simp add: sdssplitlen_def rdn_def add_token_def Suc_le_eq)
  moreover have "intercalate sep (map sds_str (tokens @ [t])) = s"
    using sp(5) t(3) by (simp add: intercalate_snoc comp_def)
  ultimately show ?thesis using sp(4,6) t(2,3) by (intro exI [of _ "tokens @ [t]"]) auto
qed

subsection \<open>Quoted representation\<close>

definition repr_char :: "u8 \<Rightarrow> bytes" where
  "repr_char c =
     (if c = 92 \<or> c = 34 then [92, c]
      else if c = 10 then [92, 110] else if c = 13 then [92, 114] else if c = 9 then [92, 116]
      else if c = 7 then [92, 97] else if c = 8 then [92, 98]
      else if isprint c then [c]
      else [92, 120, hex_char (unat c div 16), hex_char (unat c mod 16)])"

definition repr_text :: "bytes \<Rightarrow> bytes" where
  "repr_text p = 34 # concat (map repr_char p) @ [34]"

lemma hex_char_facts:
  assumes "n < 16"
  shows "is_hex_digit (hex_char n)" "hex_digit_to_int (hex_char n) = n" "hex_char n \<noteq> 0"
proof -
  have "\<forall>n \<in> set [0 ..< 16]. is_hex_digit (hex_char n) \<and> hex_digit_to_int (hex_char n) = n \<and> hex_char n \<noteq> 0"
    by (simp add: upt_rec is_hex_digit_def hex_digit_to_int_def hex_char_def)
  then show "is_hex_digit (hex_char n)" "hex_digit_to_int (hex_char n) = n" "hex_char n \<noteq> 0" using assms by auto
qed

lemma hex_nibbles: "unat (c :: u8) div 16 < 16" "unat c mod 16 < 16" "word_of_nat (unat c div 16 * 16 + unat c mod 16) = c"
  using unsigned_less [of c, where 'a = nat] by simp_all

lemma isprint_nonzero: "isprint c \<Longrightarrow> c \<noteq> 0"
  by (auto simp: isprint_def)

lemma catrepr_char_eq: "catrepr_char junk s c = sdscatlen junk s (repr_char c)"
  using hex_char_facts(3) [OF hex_nibbles(1), of c] hex_char_facts(3) [OF hex_nibbles(2), of c]
  by (auto simp: catrepr_char_def repr_char_def sdscatprintf_eq isprint_nonzero)

lemma catrepr_loop_eq: "catrepr_loop junk s p = append_all (sdscatlen junk) s (map repr_char p)"
  by (induction p arbitrary: s) (simp_all add: catrepr_char_eq)

lemma sdscatrepr_spec:
  assumes "sds_ok s" "length (sds_str s) + length (repr_text p) \<le> sds_max"
  shows "\<exists>s'. sdscatrepr junk s p = Some s' \<and> sds_ok s' \<and> sds_str s' = sds_str s @ repr_text p"
proof -
  have "sdscatrepr junk s p = append_all (sdscatlen junk) s ([34] # map repr_char p @ [[34]])"
    by (simp add: sdscatrepr_def catrepr_loop_eq append_all_append)
  then show ?thesis using sb.append_all_law [of s "[34] # map repr_char p @ [[34]]" junk] assms by (simp add: repr_text_def)
qed

lemma arg_loop_plain:
  "c \<noteq> 92 \<Longrightarrow> c \<noteq> 34 \<Longrightarrow> c \<noteq> 0 \<Longrightarrow>
    arg_loop junk Dquote (c # q) cur = do { cur \<leftarrow> sdscatlen junk cur [c]; arg_loop junk Dquote q cur }"
  by (subst arg_loop.simps) (simp add: rd_def)

lemma arg_loop_escape:
  "c \<noteq> 120 \<Longrightarrow> c \<noteq> 0 \<Longrightarrow>
    arg_loop junk Dquote (92 # c # q) cur = do { cur \<leftarrow> sdscatlen junk cur [unescape c]; arg_loop junk Dquote q cur }"
  by (subst arg_loop.simps) (simp add: rd_def hex_escape_def)

lemma arg_loop_hex:
  "is_hex_digit c \<Longrightarrow> is_hex_digit d \<Longrightarrow>
    arg_loop junk Dquote (92 # 120 # c # d # q) cur =
    do { cur \<leftarrow> sdscatlen junk cur [word_of_nat (hex_digit_to_int c * 16 + hex_digit_to_int d)]; arg_loop junk Dquote q cur }"
  by (subst arg_loop.simps) (simp add: rd_def hex_escape_def)

lemma arg_loop_char:
  assumes "sdscatlen junk cur [c] = Some cur'"
  shows "arg_loop junk Dquote (repr_char c @ q) cur = arg_loop junk Dquote q cur'"
proof (cases "c \<in> {92, 34, 10, 13, 9, 7, 8}")
  case True
  then have "\<exists>d. repr_char c = [92, d] \<and> d \<noteq> 120 \<and> d \<noteq> 0 \<and> unescape d = c"
    by (auto simp: repr_char_def unescape_def)
  then show ?thesis using assms by (auto simp: arg_loop_escape)
next
  case False
  show ?thesis
  proof (cases "isprint c")
    case True
    then show ?thesis using False assms isprint_nonzero [OF True] by (simp add: repr_char_def arg_loop_plain)
  next
    case np: False
    then have r: "repr_char c = [92, 120, hex_char (unat c div 16), hex_char (unat c mod 16)]"
      using False by (simp add: repr_char_def)
    show ?thesis unfolding r using assms
      by (simp add: arg_loop_hex hex_char_facts hex_nibbles del: of_nat_add of_nat_mult)
  qed
qed

lemma arg_loop_repr:
  assumes "sds_ok cur" "length (sds_str cur) + length p \<le> sds_max" "c = 0 \<or> isspace c"
  shows "\<exists>cur'. arg_loop junk Dquote (concat (map repr_char p) @ 34 # c # q) cur = Some (Some (c # q, cur')) \<and> sds_ok cur' \<and>
    sds_str cur' = sds_str cur @ p"
  using assms(1,2)
proof (induction p arbitrary: cur)
  case Nil
  then show ?case using assms(3) by (subst arg_loop.simps) (auto simp: rd_def)
next
  case (Cons x p)
  obtain cur1 where c1: "sdscatlen junk cur [x] = Some cur1" "sds_ok cur1" "sds_str cur1 = sds_str cur @ [x]"
    using sb.app_law [OF Cons.prems(1), of "[x]" junk] Cons.prems(2) by auto
  then show ?case using Cons.IH [of cur1] Cons.prems(2) arg_loop_char [OF c1(1)] by simp
qed

lemma splitargs_step:
  assumes "length p \<le> sds_max" "c = 0 \<or> isspace c"
  shows "\<exists>t. splitargs_loop junk (repr_text p @ c # q) vec = splitargs_loop junk (c # q) (vec @ [t]) \<and> sds_ok t \<and> sds_str t = p"
proof -
  obtain e where e: "sdsempty junk = Some e" "sds_ok e" "sds_str e = []" using sdsempty_spec [of junk] by blast
  obtain t where t: "arg_loop junk Dquote (concat (map repr_char p) @ 34 # c # q) e = Some (Some (c # q, t))" "sds_ok t" "sds_str t = p"
    using arg_loop_repr [OF e(2), of p c junk q] e(3) assms by auto
  have "arg_loop junk Plain (repr_text p @ c # q) e = Some (Some (c # q, t))"
    using t(1) by (subst arg_loop.simps) (simp add: repr_text_def rd_def)
  moreover have "skip_blanks (repr_text p @ c # q) = Some (repr_text p @ c # q)" "rd (repr_text p @ c # q) 0 = Some 34"
    by (simp_all add: repr_text_def isspace_def rd_def)
  ultimately show ?thesis using e(1) t(2,3) by (subst splitargs_loop.simps) auto
qed

lemma splitargs_blank: "isspace c \<Longrightarrow> c \<noteq> 0 \<Longrightarrow> splitargs_loop junk (c # q) vec = splitargs_loop junk q vec"
  by (subst (1 2) splitargs_loop.simps) simp

lemma splitargs_repr:
  assumes "\<forall>p \<in> set ps. length p \<le> sds_max"
  shows "\<exists>ts. splitargs_loop junk (intercalate [32] (map repr_text ps) @ [0]) vec = Some (Some (vec @ ts)) \<and>
    (\<forall>t \<in> set ts. sds_ok t) \<and> map sds_str ts = ps"
  using assms
proof (induction ps arbitrary: vec)
  case Nil
  then show ?case by (subst splitargs_loop.simps) (simp add: rd_def)
next
  case (Cons p ps)
  show ?case
  proof (cases "ps = []")
    case True
    obtain t where "splitargs_loop junk (repr_text p @ 0 # []) vec = splitargs_loop junk (0 # []) (vec @ [t])" "sds_ok t" "sds_str t = p"
      using splitargs_step [of p 0 junk "[]" vec] Cons.prems by auto
    moreover have "splitargs_loop junk [0] (vec @ [t]) = Some (Some (vec @ [t]))"
      by (subst splitargs_loop.simps) (simp add: rd_def)
    ultimately show ?thesis using True by (intro exI [of _ "[t]"]) simp
  next
    case False
    let ?q = "intercalate [32] (map repr_text ps) @ [0]"
    obtain t where t: "splitargs_loop junk (repr_text p @ 32 # ?q) vec = splitargs_loop junk (32 # ?q) (vec @ [t])" "sds_ok t" "sds_str t = p"
      using splitargs_step [of p 32 junk ?q vec] Cons.prems by (auto simp: isspace_def)
    obtain ts where "splitargs_loop junk ?q (vec @ [t]) = Some (Some ((vec @ [t]) @ ts))" "\<forall>t \<in> set ts. sds_ok t" "map sds_str ts = ps"
      using Cons.IH [of "vec @ [t]"] Cons.prems by auto
    then show ?thesis using t False splitargs_blank [of 32 junk ?q "vec @ [t]"]
      by (intro exI [of _ "t # ts"]) (simp add: intercalate_Cons isspace_def)
  qed
qed

subsection \<open>Splitting any line is safe\<close>

text \<open>What is left of a line always ends in its terminator.\<close>

definition terminated :: "bytes \<Rightarrow> bool" where
  "terminated p \<longleftrightarrow> p \<noteq> [] \<and> last p = 0"

lemma terminated_rd:
  assumes "terminated (drop k p)"
  shows "\<exists>b. rd p (int k) = Some b \<and> (b = 0 \<or> terminated (drop (k + 1) p))"
proof -
  have k: "k < length p" using assms by (cases "k < length p") (simp_all add: terminated_def)
  then have "p ! k = 0 \<or> terminated (drop (k + 1) p)"
    using assms by (cases "Suc k = length p") (auto simp: terminated_def last_drop Cons_nth_drop_Suc [symmetric])
  with k show ?thesis by simp
qed

lemma terminated_rds:
  "terminated p \<Longrightarrow> \<exists>b. rd p 0 = Some b \<and> (b = 0 \<or> terminated (drop 1 p))"
  "terminated (drop 1 p) \<Longrightarrow> \<exists>b. rd p 1 = Some b \<and> (b = 0 \<or> terminated (drop 2 p))"
  "terminated (drop 2 p) \<Longrightarrow> \<exists>b. rd p 2 = Some b \<and> (b = 0 \<or> terminated (drop 3 p))"
  "terminated (drop 3 p) \<Longrightarrow> \<exists>b. rd p 3 = Some b \<and> (b = 0 \<or> terminated (drop 4 p))"
  using terminated_rd [of 0 p] terminated_rd [of 1 p] terminated_rd [of 2 p] terminated_rd [of 3 p] by (simp_all add: numeral_eq_Suc)

definition arg_safe :: "(bytes \<times> sds) option option \<Rightarrow> bool" where
  "arg_safe r \<longleftrightarrow> (\<exists>res. r = Some res \<and>
     (case res of None \<Rightarrow> True | Some (p', cur') \<Rightarrow> terminated p' \<and> sds_ok cur'))"

lemma arg_safe_simps [simp]:
  "arg_safe (Some None)" "arg_safe (Some (Some (p', cur'))) \<longleftrightarrow> terminated p' \<and> sds_ok cur'"
  by (auto simp: arg_safe_def)

lemma hex_escape_safe:
  assumes "terminated (drop 1 p)"
  shows "hex_escape p = Some False \<or>
    (\<exists>b d. hex_escape p = Some True \<and> rd p 2 = Some b \<and> rd p 3 = Some d \<and> terminated (drop 4 p))"
proof -
  have h: "\<not> is_hex_digit 0" by (simp add: is_hex_digit_def)
  obtain a where a: "rd p 1 = Some a" "a = 0 \<or> terminated (drop 2 p)" using terminated_rds(2) [OF assms] by blast
  show ?thesis
  proof (cases "a = 120")
    case True
    then obtain b where b: "rd p 2 = Some b" "b = 0 \<or> terminated (drop 3 p)" using a(2) terminated_rds(3) by auto
    show ?thesis
    proof (cases "is_hex_digit b")
      case hb: True
      then have "b \<noteq> 0" using h by auto
      then obtain d where d: "rd p 3 = Some d" "d = 0 \<or> terminated (drop 4 p)" using b(2) terminated_rds(4) by auto
      then show ?thesis using True a b hb h by (cases "is_hex_digit d") (auto simp: hex_escape_def)
    qed (use True a b in \<open>simp add: hex_escape_def\<close>)
  qed (use a in \<open>simp add: hex_escape_def\<close>)
qed

lemma arg_loop_safe:
  "terminated p \<Longrightarrow> sds_ok cur \<Longrightarrow> length (sds_str cur) + length p \<le> sds_max \<Longrightarrow> arg_safe (arg_loop junk mode p cur)"
proof (induction "length p" arbitrary: mode p cur rule: less_induct)
  case less
  have p: "p \<noteq> []" using less.prems(1) by (simp add: terminated_def)
  have go: "arg_safe (arg_loop junk m (drop k p) cur)" if "terminated (drop k p)" "0 < k" for m k
  proof -
    have "length (drop k p) < length p" using p that(2) by (cases p) simp_all
    then show ?thesis using less.hyps [of "drop k p" cur m] that less.prems by auto
  qed
  have put: "arg_safe (sdscatlen junk cur [b] \<bind> arg_loop junk m (drop k p))" if "terminated (drop k p)" "0 < k" for m k b
  proof -
    have l: "length (drop k p) < length p" using p that(2) by (cases p) simp_all
    obtain cur' where c: "sdscatlen junk cur [b] = Some cur'" "sds_ok cur'" "sds_str cur' = sds_str cur @ [b]"
      using sb.app_law [OF less.prems(2), of "[b]" junk] less.prems(3) p by (cases p) auto
    then show ?thesis using less.hyps [OF l that(1) c(2)] l less.prems(3) by simp
  qed
  obtain c where c: "rd p 0 = Some c" "c = 0 \<or> terminated (drop 1 p)" using terminated_rds(1) [OF less.prems(1)] by blast
  show ?case
  proof (cases "c = 0")
    case True
    then show ?thesis using c(1) less.prems by (subst arg_loop.simps) (auto split: quote_mode.split)
  next
    case False
    then have t: "terminated (drop 1 p)" using c(2) by simp
    then obtain b where b: "rd p 1 = Some b" "b = 0 \<or> terminated (drop 2 p)" using terminated_rds(2) by blast
    have sq: "\<not> isspace 0" by (simp add: isspace_def)
    show ?thesis using False c(1) t b less.prems go [OF t] put [OF t] go [of 2] put [of 2] put [of 4] hex_escape_safe [OF t]
      by (subst arg_loop.simps) (auto split: quote_mode.split)
  qed
qed

lemma skip_blanks_safe: "terminated p \<Longrightarrow> \<exists>q. skip_blanks p = Some q \<and> terminated q \<and> length q \<le> length p"
proof (induction p)
  case (Cons a p)
  then show ?case by (cases "p = []") (auto simp: terminated_def)
qed (simp add: terminated_def)

lemma splitargs_safe:
  assumes "length p \<le> sds_max" "terminated p" "list_all sds_ok vec"
  shows "\<exists>res. splitargs_loop junk p vec = Some res \<and> (\<forall>args. res = Some args \<longrightarrow> list_all sds_ok args)"
  using assms
proof (induction "length p" arbitrary: p vec rule: less_induct)
  case less
  obtain q where q: "skip_blanks p = Some q" "terminated q" "length q \<le> length p" using skip_blanks_safe [OF less.prems(2)] by blast
  obtain c where c: "rd q 0 = Some c" using terminated_rds(1) [OF q(2)] by blast
  show ?case
  proof (cases "c = 0")
    case True
    then show ?thesis using q c less.prems by (subst splitargs_loop.simps) simp
  next
    case False
    obtain e where e: "sdsempty junk = Some e" "sds_ok e" "sds_str e = []" using sdsempty_spec [of junk] by blast
    then have s: "arg_safe (arg_loop junk Plain q e)" using arg_loop_safe [OF q(2), of e junk Plain] q(3) less.prems(1) by simp
    have hd: "hd q \<noteq> 0" using c False q(2) by (auto simp: rd_def hd_conv_nth terminated_def split: if_splits)
    from s consider "arg_loop junk Plain q e = Some None" | p' cur' where "arg_loop junk Plain q e = Some (Some (p', cur'))" "terminated p'" "sds_ok cur'"
      unfolding arg_safe_def by (metis (no_types, lifting) case_prod_conv option.exhaust option.simps(5) surj_pair)
    then show ?thesis
    proof cases
      case 1
      then show ?thesis using q c e False by (subst splitargs_loop.simps) simp
    next
      case 2
      then have "length p' < length p" using arg_loop_progress [OF 2(1)] hd q(3) by simp
      then show ?thesis using less.hyps [of p' "vec @ [cur']"] 2 q c e False less.prems by (subst splitargs_loop.simps) simp
    qed
  qed
qed

lemma sdssplitargs_safe:
  "length line < sds_max \<Longrightarrow> \<exists>res. sdssplitargs junk (line @ [0]) = Some res \<and> (\<forall>args. res = Some args \<longrightarrow> list_all sds_ok args)"
  using splitargs_safe [of "line @ [0]" "[]" junk] by (simp add: sdssplitargs_def terminated_def)

subsection \<open>Properties\<close>

text \<open>C29: Quoting with \<open>sdscatrepr\<close> and parsing with \<open>sdssplitargs\<close> are inverse: for any binary strings, the
  line of their representations separated by blanks is split into exactly these strings, without
  reading behind the terminator of the line.\<close>

theorem sdssplitargs_sdscatrepr:
  assumes "\<forall>p \<in> set ps. length (repr_text p) \<le> sds_max"
  shows "\<exists>reprs ts. those (map (\<lambda>p. sdsempty junk \<bind> (\<lambda>e. sdscatrepr junk e p)) ps) = Some reprs \<and>
    sdssplitargs junk (intercalate [32] (map sds_str reprs) @ [0]) = Some (Some ts) \<and>
    list_all sds_ok ts \<and> map sds_str ts = ps"
proof -
  obtain e where e: "sdsempty junk = Some e" "sds_ok e" "sds_str e = []" using sdsempty_spec [of junk] by blast
  have "\<exists>r. sdscatrepr junk e p = Some r \<and> sds_str r = repr_text p" if "p \<in> set ps" for p
    using sdscatrepr_spec [OF e(2), of p junk] assms that e(3) by auto
  then have "\<exists>reprs. those (map (\<lambda>p. sdsempty junk \<bind> (\<lambda>e. sdscatrepr junk e p)) ps) = Some reprs \<and>
      map sds_str reprs = map repr_text ps" using e(1) by (induction ps) fastforce+
  moreover have "\<forall>p \<in> set ps. length p \<le> sds_max"
  proof
    fix p assume "p \<in> set ps"
    have "length p \<le> length (concat (map repr_char p))"
      by (induction p) (auto simp: repr_char_def)
    then show "length p \<le> sds_max" using assms \<open>p \<in> set ps\<close> by (fastforce simp: repr_text_def)
  qed
  ultimately show ?thesis using splitargs_repr [of ps junk "[]"] by (auto simp: sdssplitargs_def list_all_iff)
qed

theorem sdssplitargs_sdscatrepr_witness:
  "\<exists>reprs ts. those (map (\<lambda>p. sdsempty (\<lambda>_. 7) \<bind> (\<lambda>e. sdscatrepr (\<lambda>_. 7) e p)) [[0, 34, 255], str ''a b'', []]) = Some reprs \<and>
    sdssplitargs (\<lambda>_. 7) (intercalate [32] (map sds_str reprs) @ [0]) = Some (Some ts) \<and>
    list_all sds_ok ts \<and> map sds_str ts = [[0, 34, 255], str ''a b'', []]"
  by (rule sdssplitargs_sdscatrepr)
    (simp add: repr_text_def repr_char_def isprint_def str_def sds_max_def SDS_MAX_PREALLOC_def)

text \<open>C30: \<open>sdssplitlen\<close> never writes outside of its growing array of tokens, no token contains the
  separator, and joining the tokens with \<open>sdsjoinsds\<close> gives back the string.\<close>

theorem sdssplitlen_sdsjoinsds:
  assumes "sep \<noteq> []" "s \<noteq> []" "length s < 2 ^ 31"
  shows "\<exists>tokens j. sdssplitlen junk s sep = Some (Some tokens) \<and> (\<forall>t \<in> set tokens. sds_ok t \<and> no_sep sep (sds_str t)) \<and>
    sdsjoinsds junk tokens sep = Some j \<and> sds_ok j \<and> sds_str j = s"
proof -
  obtain tokens where t: "sdssplitlen junk s sep = Some (Some tokens)" "\<forall>t \<in> set tokens. sds_ok t \<and> no_sep sep (sds_str t)"
    "intercalate sep (map sds_str tokens) = s" using sdssplitlen_spec [OF assms] by blast
  have "length s \<le> sds_max" using assms(3) by (simp add: sds_max_def SDS_MAX_PREALLOC_def)
  then show ?thesis using t sdsjoinsds_spec [of tokens sep junk] by auto
qed

theorem sdssplitlen_sdsjoinsds_witness:
  "\<exists>tokens j. sdssplitlen (\<lambda>_. 7) (str ''foo_-_bar'') (str ''_-_'') = Some (Some tokens) \<and>
    sdsjoinsds (\<lambda>_. 7) tokens (str ''_-_'') = Some j \<and> sds_str j = str ''foo_-_bar''"
  using sdssplitlen_sdsjoinsds [of "str ''_-_''" "str ''foo_-_bar''" "\<lambda>_. 7"] by (simp add: str_def) blast




text \<open>C33: The two integer printers of the code base agree: \<open>sdsll2str\<close> and \<open>ll2string\<close> write the same bytes,
  terminator included, and return the same length, on every value but the most negative one, whose
  negation overflows in \<open>sdsll2str\<close>.\<close>

theorem sdsll2str_ll2string:
  assumes "21 \<le> length buf" "sint v \<noteq> LLONG_MIN"
  shows "sdsll2str buf v = ll2string buf (length buf) v"
proof -
  have "length (dec_int (sint v)) \<le> 20" by (rule length_dec_int_le)
  then show ?thesis
    using assms ll2string_spec [of "length buf" buf v] sdsll2str_spec [OF assms] by (simp add: put_def)
qed

theorem sdsll2str_ll2string_witness:
  "sdsll2str (replicate 21 0) (- 5) = ll2string (replicate 21 0) (length (replicate 21 (0 :: u8))) (- 5)"
  by (rule sdsll2str_ll2string) simp_all

end
