(* ===== verification/Request.thy ===== *)
theory Request
  imports Reply Sds_Text
begin

unbundle bit_operations_syntax

text \<open>
  The input side of a client connection (\<open>src/networking.c\<close>): parsing the query buffer in the inline
  and in the multi bulk format, protocol errors, and the loop that executes the commands found in
  the buffer. The query buffer is its contents; \<open>sdsrange\<close> on it is \<open>str_range\<close>, which the theory of
  \<open>sds.c\<close> proves of the implementation. Executing a command is an argument.
\<close>

subsection \<open>Parsing\<close>

abbreviation (input) PROTO_INLINE_MAX_SIZE :: nat where "PROTO_INLINE_MAX_SIZE \<equiv> 65536"
abbreviation (input) PROTO_MBULK_BIG_ARG :: int where "PROTO_MBULK_BIG_ARG \<equiv> 32768"
abbreviation (input) PROTO_REQ_INLINE :: nat where "PROTO_REQ_INLINE \<equiv> 1"
abbreviation (input) PROTO_REQ_MULTIBULK :: nat where "PROTO_REQ_MULTIBULK \<equiv> 2"

text \<open>\<open>strchr\<close> on the contents of an \<open>sds\<close>: it stops at a NUL byte or at the terminator.\<close>

definition strchr :: "bytes \<Rightarrow> u8 \<Rightarrow> nat option" where
  "strchr s ch =
     (let k = length (takeWhile (\<lambda>b. b \<noteq> ch \<and> b \<noteq> 0) s) in
      if k < length s \<and> s ! k = ch then Some k else None)"

text \<open>\<open>(signed)sdslen(s)\<close>\<close>

definition signed_len :: "bytes \<Rightarrow> int" where
  "signed_len s = signed_take_bit 31 (int (length s))"

definition trim_query :: "int \<Rightarrow> client \<Rightarrow> client" where
  "trim_query pos c = c\<lparr>querybuf := str_range (querybuf c) pos (- 1)\<rparr>"

definition setProtocolError :: "client \<Rightarrow> int \<Rightarrow> client" where
  "setProtocolError c pos = trim_query pos (c\<lparr>flags := flags c OR CLIENT_CLOSE_AFTER_REPLY\<rparr>)"

definition protocol_error :: "net \<times> client \<Rightarrow> bytes \<Rightarrow> int \<Rightarrow> (net \<times> client) option" where
  "protocol_error nc err pos = do {
     (n, c) \<leftarrow> addReplyError nc err;
     Some (n, setProtocolError c pos) }"

definition processInlineBuffer :: "(nat \<Rightarrow> u8) \<Rightarrow> net \<times> client \<Rightarrow> (bool \<times> net \<times> client) option" where
  "processInlineBuffer junk nc =
     (let (n, c) = nc; q = querybuf c in
      case strchr q 10 of
        None \<Rightarrow>
          if length q > PROTO_INLINE_MAX_SIZE
          then do { nc \<leftarrow> protocol_error nc (str ''Protocol error: too big inline request'') 0; Some (False, nc) }
          else Some (False, nc)
      | Some newline \<Rightarrow>
          let newline = (if newline \<noteq> 0 \<and> q ! (newline - 1) = 13 then newline - 1 else newline);
              querylen = newline
          in do {
            res \<leftarrow> sdssplitargs junk (take querylen q @ [0]);
            case res of
              None \<Rightarrow> do {
                nc \<leftarrow> protocol_error nc (str ''Protocol error: unbalanced quotes in request'') 0;
                Some (False, nc) }
            | Some args \<Rightarrow>
                let c = (if querylen = 0 \<and> has c CLIENT_SLAVE then c\<lparr>repl_ack_time := unixtime n\<rparr> else c);
                    c = trim_query (int querylen + 2) c;
                    c = c\<lparr>argv := map (Str_obj \<circ> sds_str) (filter (\<lambda>a. sdslen a \<noteq> 0) args)\<rparr>
                in Some (True, n, c) })"

text \<open>One pass of the loop of \<open>processMultibulkBuffer\<close> goes on, waits for more input (\<open>break\<close>) or has
  reported a protocol error.\<close>

datatype 'a outcome = Go 'a | Wait 'a | Fail 'a

definition fail_at :: "net \<times> client \<Rightarrow> bytes \<Rightarrow> int \<Rightarrow> (nat \<times> net \<times> client) outcome option" where
  "fail_at nc err pos = do { nc \<leftarrow> protocol_error nc err pos; Some (Fail (0, nc)) }"

definition read_bulklen :: "nat \<Rightarrow> net \<times> client \<Rightarrow> (nat \<times> net \<times> client) outcome option" where
  "read_bulklen pos nc =
     (let (n, c) = nc; q = querybuf c in
      if pos > length q then None
      else case strchr (drop pos q) 13 of
        None \<Rightarrow>
          if length q > PROTO_INLINE_MAX_SIZE
          then fail_at nc (str ''Protocol error: too big bulk count string'') 0
          else Some (Wait (pos, nc))
      | Some k \<Rightarrow>
          let newline = pos + k in
          if int newline > signed_len q - 2 then Some (Wait (pos, nc))
          else if q ! pos \<noteq> 36
          then do {
            (n, c) \<leftarrow> addReplyErrorFormat nc (str ''Protocol error: expected '' @ [39, 36, 39] @ str '', got '' @ [39, q ! pos, 39]);
            Some (Fail (0, n, setProtocolError c (int pos))) }
          else case string2ll (take (newline - (pos + 1)) (drop (pos + 1) q)) of
            None \<Rightarrow> fail_at nc (str ''Protocol error: invalid bulk length'') (int pos)
          | Some ll \<Rightarrow>
              if sint ll < 0 \<or> sint ll > 512 * 1024 * 1024
              then fail_at nc (str ''Protocol error: invalid bulk length'') (int pos)
              else
                let pos = newline + 2;
                    (pos, c) = (if sint ll \<ge> PROTO_MBULK_BIG_ARG then (0, trim_query (int pos) c) else (pos, c))
                in Some (Go (pos, n, c\<lparr>bulklen := sint ll\<rparr>)))"

definition read_bulk :: "nat \<Rightarrow> net \<times> client \<Rightarrow> (nat \<times> net \<times> client) outcome option" where
  "read_bulk pos nc =
     (let (n, c) = nc; q = querybuf c in
      if (int (length q) - int pos) mod 2 ^ 64 < (bulklen c + 2) mod 2 ^ 32 then Some (Wait (pos, n, c))
      else
        let next_arg = (\<lambda>t c. c\<lparr>argv := argv c @ [Str_obj t], bulklen := - 1, multibulklen := multibulklen c - 1\<rparr>) in
        if pos = 0 \<and> bulklen c \<ge> PROTO_MBULK_BIG_ARG \<and> signed_len q = bulklen c + 2
        then Some (Go (0, n, next_arg (take (length q - 2) q) (c\<lparr>querybuf := []\<rparr>)))
        else do {
          t \<leftarrow> rdn q pos (nat (bulklen c));
          Some (Go (pos + nat (bulklen c) + 2, n, next_arg t c)) })"

function mb_loop :: "nat \<Rightarrow> net \<times> client \<Rightarrow> (nat \<times> net \<times> client) outcome option" where
  "mb_loop pos nc =
     (if multibulklen (snd nc) \<le> 0 then Some (Go (pos, nc))
      else do {
        r \<leftarrow> (if bulklen (snd nc) = - 1 then read_bulklen pos nc else Some (Go (pos, nc)));
        case r of
          Go (pos, nc) \<Rightarrow> do {
            r \<leftarrow> read_bulk pos nc;
            case r of Go (pos, nc) \<Rightarrow> mb_loop pos nc | _ \<Rightarrow> Some r }
        | _ \<Rightarrow> Some r })"
  by pat_completeness auto
termination
proof (relation "measure (\<lambda>(pos, nc). nat (multibulklen (snd nc)))")
  fix pos nc r x pos1 nc1 r2 x2 pos2 nc2
  assume a: "\<not> multibulklen (snd nc) \<le> 0" "(if bulklen (snd nc) = - 1 then read_bulklen pos nc else Some (Go (pos, nc))) = Some r"
    "r = Go x" "(pos1, nc1) = x" "read_bulk pos1 nc1 = Some r2" "r2 = Go x2" "(pos2, nc2) = x2"
  have "multibulklen (snd nc1) = multibulklen (snd nc)"
    using a(2-4) by (auto simp: read_bulklen_def fail_at_def trim_query_def Let_def bind_eq_Some_conv split: if_splits option.splits prod.splits)
  moreover have "multibulklen (snd nc2) = multibulklen (snd nc1) - 1"
    using a(5-7) by (auto simp: read_bulk_def Let_def bind_eq_Some_conv split: if_splits prod.splits)
  ultimately show "((pos2, nc2), pos, nc) \<in> measure (\<lambda>(pos, nc). nat (multibulklen (snd nc)))" using a(1) by simp
qed simp

declare mb_loop.simps [simp del]

text \<open>The first line: \<open>Go\<close> with the position behind it, or the return value of the whole function.\<close>

definition read_multibulklen :: "net \<times> client \<Rightarrow> ((bool \<times> net \<times> client) + (nat \<times> net \<times> client)) option" where
  "read_multibulklen nc =
     (let (n, c) = nc; q = querybuf c in
      if argv c \<noteq> [] then None
      else case strchr q 13 of
        None \<Rightarrow>
          if length q > PROTO_INLINE_MAX_SIZE
          then do { nc \<leftarrow> protocol_error nc (str ''Protocol error: too big mbulk count string'') 0; Some (Inl (False, nc)) }
          else Some (Inl (False, nc))
      | Some newline \<Rightarrow>
          if int newline > signed_len q - 2 then Some (Inl (False, nc))
          else if q ! 0 \<noteq> 42 then None
          else
            let err = (do { nc \<leftarrow> protocol_error nc (str ''Protocol error: invalid multibulk length'') 0; Some (Inl (False, nc)) }) in
            case string2ll (take (newline - 1) (drop 1 q)) of
              None \<Rightarrow> err
            | Some ll \<Rightarrow>
                if sint ll > 1024 * 1024 then err
                else
                  let pos = newline + 2 in
                  if sint ll \<le> 0 then Some (Inl (True, n, trim_query (int pos) c))
                  else Some (Inr (pos, n, c\<lparr>multibulklen := sint ll, argv := []\<rparr>)))"

definition processMultibulkBuffer :: "net \<times> client \<Rightarrow> (bool \<times> net \<times> client) option" where
  "processMultibulkBuffer nc = do {
     r \<leftarrow> (if multibulklen (snd nc) = 0 then read_multibulklen nc else Some (Inr (0, nc)));
     case r of
       Inl res \<Rightarrow> Some res
     | Inr (pos, nc) \<Rightarrow>
         if \<not> multibulklen (snd nc) > 0 then None
         else do {
           r \<leftarrow> mb_loop pos nc;
           case r of
             Fail (_, n, c) \<Rightarrow> Some (False, n, c)
           | Go (pos, n, c) \<Rightarrow>
               let c = (if pos \<noteq> 0 then trim_query (int pos) c else c) in Some (multibulklen c = 0, n, c)
           | Wait (pos, n, c) \<Rightarrow>
               let c = (if pos \<noteq> 0 then trim_query (int pos) c else c) in Some (multibulklen c = 0, n, c) } }"

subsection \<open>Executing the commands of the buffer\<close>

text \<open>\<open>asking\<close> tells whether the command that was executed is \<open>ASKING\<close>.\<close>

definition resetClient :: "bool \<Rightarrow> client \<Rightarrow> client" where
  "resetClient asking c =
     (let c = c\<lparr>argv := [], reqtype := 0, multibulklen := 0, bulklen := - 1\<rparr>;
          c = (if \<not> has c CLIENT_MULTI \<and> \<not> asking then c\<lparr>flags := flags c AND NOT CLIENT_ASKING\<rparr> else c);
          c = c\<lparr>flags := flags c AND NOT CLIENT_REPLY_SKIP\<rparr>
      in if has c CLIENT_REPLY_SKIP_NEXT
         then c\<lparr>flags := (flags c OR CLIENT_REPLY_SKIP) AND NOT CLIENT_REPLY_SKIP_NEXT\<rparr>
         else c)"

text \<open>
  \<open>exec\<close> is \<open>processCommand\<close>: it returns whether the command was executed, whether the client is
  still the current one, whether the command was \<open>ASKING\<close>, and the state. \<open>paused\<close> is the
  result of \<open>clientsArePaused\<close>. The loop may run forever when a command refills the buffer: \<open>None\<close>
  stands for that as well.
\<close>

type_synonym exec = "net \<times> client \<Rightarrow> (bool \<times> bool \<times> bool \<times> net \<times> client) option"

definition after_command :: "bool \<Rightarrow> bool \<Rightarrow> client \<Rightarrow> client" where
  "after_command ok asking c =
     (if ok then
        let c = (if has c CLIENT_MASTER \<and> \<not> has c CLIENT_MULTI
                 then c\<lparr>reploff := read_reploff c - int (length (querybuf c))\<rparr> else c)
        in if \<not> has c CLIENT_BLOCKED \<or> btype c \<noteq> 3 then resetClient asking c else c
      else c)"

definition process_request :: "(nat \<Rightarrow> u8) \<Rightarrow> net \<times> client \<Rightarrow> (bool \<times> net \<times> client) option" where
  "process_request junk nc =
     (let (n, c) = nc;
          c = (if reqtype c = 0
               then c\<lparr>reqtype := (if hd (querybuf c) = 42 then PROTO_REQ_MULTIBULK else PROTO_REQ_INLINE)\<rparr> else c)
      in if reqtype c = PROTO_REQ_INLINE then processInlineBuffer junk (n, c)
         else if reqtype c = PROTO_REQ_MULTIBULK then processMultibulkBuffer (n, c)
         else None)"

partial_function (option) processInputBuffer ::
  "(nat \<Rightarrow> u8) \<Rightarrow> exec \<Rightarrow> bool \<Rightarrow> net \<times> client \<Rightarrow> (net \<times> client) option" where
  "processInputBuffer junk exec paused nc =
     (let (n, c) = nc in
      if querybuf c = [] then Some nc
      else if \<not> has c CLIENT_SLAVE \<and> paused then Some nc
      else if has c CLIENT_BLOCKED then Some nc
      else if has c (CLIENT_CLOSE_AFTER_REPLY OR CLIENT_CLOSE_ASAP) then Some nc
      else Option.bind (process_request junk nc) (\<lambda>(parsed, n, c).
        if \<not> parsed then Some (n, c)
        else if argv c = [] then processInputBuffer junk exec paused (n, resetClient False c)
        else Option.bind (exec (n, c)) (\<lambda>(ok, current, asking, n, c).
          if \<not> current then Some (n, after_command ok asking c)
          else processInputBuffer junk exec paused (n, after_command ok asking c))))"

subsection \<open>Searching and trimming\<close>

lemma str_range_drop: "str_range xs (int k) (- 1) = drop k xs"
  by (cases "xs = []") (auto simp: str_range_def Let_def)

lemma trim_query_drop: "trim_query (int k) c = c\<lparr>querybuf := drop k (querybuf c)\<rparr>"
  by (simp add: trim_query_def str_range_drop)

lemma strchr_found: "ch \<notin> set p \<Longrightarrow> 0 \<notin> set p \<Longrightarrow> strchr (p @ ch # t) ch = Some (length p)"
proof -
  assume "ch \<notin> set p" "0 \<notin> set p"
  then have "takeWhile (\<lambda>b. b \<noteq> ch \<and> b \<noteq> 0) (p @ ch # t) = p" by (subst takeWhile_append2) auto
  then show ?thesis by (simp add: strchr_def)
qed

lemma strchr_none: "ch \<notin> set p \<Longrightarrow> strchr p ch = None"
proof -
  assume a: "ch \<notin> set p"
  have "k < length p \<Longrightarrow> p ! k \<noteq> ch" for k using a nth_mem by blast
  then show ?thesis by (simp add: strchr_def Let_def)
qed

lemma signed_len_eq: "length q < 2 ^ 31 \<Longrightarrow> signed_len q = int (length q)"
  by (simp add: signed_len_def int32_id)

text \<open>A length line without its line break.\<close>

definition hdr0 :: "string \<Rightarrow> nat \<Rightarrow> bytes" where
  "hdr0 p k = str p @ dec_nat k"

lemma hdr_hdr0: "hdr p (int k) = hdr0 p k @ crlf"
  by (simp add: hdr_def hdr0_def dec_int_def)

lemma dec_nat_clean: "13 \<notin> set (dec_nat k)" "0 \<notin> set (dec_nat k)"
  using dec_nat_digits [of k] by (auto simp: list_all_iff)

lemma hdr0_clean: "13 \<notin> set (hdr0 ''$'' k)" "0 \<notin> set (hdr0 ''$'' k)" "13 \<notin> set (hdr0 ''*'' k)" "0 \<notin> set (hdr0 ''*'' k)"
  by (simp_all add: hdr0_def str_def dec_nat_clean)

lemma hdr0_Cons: "hdr0 ''$'' k = 36 # dec_nat k" "hdr0 ''*'' k = 42 # dec_nat k"
  by (simp_all add: hdr0_def str_def)

lemma string2ll_dec_nat: "k < 2 ^ 63 \<Longrightarrow> string2ll (dec_nat k) = Some (word_of_nat k)"
  by (simp add: string2ll_iff sint_of_nat dec_int_def)

text \<open>A strict prefix of a length line has no line break to find, or only its first byte.\<close>

lemma hdr_prefix:
  assumes "h @ [13, 10] @ r = x @ y" "y \<noteq> []" "length x < length h + 2" "13 \<notin> set h" "0 \<notin> set h"
  shows "strchr x 13 = None \<or> (strchr x 13 = Some (length h) \<and> length x = length h + 1)"
proof (cases "length x \<le> length h")
  case True
  have "x = take (length x) (h @ [13, 10] @ r)" by (simp only: assms(1)) simp
  then have "x = take (length x) h" using True by simp
  then have "13 \<notin> set x" using assms(4) by (metis in_set_takeD)
  then show ?thesis by (simp add: strchr_none)
next
  case False
  then have l: "length x = length h + 1" using assms(3) by simp
  have "x = take (length x) (h @ [13, 10] @ r)" by (simp only: assms(1)) simp
  then have "x = h @ [13]" using l by simp
  then show ?thesis using strchr_found [OF assms(4,5), of "[]"] l by simp
qed

subsection \<open>Steps of the multi bulk parser\<close>

lemma read_bulklen_go:
  assumes q: "drop pos (querybuf c) = hdr ''$'' (int k) @ y" "pos \<le> length (querybuf c)" "length (querybuf c) < 2 ^ 31"
    and k: "k \<le> 512 * 1024 * 1024"
  shows "\<exists>pos' q'. read_bulklen pos (n, c) = Some (Go (pos', n, c\<lparr>querybuf := q', bulklen := int k\<rparr>)) \<and>
    drop pos' q' = y \<and> pos' \<le> length q' \<and> length q' \<le> length (querybuf c)"
proof -
  let ?q = "querybuf c" and ?h = "hdr0 ''$'' k"
  have d: "drop pos ?q = ?h @ 13 # 10 # y" using q(1) by (simp add: hdr_hdr0)
  have len: "length ?q = pos + length ?h + 2 + length y" using arg_cong [OF d, of length] q(2) by simp
  have nl: "strchr (drop pos ?q) 13 = Some (length ?h)" unfolding d by (rule strchr_found) (simp_all add: hdr0_clean)
  have dollar: "?q ! pos = 36" using d len by (metis append_Cons drop_eq_Nil hdr0_Cons(1) hd_drop_conv_nth linorder_not_less list.distinct(1) list.sel(1))
  have "drop (pos + 1) ?q = tl (drop pos ?q)" by (simp add: drop_Suc tl_drop)
  then have ds: "take (pos + length ?h - (pos + 1)) (drop (pos + 1) ?q) = dec_nat k" unfolding d by (simp add: hdr0_Cons)
  have kk: "k < 2 ^ 63" using k by simp
  have ll: "string2ll (dec_nat k) = Some (word_of_nat k)" "sint (word_of_nat k :: i64) = int k"
    using string2ll_dec_nat [OF kk] sint_of_nat [OF kk] by simp_all
  have y: "drop (pos + length ?h + 2) ?q = y"
    using d by (metis (no_types, opaque_lifting) add.assoc append_Cons append_Nil append_eq_conv_conj append_assoc drop_drop add.commute length_Cons length_append list.size(3) numeral_2_eq_2 One_nat_def plus_1_eq_Suc)
  have "\<not> int (pos + length ?h) > signed_len ?q - 2" using signed_len_eq [OF q(3)] len by simp
  then have eq: "read_bulklen pos (n, c) = Some (Go (if int k \<ge> 32768 then (0, n, trim_query (int (pos + length ?h + 2)) c\<lparr>bulklen := int k\<rparr>)
      else (pos + length ?h + 2, n, c\<lparr>bulklen := int k\<rparr>)))"
    using q(2) nl dollar ds ll k by (simp add: read_bulklen_def Let_def)
  show ?thesis
  proof (cases "int k \<ge> 32768")
    case True
    then show ?thesis using eq [unfolded trim_query_drop y] by (intro exI [of _ 0] exI [of _ y]) (simp add: len)
  next
    case False
    then show ?thesis using eq y len by (intro exI [of _ "pos + length ?h + 2"] exI [of _ ?q]) simp
  qed
qed

lemma read_bulklen_wait:
  assumes q: "hdr ''$'' (int k) @ r = drop pos (querybuf c) @ y" "y \<noteq> []" "length (drop pos (querybuf c)) < length (hdr ''$'' (int k))"
    and l: "pos \<le> length (querybuf c)" "length (querybuf c) \<le> PROTO_INLINE_MAX_SIZE"
  shows "read_bulklen pos (n, c) = Some (Wait (pos, n, c))"
proof -
  let ?q = "querybuf c" and ?h = "hdr0 ''$'' k"
  have s: "signed_len ?q = int (length ?q)" using l(2) by (intro signed_len_eq) simp
  have "strchr (drop pos ?q) 13 = None \<or> (strchr (drop pos ?q) 13 = Some (length ?h) \<and> length (drop pos ?q) = length ?h + 1)"
    using hdr_prefix [of ?h r "drop pos ?q" y] q hdr0_clean [of k] by (simp add: hdr_hdr0)
  then show ?thesis using l s by (auto simp: read_bulklen_def Let_def)
qed

lemma read_bulk_go:
  assumes q: "drop pos (querybuf c) = a @ crlf @ y" "pos \<le> length (querybuf c)" "length (querybuf c) < 2 ^ 31"
    and b: "bulklen c = int (length a)"
  shows "\<exists>pos' q'. read_bulk pos (n, c) = Some (Go (pos', n, c\<lparr>querybuf := q', argv := argv c @ [Str_obj a], bulklen := - 1,
      multibulklen := multibulklen c - 1\<rparr>)) \<and> drop pos' q' = y \<and> pos' \<le> length q' \<and> length q' \<le> length (querybuf c)"
proof -
  let ?q = "querybuf c"
  have len: "length ?q = pos + length a + 2 + length y" using arg_cong [OF q(1), of length] q(2) by simp
  have enough: "\<not> (int (length ?q) - int pos) mod 2 ^ 64 < (bulklen c + 2) mod 2 ^ 32"
  proof -
    have "int (length ?q) - int pos = int (length a + 2 + length y)" using len by simp
    moreover have "length a + 2 + length y < 2 ^ 31" using len q(3) by simp
    ultimately show ?thesis unfolding b by simp
  qed
  have y: "drop (pos + length a + 2) ?q = y" using q(1) drop_drop [of "length a + 2" pos ?q] by (simp add: add.commute add.left_commute)
  have t: "rdn ?q pos (length a) = Some a" using len q(1) by (simp add: rdn_def)
  show ?thesis
  proof (cases "pos = 0 \<and> bulklen c \<ge> 32768 \<and> signed_len ?q = bulklen c + 2")
    case True
    then have "y = []" "?q = a @ crlf" using len q(1) signed_len_eq [OF q(3)] b by auto
    then show ?thesis using enough True by (intro exI [of _ 0] exI [of _ "[]"]) (auto simp: read_bulk_def Let_def)
  next
    case False
    have "read_bulk pos (n, c) = Some (Go (pos + length a + 2, n, c\<lparr>argv := argv c @ [Str_obj a], bulklen := - 1, multibulklen := multibulklen c - 1\<rparr>))"
      using enough False t b by (auto simp: read_bulk_def Let_def)
    then show ?thesis using y len by (intro exI [of _ "pos + length a + 2"] exI [of _ ?q]) simp
  qed
qed

lemma read_bulk_wait:
  assumes "length (drop pos (querybuf c)) < length a + 2" "pos \<le> length (querybuf c)" "length a \<le> 512 * 1024 * 1024"
    and "bulklen c = int (length a)"
  shows "read_bulk pos (n, c) = Some (Wait (pos, n, c))"
proof -
  have "(int (length (querybuf c)) - int pos) mod 2 ^ 64 < (bulklen c + 2) mod 2 ^ 32" using assms by simp
  then show ?thesis by (simp add: read_bulk_def)
qed

subsection \<open>The parser resumes where it stopped\<close>

text \<open>Where the parser is: before the first line, before the length line of an argument, or inside
  of an argument; with the arguments it has and those that are still to come.\<close>

datatype pstate = Fresh "bytes list" | Head "bytes list" "bytes list" | Body "bytes list" bytes "bytes list"

definition request_text :: "bytes list \<Rightarrow> bytes" where
  "request_text args = hdr ''*'' (int (length args)) @ concat (map bulk args)"

primrec rest_text :: "pstate \<Rightarrow> bytes" where
  "rest_text (Fresh args) = request_text args"
| "rest_text (Head xs args) = concat (map bulk args)"
| "rest_text (Body xs a args) = a @ crlf @ concat (map bulk args)"

primrec all_args :: "pstate \<Rightarrow> bytes list" where
  "all_args (Fresh args) = args"
| "all_args (Head xs args) = xs @ args"
| "all_args (Body xs a args) = xs @ a # args"

definition with_state :: "client \<Rightarrow> bytes list \<Rightarrow> int \<Rightarrow> int \<Rightarrow> bytes \<Rightarrow> client" where
  "with_state c xs m b q = c\<lparr>argv := map Str_obj xs, multibulklen := m, bulklen := b, querybuf := q\<rparr>"

primrec in_state :: "client \<Rightarrow> pstate \<Rightarrow> bytes \<Rightarrow> client" where
  "in_state c (Fresh args) q = with_state c [] 0 (- 1) q"
| "in_state c (Head xs args) q = with_state c xs (int (length args)) (- 1) q"
| "in_state c (Body xs a args) q = with_state c xs (int (length args) + 1) (int (length a)) q"

lemma with_state_sel [simp]:
  "argv (with_state c xs m b q) = map Str_obj xs" "multibulklen (with_state c xs m b q) = m"
  "bulklen (with_state c xs m b q) = b" "querybuf (with_state c xs m b q) = q"
  by (simp_all add: with_state_def)

lemma with_state_upd [simp]:
  "(with_state c xs m b q)\<lparr>querybuf := q'\<rparr> = with_state c xs m b q'"
  "(with_state c xs m b q)\<lparr>bulklen := b'\<rparr> = with_state c xs m b' q"
  "(with_state c xs m b q)\<lparr>multibulklen := m'\<rparr> = with_state c xs m' b q"
  "(with_state c xs m b q)\<lparr>argv := map Str_obj xs @ [Str_obj a]\<rparr> = with_state c (xs @ [a]) m b q"
  "(with_state c xs m b q)\<lparr>argv := []\<rparr> = with_state c [] m b q"
  by (simp_all add: with_state_def)

lemma body_go:
  assumes "drop pos q = a @ crlf @ y" "pos \<le> length q" "length q < 2 ^ 31" "0 \<le> m"
  shows "\<exists>pos' q'. mb_loop pos (n, with_state c xs (m + 1) (int (length a)) q) = mb_loop pos' (n, with_state c (xs @ [a]) m (- 1) q') \<and>
    drop pos' q' = y \<and> pos' \<le> length q' \<and> length q' \<le> length q"
proof -
  let ?c = "with_state c xs (m + 1) (int (length a)) q"
  obtain pos' q' where "read_bulk pos (n, ?c) = Some (Go (pos', n, ?c\<lparr>querybuf := q', argv := argv ?c @ [Str_obj a], bulklen := - 1,
      multibulklen := multibulklen ?c - 1\<rparr>))" "drop pos' q' = y" "pos' \<le> length q'" "length q' \<le> length q"
    using read_bulk_go [of pos ?c a y n] assms by auto
  then show ?thesis using assms(4) by (intro exI [of _ pos'] exI [of _ q']) (simp add: mb_loop.simps [of pos])
qed

lemma head_go:
  assumes "drop pos q = hdr ''$'' (int k) @ y" "pos \<le> length q" "length q < 2 ^ 31" "0 < m" "k \<le> 512 * 1024 * 1024"
  shows "\<exists>pos' q'. mb_loop pos (n, with_state c xs m (- 1) q) = mb_loop pos' (n, with_state c xs m (int k) q') \<and>
    drop pos' q' = y \<and> pos' \<le> length q' \<and> length q' \<le> length q"
proof -
  let ?c = "with_state c xs m (- 1) q"
  obtain pos' q' where "read_bulklen pos (n, ?c) = Some (Go (pos', n, ?c\<lparr>querybuf := q', bulklen := int k\<rparr>))"
    "drop pos' q' = y" "pos' \<le> length q'" "length q' \<le> length q"
    using read_bulklen_go [of pos ?c k y n] assms by auto
  then show ?thesis using assms(4)
    by (intro exI [of _ pos'] exI [of _ q']) (simp add: mb_loop.simps [of pos] mb_loop.simps [of pos' "(n, with_state c xs m (int k) q')"])
qed

definition args_fine :: "bytes list \<Rightarrow> bool" where
  "args_fine args \<longleftrightarrow> list_all (\<lambda>a. length a \<le> 512 * 1024 * 1024) args"

lemma loop_complete:
  assumes "args_fine args" "drop pos q = concat (map bulk args) @ y" "pos \<le> length q" "length q < 2 ^ 31"
  shows "\<exists>pos' q'. mb_loop pos (n, with_state c xs (int (length args)) (- 1) q) =
      Some (Go (pos', n, with_state c (xs @ args) 0 (- 1) q')) \<and> drop pos' q' = y"
  using assms
proof (induction args arbitrary: xs pos q)
  case Nil
  then show ?case by (auto simp: mb_loop.simps)
next
  case (Cons a args)
  have a: "length a \<le> 512 * 1024 * 1024" using Cons.prems(1) by (simp add: args_fine_def)
  let ?m = "int (length args)"
  obtain p1 q1 where 1: "mb_loop pos (n, with_state c xs (?m + 1) (- 1) q) = mb_loop p1 (n, with_state c xs (?m + 1) (int (length a)) q1)"
    "drop p1 q1 = a @ crlf @ concat (map bulk args) @ y" "p1 \<le> length q1" "length q1 \<le> length q"
    using head_go [of pos q "length a" "a @ crlf @ concat (map bulk args) @ y" "?m + 1" n c xs] Cons.prems(2-4) a by (auto simp: bulk_def [of a])
  obtain p2 q2 where 2: "mb_loop p1 (n, with_state c xs (?m + 1) (int (length a)) q1) = mb_loop p2 (n, with_state c (xs @ [a]) ?m (- 1) q2)"
    "drop p2 q2 = concat (map bulk args) @ y" "p2 \<le> length q2" "length q2 \<le> length q1"
    using body_go [OF 1(2,3), of ?m n c xs] 1(4) Cons.prems(4) by auto
  show ?case using Cons.IH [of p2 q2 "xs @ [a]"] 1 2 Cons.prems(1,4) by (auto simp: args_fine_def add.commute)
qed

lemma loop_wait_body:
  assumes "drop pos q @ y = a @ r" "length (drop pos q) < length a + 2" "pos \<le> length q" "length a \<le> 512 * 1024 * 1024" "0 < m"
  shows "mb_loop pos (n, with_state c xs m (int (length a)) q) = Some (Wait (pos, n, with_state c xs m (int (length a)) q))"
  using read_bulk_wait [of pos "with_state c xs m (int (length a)) q" a n] assms by (simp add: mb_loop.simps [of pos])

lemma loop_wait_head:
  assumes "hdr ''$'' (int k) @ r = drop pos q @ y" "y \<noteq> []" "length (drop pos q) < length (hdr ''$'' (int k))"
    "pos \<le> length q" "length q \<le> PROTO_INLINE_MAX_SIZE" "0 < m"
  shows "mb_loop pos (n, with_state c xs m (- 1) q) = Some (Wait (pos, n, with_state c xs m (- 1) q))"
  using read_bulklen_wait [of k r pos "with_state c xs m (- 1) q" y n] assms by (simp add: mb_loop.simps [of pos])

text \<open>The parser stops only where it cannot go on.\<close>

definition stuck :: "pstate \<Rightarrow> bytes \<Rightarrow> bool" where
  "stuck st q \<longleftrightarrow> length q < length (rest_text st) \<and> (case st of Body xs a args \<Rightarrow> length q < length a + 2 | _ \<Rightarrow> True)"

lemma prefix_split:
  assumes "u @ r = x @ y"
  obtains "length x < length u" | z where "x = u @ z" "r = z @ y"
  using assms by (cases "length x < length u") (auto simp: append_eq_append_conv2)

lemma stuckI:
  "rest_text st = q @ y \<Longrightarrow> y \<noteq> [] \<Longrightarrow> (\<And>xs a args. st = Body xs a args \<Longrightarrow> length q < length a + 2) \<Longrightarrow> stuck st q"
  by (cases st) (auto simp: stuck_def)

lemma loop_wait:
  assumes "args_fine args" "concat (map bulk args) = drop pos q @ y" "y \<noteq> []" "pos \<le> length q" "length q \<le> PROTO_INLINE_MAX_SIZE"
  shows "\<exists>pos' q' st. mb_loop pos (n, with_state c xs (int (length args)) (- 1) q) = Some (Wait (pos', n, in_state c st q')) \<and>
    (\<forall>fresh. st \<noteq> Fresh fresh) \<and> rest_text st = drop pos' q' @ y \<and> all_args st = xs @ args \<and> pos' \<le> length q' \<and> stuck st (drop pos' q')"
  using assms
proof (induction args arbitrary: xs pos q)
  case (Cons a args)
  have a: "length a \<le> 512 * 1024 * 1024" "args_fine args" using Cons.prems(1) by (simp_all add: args_fine_def)
  let ?m = "int (length args)" and ?t = "concat (map bulk args)"
  have eq: "hdr ''$'' (int (length a)) @ a @ crlf @ ?t = drop pos q @ y" using Cons.prems(2) by (simp add: bulk_def [of a])
  have q: "length q < 2 ^ 31" using Cons.prems(5) by simp
  from eq show ?case
  proof (cases rule: prefix_split)
    case 1
    then have "mb_loop pos (n, with_state c xs (?m + 1) (- 1) q) = Some (Wait (pos, n, with_state c xs (?m + 1) (- 1) q))"
      using loop_wait_head [OF eq Cons.prems(3)] Cons.prems(4,5) by simp
    then show ?thesis using Cons.prems(2-4) stuckI [of "Head xs (a # args)" "drop pos q" y]
      by (intro exI [of _ pos] exI [of _ q] exI [of _ "Head xs (a # args)"]) (simp add: add.commute)
  next
    case (2 z)
    obtain p1 q1 where 1: "mb_loop pos (n, with_state c xs (?m + 1) (- 1) q) = mb_loop p1 (n, with_state c xs (?m + 1) (int (length a)) q1)"
      "drop p1 q1 = z" "p1 \<le> length q1" "length q1 \<le> length q"
      using head_go [OF 2(1) Cons.prems(4) q _ a(1), of "?m + 1" n c xs] by auto
    have "(a @ crlf) @ ?t = z @ y" using 2(2) by simp
    then show ?thesis
    proof (cases rule: prefix_split)
      case f: 1
      have "mb_loop p1 (n, with_state c xs (?m + 1) (int (length a)) q1) = Some (Wait (p1, n, with_state c xs (?m + 1) (int (length a)) q1))"
        by (rule loop_wait_body [where y = y and r = "crlf @ ?t"]) (use 1 2(2) f a in simp_all)
      then show ?thesis using 1 2(2) f Cons.prems(3) stuckI [of "Body xs a args" z y]
        by (intro exI [of _ p1] exI [of _ q1] exI [of _ "Body xs a args"]) (simp add: add.commute)
    next
      case g: (2 w)
      obtain p2 q2 where 3: "mb_loop p1 (n, with_state c xs (?m + 1) (int (length a)) q1) = mb_loop p2 (n, with_state c (xs @ [a]) ?m (- 1) q2)"
        "drop p2 q2 = w" "p2 \<le> length q2" "length q2 \<le> length q1"
        using body_go [of p1 q1 a w ?m n c xs] 1 g(1) q by auto
      show ?thesis using Cons.IH [of p2 q2 "xs @ [a]"] 1 3 g a(2) Cons.prems(3,5) by (auto simp: add.commute)
    qed
  qed
qed simp

fun pstate_ok :: "pstate \<Rightarrow> bool" where
  "pstate_ok (Fresh args) \<longleftrightarrow> args \<noteq> []"
| "pstate_ok (Head xs args) \<longleftrightarrow> args \<noteq> []"
| "pstate_ok (Body xs a args) \<longleftrightarrow> True"

definition request_fine :: "bytes list \<Rightarrow> bool" where
  "request_fine args \<longleftrightarrow> args_fine args \<and> length args \<le> 1024 * 1024"

lemma rest_text_le: "length (rest_text st) \<le> length (request_text (all_args st))"
  by (cases st) (simp_all add: request_text_def bulk_def)

lemma trim_state: "(if pos \<noteq> 0 then trim_query (int pos) (with_state c xs m b q) else with_state c xs m b q) = with_state c xs m b (drop pos q)"
  by (simp add: trim_query_drop)

lemma trim_in_state: "(if pos \<noteq> 0 then trim_query (int pos) (in_state c st q) else in_state c st q) = in_state c st (drop pos q)"
  by (cases st) (simp_all add: trim_query_drop)

lemma mbulklen_go:
  assumes "request_fine args" "args \<noteq> []" "length (hdr ''*'' (int (length args)) @ y) < 2 ^ 31"
  shows "read_multibulklen (n, with_state c [] 0 (- 1) (hdr ''*'' (int (length args)) @ y)) =
    Some (Inr (length (hdr ''*'' (int (length args))), n, with_state c [] (int (length args)) (- 1) (hdr ''*'' (int (length args)) @ y)))"
proof -
  let ?k = "length args" and ?h = "hdr0 ''*'' (length args)"
  have k: "?k < 2 ^ 63" "?k \<le> 1024 * 1024" using assms(1) by (simp_all add: request_fine_def)
  have q: "hdr ''*'' (int ?k) @ y = ?h @ 13 # 10 # y" by (simp add: hdr_hdr0)
  have "strchr (?h @ 13 # 10 # y) 13 = Some (length ?h)" by (rule strchr_found) (simp_all add: hdr0_clean)
  moreover have "signed_len (?h @ 13 # 10 # y) = int (length ?h + 2 + length y)" using assms(3) unfolding q by (subst signed_len_eq) simp_all
  moreover have "take (length ?h - 1) (drop 1 (?h @ 13 # 10 # y)) = dec_nat ?k" "(?h @ 13 # 10 # y) ! 0 = 42" by (simp_all add: hdr0_Cons)
  moreover have "string2ll (dec_nat ?k) = Some (word_of_nat ?k)" "sint (word_of_nat ?k :: i64) = int ?k"
    using string2ll_dec_nat [OF k(1)] sint_of_nat [OF k(1)] by simp_all
  ultimately show ?thesis unfolding q using assms(2) k(2) by (simp add: read_multibulklen_def Let_def hdr_hdr0 hdr0_Cons)
qed

lemma process_finish:
  assumes "(if m = 0 then read_multibulklen (n, with_state c xs m b q) else Some (Inr (0, n, with_state c xs m b q))) =
      Some (Inr (p0, n, with_state c xs' m' b' q'))" "0 < m'"
    "mb_loop p0 (n, with_state c xs' m' b' q') = Some (Go (pos, n, with_state c ys 0 (- 1) q''))" "drop pos q'' = y"
  shows "processMultibulkBuffer (n, with_state c xs m b q) = Some (True, n, with_state c ys 0 (- 1) y)"
  using assms by (auto simp: processMultibulkBuffer_def Let_def trim_query_drop split: if_splits)

lemma process_complete:
  assumes "request_fine (all_args st)" "pstate_ok st" "length (rest_text st @ y) < 2 ^ 31"
  shows "processMultibulkBuffer (n, in_state c st (rest_text st @ y)) = Some (True, n, with_state c (all_args st) 0 (- 1) y)"
proof (cases st)
  case (Fresh args)
  let ?h = "hdr ''*'' (int (length args))" and ?q = "request_text args @ y"
  have q: "?q = ?h @ concat (map bulk args) @ y" by (simp add: request_text_def)
  have "read_multibulklen (n, with_state c [] 0 (- 1) ?q) = Some (Inr (length ?h, n, with_state c [] (int (length args)) (- 1) ?q))"
    unfolding q by (rule mbulklen_go) (use assms Fresh q in simp_all)
  moreover obtain pos' q' where "mb_loop (length ?h) (n, with_state c [] (int (length args)) (- 1) ?q) =
      Some (Go (pos', n, with_state c ([] @ args) 0 (- 1) q'))" "drop pos' q' = y"
    using loop_complete [of args "length ?h" ?q y n c "[]"] assms Fresh by (auto simp: q request_fine_def)
  ultimately show ?thesis using process_finish [where m = 0 and b = "- 1" and xs = "[]" and q = ?q and ys = args] assms(2) Fresh by simp
next
  case (Head xs args)
  obtain pos' q' where "mb_loop 0 (n, with_state c xs (int (length args)) (- 1) (concat (map bulk args) @ y)) =
      Some (Go (pos', n, with_state c (xs @ args) 0 (- 1) q'))" "drop pos' q' = y"
    using loop_complete [of args 0 "concat (map bulk args) @ y" y n c xs] assms Head by (auto simp: args_fine_def request_fine_def)
  then show ?thesis using process_finish assms(2) Head by simp
next
  case (Body xs a args)
  let ?q = "a @ crlf @ concat (map bulk args) @ y"
  obtain p2 q2 where 2: "mb_loop 0 (n, with_state c xs (int (length args) + 1) (int (length a)) ?q) = mb_loop p2 (n, with_state c (xs @ [a]) (int (length args)) (- 1) q2)"
    "drop p2 q2 = concat (map bulk args) @ y" "p2 \<le> length q2" "length q2 \<le> length ?q"
    using body_go [of 0 ?q a "concat (map bulk args) @ y" "int (length args)" n c xs] assms(3) Body by auto
  obtain pos' q' where "mb_loop p2 (n, with_state c (xs @ [a]) (int (length args)) (- 1) q2) =
      Some (Go (pos', n, with_state c ((xs @ [a]) @ args) 0 (- 1) q'))" "drop pos' q' = y"
    using loop_complete [OF _ 2(2,3), of n c "xs @ [a]"] 2(4) assms Body by (auto simp: args_fine_def request_fine_def)
  then show ?thesis using process_finish 2(1) Body by simp
qed

lemma process_pause:
  assumes "(if m = 0 then read_multibulklen (n, with_state c xs m b q) else Some (Inr (0, n, with_state c xs m b q))) =
      Some (Inr (p0, n, with_state c xs' m' b' q'))" "0 < m'"
    "mb_loop p0 (n, with_state c xs' m' b' q') = Some (Wait (pos, n, in_state c st q''))" "pstate_ok st" "\<forall>fresh. st \<noteq> Fresh fresh"
  shows "processMultibulkBuffer (n, with_state c xs m b q) = Some (False, n, in_state c st (drop pos q''))"
proof -
  have "multibulklen (in_state c st z) \<noteq> 0" for z using assms(4,5) by (cases st) auto
  then show ?thesis using assms(1-3) trim_in_state [of pos c st q''] by (auto simp: processMultibulkBuffer_def Let_def split: if_splits)
qed

lemma rest_nonempty: "rest_text st = z @ y \<Longrightarrow> y \<noteq> [] \<Longrightarrow> \<forall>fresh. st \<noteq> Fresh fresh \<Longrightarrow> pstate_ok st"
  by (cases st) auto

text \<open>The state in which the parser leaves a client whose input \<open>y\<close> is still missing.\<close>

definition waiting :: "net \<Rightarrow> client \<Rightarrow> bytes list \<Rightarrow> bytes \<Rightarrow> (bool \<times> net \<times> client) option \<Rightarrow> bool" where
  "waiting n c args y res \<longleftrightarrow> (\<exists>st q. res = Some (False, n, in_state c st q) \<and> rest_text st = q @ y \<and> all_args st = args \<and> pstate_ok st \<and> stuck st q)"

lemma process_wait_loop:
  assumes "(if m = 0 then read_multibulklen (n, with_state c zs m b q0) else Some (Inr (0, n, with_state c zs m b q0))) =
        Some (Inr (p0, n, with_state c ys m' b' q1))" "0 < m'"
      "mb_loop p0 (n, with_state c ys m' b' q1) = mb_loop pos (n, with_state c xs (int (length args)) (- 1) q2)"
      "concat (map bulk args) = drop pos q2 @ y" "args_fine args" "pos \<le> length q2" "length q2 \<le> PROTO_INLINE_MAX_SIZE" "y \<noteq> []"
  shows "waiting n c (xs @ args) y (processMultibulkBuffer (n, with_state c zs m b q0))"
proof -
  obtain pos' q' st where w: "mb_loop pos (n, with_state c xs (int (length args)) (- 1) q2) = Some (Wait (pos', n, in_state c st q'))"
    "\<forall>fresh. st \<noteq> Fresh fresh" "rest_text st = drop pos' q' @ y" "all_args st = xs @ args" "stuck st (drop pos' q')"
    using loop_wait [OF assms(5,4,8,6,7), of n c xs] by blast
  have ok: "pstate_ok st" using rest_nonempty [OF w(3) assms(8) w(2)] .
  have "processMultibulkBuffer (n, with_state c zs m b q0) = Some (False, n, in_state c st (drop pos' q'))"
    using process_pause [OF assms(1,2) _ ok w(2)] assms(3) w(1) by simp
  then show ?thesis unfolding waiting_def using w(3-5) ok by blast
qed

lemma fresh_wait:
  assumes "request_fine args" "args \<noteq> []" "request_text args = q @ y" "y \<noteq> []" "length q \<le> PROTO_INLINE_MAX_SIZE"
  shows "waiting n c args y (processMultibulkBuffer (n, in_state c (Fresh args) q))"
proof -
  let ?h = "hdr ''*'' (int (length args))" and ?g = "hdr0 ''*'' (length args)"
  have q: "length q < 2 ^ 31" using assms(5) by simp
  have eq: "?h @ concat (map bulk args) = q @ y" using assms(3) by (simp add: request_text_def)
  then show ?thesis
  proof (cases rule: prefix_split)
    case 1
    have "strchr q 13 = None \<or> (strchr q 13 = Some (length ?g) \<and> length q = length ?g + 1)"
      using hdr_prefix [of ?g "concat (map bulk args)" q y] 1 eq assms(4) hdr0_clean by (simp add: hdr_hdr0)
    then have "processMultibulkBuffer (n, in_state c (Fresh args) q) = Some (False, n, in_state c (Fresh args) q)"
      using assms(5) signed_len_eq [OF q] by (auto simp: processMultibulkBuffer_def read_multibulklen_def Let_def)
    then show ?thesis unfolding waiting_def using assms(2-4) stuckI [of "Fresh args" q y] by (intro exI [of _ "Fresh args"] exI [of _ q]) simp
  next
    case (2 z)
    have "read_multibulklen (n, with_state c [] 0 (- 1) (?h @ z)) = Some (Inr (length ?h, n, with_state c [] (int (length args)) (- 1) (?h @ z)))"
      by (rule mbulklen_go) (use assms(1,2) q 2 in simp_all)
    then show ?thesis
      using process_wait_loop [of 0 n c "[]" "- 1" "?h @ z" "length ?h" "[]" "int (length args)" "- 1" "?h @ z" "length ?h" "[]" args "?h @ z" y]
        2 assms by (simp add: request_fine_def)
  qed
qed

lemma body_wait:
  assumes "request_fine (xs @ a # args)" "(a @ crlf) @ concat (map bulk args) = q @ y" "y \<noteq> []" "length q \<le> PROTO_INLINE_MAX_SIZE"
  shows "waiting n c (xs @ a # args) y (processMultibulkBuffer (n, in_state c (Body xs a args) q))"
  using assms(2)
proof (cases rule: prefix_split)
  case 1
  have "mb_loop 0 (n, with_state c xs (int (length args) + 1) (int (length a)) q) = Some (Wait (0, n, in_state c (Body xs a args) q))"
    using loop_wait_body [of 0 q y a "crlf @ concat (map bulk args)"] 1 assms(1,2) by (simp add: request_fine_def args_fine_def)
  from process_pause [OF _ _ this, of "int (length args) + 1" xs "int (length a)" q]
  have "processMultibulkBuffer (n, in_state c (Body xs a args) q) = Some (False, n, in_state c (Body xs a args) q)" by simp
  then show ?thesis unfolding waiting_def using assms(2,3) 1 stuckI [of "Body xs a args" q y] by (intro exI [of _ "Body xs a args"] exI [of _ q]) simp
next
  case (2 z)
  let ?m = "int (length args)"
  obtain p2 q2 where 3: "mb_loop 0 (n, with_state c xs (?m + 1) (int (length a)) q) = mb_loop p2 (n, with_state c (xs @ [a]) ?m (- 1) q2)"
    "drop p2 q2 = z" "p2 \<le> length q2" "length q2 \<le> length q"
    using body_go [of 0 q a z ?m n c xs] 2(1) assms(4) by auto
  then show ?thesis
    using process_wait_loop [of "?m + 1" n c xs "int (length a)" q 0 xs "?m + 1" "int (length a)" q p2 "xs @ [a]" args q2 y]
      2(2) assms by (simp add: request_fine_def args_fine_def)
qed

lemma process_wait:
  assumes "request_fine (all_args st)" "pstate_ok st" "rest_text st = q @ y" "y \<noteq> []" "length q \<le> PROTO_INLINE_MAX_SIZE"
  shows "waiting n c (all_args st) y (processMultibulkBuffer (n, in_state c st q))"
proof (cases st)
  case (Fresh args)
  then show ?thesis using fresh_wait assms by simp
next
  case (Head xs args)
  then show ?thesis
    using process_wait_loop [of "int (length args)" n c xs "- 1" q 0 xs "int (length args)" "- 1" q 0 xs args q y] assms
    by (simp add: request_fine_def args_fine_def)
next
  case (Body xs a args)
  then show ?thesis using body_wait [of xs a args q y n c] assms by simp
qed

text \<open>A request that arrives in pieces: each piece is appended to the query buffer and parsed; the rest
  of the input follows once the command is complete.\<close>

fun feed_chunks :: "bytes list \<Rightarrow> net \<times> client \<Rightarrow> (bool \<times> net \<times> client) option" where
  "feed_chunks [] nc = Some (False, nc)"
| "feed_chunks (ch # chs) (n, c) = do {
     (ok, n, c) \<leftarrow> processMultibulkBuffer (n, c\<lparr>querybuf := querybuf c @ ch\<rparr>);
     if ok then Some (True, n, c\<lparr>querybuf := querybuf c @ concat chs\<rparr>) else feed_chunks chs (n, c) }"

lemma in_state_query: "(in_state c st q)\<lparr>querybuf := querybuf (in_state c st q) @ ch\<rparr> = in_state c st (q @ ch)"
  by (cases st) simp_all

lemma chunks_complete:
  assumes "request_fine (all_args st)" "pstate_ok st" "rest_text st = q @ w" "w \<noteq> []" "concat chs = w @ y"
    "length (request_text (all_args st)) \<le> PROTO_INLINE_MAX_SIZE" "length y < 2 ^ 30"
  shows "feed_chunks chs (n, in_state c st q) = Some (True, n, with_state c (all_args st) 0 (- 1) y)"
  using assms
proof (induction chs arbitrary: st q w)
  case (Cons ch chs)
  have "ch @ concat chs = w @ y" using Cons.prems(5) by simp
  then show ?case
  proof (cases "length ch < length w")
    case True
    then obtain w' where w: "w = ch @ w'" "w' \<noteq> []" "concat chs = w' @ y"
      using \<open>ch @ concat chs = w @ y\<close> by (auto simp: append_eq_append_conv2)
    have "length (q @ ch) \<le> PROTO_INLINE_MAX_SIZE" using Cons.prems(3,6) w(1) rest_text_le [of st] by simp
    then obtain st' q' where p: "processMultibulkBuffer (n, in_state c st (q @ ch)) = Some (False, n, in_state c st' q')"
      "rest_text st' = q' @ w'" "all_args st' = all_args st" "pstate_ok st'"
      using process_wait [OF Cons.prems(1,2), of "q @ ch" w' n c] Cons.prems(3) w by (auto simp: waiting_def)
    show ?thesis using Cons.IH [of st' q' w'] p w Cons.prems(1,6,7) by (simp add: in_state_query)
  next
    case False
    then obtain y' where y: "ch = w @ y'" "y = y' @ concat chs"
      using \<open>ch @ concat chs = w @ y\<close> by (auto simp: append_eq_append_conv2)
    have "length (rest_text st @ y') < 2 ^ 31" using rest_text_le [of st] Cons.prems(6,7) y(2) by simp
    then have "processMultibulkBuffer (n, in_state c st (q @ ch)) = Some (True, n, with_state c (all_args st) 0 (- 1) y')"
      using process_complete [OF Cons.prems(1,2), of y' n c] Cons.prems(3) y(1) by simp
    then show ?thesis using y(2) by (simp add: in_state_query)
  qed
qed simp

subsection \<open>A stream of commands\<close>

text \<open>
  Commands that complete at once: \<open>g\<close> is applied to the argument vector. A client is steady if it is
  neither blocked nor about to be closed and has no flag that \<open>resetClient\<close> clears.
\<close>

definition plain_exec :: "(robj list \<Rightarrow> net \<times> client \<Rightarrow> net \<times> client) \<Rightarrow> exec" where
  "plain_exec g nc = Some (True, True, False, g (argv (snd nc)) nc)"

definition steady :: "client \<Rightarrow> bool" where
  "steady c \<longleftrightarrow> \<not> has c (CLIENT_MULTI OR CLIENT_BLOCKED OR CLIENT_CLOSE_AFTER_REPLY OR CLIENT_CLOSE_ASAP OR
     CLIENT_ASKING OR CLIENT_REPLY_SKIP OR CLIENT_REPLY_SKIP_NEXT)"

definition client_at :: "client \<Rightarrow> int \<Rightarrow> int \<Rightarrow> nat \<Rightarrow> pstate \<Rightarrow> bytes \<Rightarrow> client" where
  "client_at c off ro r st q = in_state (c\<lparr>reploff := off, read_reploff := ro, reqtype := r\<rparr>) st q"

definition put_parser :: "int \<Rightarrow> int \<Rightarrow> nat \<Rightarrow> bytes list \<Rightarrow> int \<Rightarrow> int \<Rightarrow> bytes \<Rightarrow> client \<Rightarrow> client" where
  "put_parser off ro r xs m b q c = with_state (c\<lparr>reploff := off, read_reploff := ro, reqtype := r\<rparr>) xs m b q"

text \<open>Commands that neither read nor write the parser's part of the client, and keep \<open>I\<close>, under which
  the client is steady.\<close>

definition polite :: "(net \<Rightarrow> client \<Rightarrow> bool) \<Rightarrow> (robj list \<Rightarrow> net \<times> client \<Rightarrow> net \<times> client) \<Rightarrow> bool" where
  "polite I g \<longleftrightarrow> (\<forall>n c. I n c \<longrightarrow> steady c \<and> (\<forall>args n' c'. g args (n, c) = (n', c') \<longrightarrow>
     I n' c' \<and> has c' CLIENT_MASTER = has c CLIENT_MASTER \<and>
     (\<forall>off ro r xs m b q. g args (n, put_parser off ro r xs m b q c) = (n', put_parser off ro r xs m b q c'))))"

lemma politeD:
  assumes "polite I g" "I n c"
  shows "steady c" "g args (n, c) = (n', c') \<Longrightarrow> I n' c'" "g args (n, c) = (n', c') \<Longrightarrow> has c' CLIENT_MASTER = has c CLIENT_MASTER"
    "g args (n, c) = (n', c') \<Longrightarrow> g args (n, put_parser off ro r xs m b q c) = (n', put_parser off ro r xs m b q c')"
  using assms unfolding polite_def by blast+

lemma has_or: "has c (f OR g) \<longleftrightarrow> has c f \<or> has c g"
  by (simp add: has_def bit.conj_disj_distrib or_eq_0_iff)

lemma and_not_id: "w AND f = 0 \<Longrightarrow> w AND NOT f = (w :: 'a :: len word)"
  by (auto simp: bit_eq_iff bit_simps)

lemma steady_flags:
  assumes "steady c"
  shows "\<not> has c CLIENT_BLOCKED" "\<not> has c (CLIENT_CLOSE_AFTER_REPLY OR CLIENT_CLOSE_ASAP)" "\<not> has c CLIENT_MULTI"
    "flags c AND NOT CLIENT_ASKING = flags c" "flags c AND NOT CLIENT_REPLY_SKIP = flags c" "\<not> has c CLIENT_REPLY_SKIP_NEXT"
  using assms and_not_id [of "flags c" CLIENT_ASKING] and_not_id [of "flags c" CLIENT_REPLY_SKIP]
  unfolding steady_def has_or by (simp_all add: has_def)

lemma has_same: "flags c = flags c' \<Longrightarrow> has c f = has c' f"
  by (simp add: has_def)

lemma client_at_sel [simp]:
  "flags (client_at c off ro r st q) = flags c" "querybuf (client_at c off ro r st q) = q" "reqtype (client_at c off ro r st q) = r"
  by (cases st; simp add: client_at_def with_state_def)+

lemma client_at_reqtype: "(client_at c off ro r st q)\<lparr>reqtype := r'\<rparr> = client_at c off ro r' st q"
  by (cases st) (simp_all add: client_at_def with_state_def)

lemma guards:
  assumes "steady c" "q \<noteq> []"
  shows "processInputBuffer junk exec False (n, client_at c off ro r st q) =
    Option.bind (process_request junk (n, client_at c off ro r st q)) (\<lambda>(parsed, n, c).
        if \<not> parsed then Some (n, c)
        else if argv c = [] then processInputBuffer junk exec False (n, resetClient False c)
        else Option.bind (exec (n, c)) (\<lambda>(ok, current, asking, n, c).
          if \<not> current then Some (n, after_command ok asking c)
          else processInputBuffer junk exec False (n, after_command ok asking c)))"
  using assms(2) steady_flags(1,2) [OF assms(1)] has_same [of "client_at c off ro r st q" c]
  by (subst processInputBuffer.simps) simp

definition req_ok :: "nat \<Rightarrow> pstate \<Rightarrow> bool" where
  "req_ok r st \<longleftrightarrow> r = PROTO_REQ_MULTIBULK \<or> r = 0 \<and> (\<exists>a. st = Fresh a)"

lemma process_request_at:
  assumes "req_ok r st" "r = 0 \<longrightarrow> hd q = 42"
  shows "process_request junk (n, client_at c off ro r st q) = processMultibulkBuffer (n, client_at c off ro PROTO_REQ_MULTIBULK st q)"
  using assms by (auto simp: process_request_def req_ok_def client_at_reqtype)

lemma after_plain:
  assumes "steady c"
  shows "after_command True False (with_state (c\<lparr>reploff := off, read_reploff := ro, reqtype := r\<rparr>) xs 0 (- 1) y) =
    client_at c (if has c CLIENT_MASTER then ro - int (length y) else off) ro 0 (Fresh nxt) y"
proof -
  let ?c = "with_state (c\<lparr>reploff := off, read_reploff := ro, reqtype := r\<rparr>) xs 0 (- 1) y"
  have h: "has d f = has c f" if "flags d = flags c" for d f using has_same [OF that] .
  show ?thesis using steady_flags [OF assms]
    by (cases c) (auto simp: after_command_def resetClient_def Let_def h client_at_def with_state_def has_def)
qed

lemma rest_not_Nil: "pstate_ok st \<Longrightarrow> rest_text st \<noteq> []"
  by (cases st) (auto simp: request_text_def hdr_def bulk_def neq_Nil_conv)

lemma hd_fresh: "hd (request_text args @ y) = 42"
  by (simp add: request_text_def hdr_def str_def)

lemma piece_complete:
  assumes "polite I g" "I n c" "request_fine (all_args st)" "all_args st \<noteq> []" "pstate_ok st" "req_ok r st" "length (rest_text st @ y) < 2 ^ 31"
    and g: "g (map Str_obj (all_args st)) (n, c) = (n', c')"
  shows "processInputBuffer junk (plain_exec g) False (n, client_at c off ro r st (rest_text st @ y)) =
    processInputBuffer junk (plain_exec g) False (n',
      client_at c' (if has c CLIENT_MASTER then ro - int (length y) else off) ro 0 (Fresh nxt) y)"
proof -
  note p = politeD [OF assms(1,2)]
  have s: "steady c'" using politeD(1) [OF assms(1) p(2) [OF g]] .
  have "r = 0 \<longrightarrow> hd (rest_text st @ y) = 42" using assms(6) by (auto simp: req_ok_def hd_fresh)
  then have q: "process_request junk (n, client_at c off ro r st (rest_text st @ y)) =
      Some (True, n, put_parser off ro 2 (all_args st) 0 (- 1) y c)"
    using process_request_at [OF assms(6)] process_complete [OF assms(3,5,7)] by (simp add: client_at_def put_parser_def)
  have "argv (put_parser off ro 2 (all_args st) 0 (- 1) y c) = map Str_obj (all_args st)" by (simp add: put_parser_def)
  then show ?thesis
    using q guards [OF p(1), of "rest_text st @ y"] rest_not_Nil [OF assms(5)] assms(4) p(4) [OF g, of off ro 2 "all_args st" 0 "- 1" y]
      after_plain [OF s, where off = off and ro = ro and r = 2 and xs = "all_args st" and y = y and nxt = nxt] p(3) [OF g]
    by (simp add: plain_exec_def put_parser_def)
qed

lemma piece_wait:
  assumes "steady c" "request_fine (all_args st)" "pstate_ok st" "req_ok r st" "rest_text st = q @ w" "w \<noteq> []"
    "length (request_text (all_args st)) \<le> PROTO_INLINE_MAX_SIZE"
  shows "\<exists>st' q' r'. processInputBuffer junk exec False (n, client_at c off ro r st q) = Some (n, client_at c off ro r' st' q') \<and>
    rest_text st' = q' @ w \<and> all_args st' = all_args st \<and> pstate_ok st' \<and> req_ok r' st' \<and> stuck st' q'"
proof (cases "q = []")
  case True
  then show ?thesis using assms(3-6) stuckI [of st q w] by (intro exI [of _ st] exI [of _ q] exI [of _ r]) (simp add: processInputBuffer.simps)
next
  case False
  have "length q \<le> PROTO_INLINE_MAX_SIZE" using rest_text_le [of st] assms(5,7) by simp
  then obtain st' q' where p: "processMultibulkBuffer (n, client_at c off ro 2 st q) = Some (False, n, client_at c off ro 2 st' q')"
    "rest_text st' = q' @ w" "all_args st' = all_args st" "pstate_ok st'" "stuck st' q'"
    using process_wait [OF assms(2,3,5,6)] unfolding waiting_def client_at_def by blast
  have "r = 0 \<longrightarrow> hd q = 42"
  proof
    assume "r = 0"
    then obtain a where "request_text a = q @ w" using assms(4,5) by (auto simp: req_ok_def)
    then show "hd q = 42" using hd_fresh [of a "[]"] False by simp
  qed
  then have "processInputBuffer junk exec False (n, client_at c off ro r st q) = Some (n, client_at c off ro 2 st' q')"
    using guards [OF assms(1) False] process_request_at [OF assms(4)] p(1) by simp
  then show ?thesis using p(2-5) by (auto simp: req_ok_def)
qed

text \<open>Where a connection stands in a stream of commands of which \<open>w\<close> has not arrived yet.\<close>

definition parked :: "bytes list list \<Rightarrow> pstate \<Rightarrow> bytes \<Rightarrow> bytes \<Rightarrow> bool" where
  "parked todo st q w \<longleftrightarrow>
     (if todo = [] then st = Fresh [] \<and> q = [] \<and> w = []
      else pstate_ok st \<and> all_args st = hd todo \<and> rest_text st @ concat (map request_text (tl todo)) = q @ w)"

definition cmd_fine :: "bytes list \<Rightarrow> bool" where
  "cmd_fine a \<longleftrightarrow> a \<noteq> [] \<and> request_fine a \<and> length (request_text a) \<le> PROTO_INLINE_MAX_SIZE"

definition run_cmds :: "(robj list \<Rightarrow> net \<times> client \<Rightarrow> net \<times> client) \<Rightarrow> bytes list list \<Rightarrow> net \<times> client \<Rightarrow> net \<times> client" where
  "run_cmds g cmds nc = fold (\<lambda>a. g (map Str_obj a)) cmds nc"

lemma run_cmds_simps [simp]:
  "run_cmds g [] nc = nc" "run_cmds g (a # cmds) nc = run_cmds g cmds (g (map Str_obj a) nc)"
  "run_cmds g (cmds @ cmds') nc = run_cmds g cmds' (run_cmds g cmds nc)"
  by (simp_all add: run_cmds_def)

lemma run_cmds_keeps: "polite I g \<Longrightarrow> I n c \<Longrightarrow> run_cmds g cmds (n, c) = (n', c') \<Longrightarrow> I n' c' \<and> has c' CLIENT_MASTER = has c CLIENT_MASTER"
proof (induction cmds arbitrary: n c)
  case (Cons a cmds)
  obtain n1 c1 where g: "g (map Str_obj a) (n, c) = (n1, c1)" by force
  show ?case using Cons.IH [of n1 c1] Cons.prems politeD(2,3) [OF Cons.prems(1,2) g] g by simp
qed simp

text \<open>One call of the loop executes the complete commands of the buffer, in order, and stops inside of the
  first incomplete one.\<close>

lemma drain:
  assumes "polite I g" "I n c" "list_all cmd_fine todo" "parked todo st q w" "req_ok r st" "length q < 2 ^ 31"
  shows "\<exists>ex todo' st' q' off' r' n' c'. processInputBuffer junk (plain_exec g) False (n, client_at c off ro r st q) =
      Some (n', client_at c' off' ro r' st' q') \<and> run_cmds g ex (n, c) = (n', c') \<and> todo = ex @ todo' \<and> parked todo' st' q' w \<and> req_ok r' st' \<and> stuck st' q' \<and>
    off' = (if has c CLIENT_MASTER \<and> ex \<noteq> [] then ro - int (length (concat (map request_text todo'))) + int (length w) else off)"
  using assms(2-6)
proof (induction todo arbitrary: st q r n c off)
  case Nil
  then show ?case
    by (intro exI [of _ "[]"] exI [of _ "[]"] exI [of _ st] exI [of _ q] exI [of _ off] exI [of _ r] exI [of _ n] exI [of _ c])
      (simp add: parked_def processInputBuffer.simps stuck_def request_text_def hdr_def)
next
  case (Cons a todo)
  let ?t = "concat (map request_text todo)"
  have st: "pstate_ok st" "all_args st = a" "rest_text st @ ?t = q @ w" using Cons.prems(3) by (simp_all add: parked_def)
  have a: "a \<noteq> []" "request_fine a" "length (request_text a) \<le> PROTO_INLINE_MAX_SIZE" "list_all cmd_fine todo"
    using Cons.prems(2) by (simp_all add: cmd_fine_def [of a])
  note p = politeD [OF assms(1) Cons.prems(1)]
  from st(3) show ?case
  proof (cases rule: prefix_split)
    case 1
    then obtain w' where w: "rest_text st = q @ w'" "w' \<noteq> []" "w = w' @ ?t" using st(3) by (auto simp: append_eq_append_conv2)
    obtain st' q' r' where p: "processInputBuffer junk (plain_exec g) False (n, client_at c off ro r st q) = Some (n, client_at c off ro r' st' q')"
      "rest_text st' = q' @ w'" "all_args st' = a" "pstate_ok st'" "req_ok r' st'" "stuck st' q'"
      using piece_wait [OF p(1) _ st(1) Cons.prems(4) w(1,2), of junk "plain_exec g" n off ro] a st(2) by auto
    then show ?thesis using w(3)
      by (intro exI [of _ "[]"] exI [of _ "a # todo"] exI [of _ st'] exI [of _ q'] exI [of _ off] exI [of _ r'] exI [of _ n] exI [of _ c]) (simp add: parked_def)
  next
    case (2 z)
    let ?off = "if has c CLIENT_MASTER then ro - int (length z) else off" and ?st = "Fresh (if todo = [] then [] else hd todo)"
    obtain n1 c1 where g: "g (map Str_obj a) (n, c) = (n1, c1)" by force
    have "parked todo ?st z w" using 2(2) a(4) by (cases todo) (auto simp: parked_def cmd_fine_def)
    moreover have "length z < 2 ^ 31" using Cons.prems(5) 2(1) by simp
    ultimately obtain ex todo' st' q' off' r' n' c' where IH: "processInputBuffer junk (plain_exec g) False (n1, client_at c1 ?off ro 0 ?st z) =
        Some (n', client_at c' off' ro r' st' q')" "run_cmds g ex (n1, c1) = (n', c')" "todo = ex @ todo'" "parked todo' st' q' w" "req_ok r' st'" "stuck st' q'"
      "off' = (if has c1 CLIENT_MASTER \<and> ex \<noteq> [] then ro - int (length (concat (map request_text todo'))) + int (length w) else ?off)"
      using Cons.IH [OF p(2) [OF g] a(4), of ?st z 0 ?off] by (auto simp: req_ok_def)
    have "int (length z) = int (length ?t) - int (length w)" using arg_cong [OF 2(2), of length] by simp
    moreover have "processInputBuffer junk (plain_exec g) False (n, client_at c off ro r st q) =
        processInputBuffer junk (plain_exec g) False (n1, client_at c1 ?off ro 0 ?st z)"
      using piece_complete [OF assms(1) Cons.prems(1) _ _ st(1) Cons.prems(4), of z n1 c1 junk off ro] a st(2) 2(1) Cons.prems(5) g by simp
    ultimately show ?thesis using IH g p(3) [OF g]
      by (intro exI [of _ "a # ex"] exI [of _ todo'] exI [of _ st'] exI [of _ q'] exI [of _ off'] exI [of _ r'] exI [of _ n'] exI [of _ c']) auto
  qed
qed

end
