(* ===== verification/Link.thy ===== *)
theory Link
  imports Replication Request
begin

unbundle bit_operations_syntax

text \<open>
  Reading from a connection (\<open>readQueryFromClient\<close> of \<open>src/networking.c\<close>). What is read from a client is
  parsed and executed; what is read from the master is in addition handed on, once it has been
  executed, to the backlog and to the slaves of this server. The socket is an argument: it gives the
  result of \<open>read\<close> for the number of bytes asked for.
\<close>

subsection \<open>The read handler\<close>

datatype read_result = Read bytes | Read_again | Read_error

abbreviation (input) PROTO_IOBUF_LEN :: int where "PROTO_IOBUF_LEN \<equiv> 16384"

definition read_len :: "client \<Rightarrow> int" where
  "read_len c =
     (if reqtype c = PROTO_REQ_MULTIBULK \<and> multibulklen c \<noteq> 0 \<and> bulklen c \<noteq> - 1 \<and> bulklen c \<ge> PROTO_MBULK_BIG_ARG
      then let remaining = signed_take_bit 31 ((bulklen c + 2) mod 2 ^ 32 - int (length (querybuf c)))
           in if remaining < PROTO_IOBUF_LEN then remaining else PROTO_IOBUF_LEN
      else PROTO_IOBUF_LEN)"

text \<open>The client of the result is \<open>None\<close> when it has been freed.\<close>

definition readQueryFromClient ::
  "(nat \<Rightarrow> u8) \<Rightarrow> exec \<Rightarrow> bool \<Rightarrow> nat \<Rightarrow> (nat \<Rightarrow> read_result) \<Rightarrow> repl \<times> client \<Rightarrow> (repl \<times> client option) option" where
  "readQueryFromClient junk exec paused client_max_querybuf_len read_fd sc =
     (let (s, c) = sc; readlen = read_len c; qblen = length (querybuf c);
          c = (if querybuf_peak c < qblen then c\<lparr>querybuf_peak := qblen\<rparr> else c)
      in if readlen < 0 then None
         else case read_fd (nat readlen) of
           Read_again \<Rightarrow> Some (s, Some c)
         | Read_error \<Rightarrow> Some (s, None)
         | Read d \<Rightarrow>
             if length d > nat readlen then None
             else if d = [] then Some (s, None)
             else
               let c = (if has c CLIENT_MASTER then c\<lparr>pending_querybuf := pending_querybuf c @ d\<rparr> else c);
                   c = c\<lparr>querybuf := querybuf c @ d, lastinteraction := unixtime (rnet s)\<rparr>;
                   c = (if has c CLIENT_MASTER then c\<lparr>read_reploff := read_reploff c + int (length d)\<rparr> else c);
                   n = (rnet s)\<lparr>stat_net_input_bytes := stat_net_input_bytes (rnet s) + length d\<rparr>
               in if length (querybuf c) > client_max_querybuf_len then Some (s\<lparr>rnet := n\<rparr>, None)
                  else if \<not> has c CLIENT_MASTER then do {
                    (n, c) \<leftarrow> processInputBuffer junk exec paused (n, c);
                    Some (s\<lparr>rnet := n\<rparr>, Some c) }
                  else do {
                    let prev_offset = reploff c;
                    (n, c) \<leftarrow> processInputBuffer junk exec paused (n, c);
                    let s = s\<lparr>rnet := n\<rparr>;
                    let applied = (reploff c - prev_offset) mod 2 ^ 64;
                    if applied \<noteq> 0 then do {
                      t \<leftarrow> rdn (pending_querybuf c) 0 (nat applied);
                      s \<leftarrow> replicationFeedSlavesFromMasterStream t s;
                      Some (s, Some (c\<lparr>pending_querybuf := str_range (pending_querybuf c) (signed_take_bit 31 applied) (- 1)\<rparr>)) }
                    else Some (s, Some c) })"

subsection \<open>Reading the rest of a large argument\<close>

text \<open>A client is never asked for less than one byte while the parser waits for its input.\<close>

lemma read_len_stuck:
  assumes "stuck st q" "request_fine (all_args st)" "length q < 2 ^ 31"
  shows "0 < read_len (client_at c off ro r st q)" "read_len (client_at c off ro r st q) \<le> PROTO_IOBUF_LEN"
proof -
  have "0 < read_len (client_at c off ro r st q) \<and> read_len (client_at c off ro r st q) \<le> PROTO_IOBUF_LEN"
  proof (cases st)
    case (Body xs a args)
    then have l: "length q < length a + 2" "length a \<le> 512 * 1024 * 1024"
      using assms(1,2) by (simp_all add: stuck_def request_fine_def args_fine_def)
    have "(int (length a) + 2) mod 2 ^ 32 = int (length a) + 2" using l(2) by simp
    moreover have "signed_take_bit 31 (int (length a) + 2 - int (length q)) = int (length a) + 2 - int (length q)"
      using l by (intro int32_id) auto
    ultimately show ?thesis using l(1) Body by (auto simp: read_len_def Let_def client_at_def)
  qed (simp_all add: read_len_def Let_def client_at_def)
  then show "0 < read_len (client_at c off ro r st q)" "read_len (client_at c off ro r st q) \<le> PROTO_IOBUF_LEN" by simp_all
qed


subsection \<open>A stream of commands that arrives in pieces\<close>

text \<open>
  The effect of a command on the server is \<open>k\<close>, on the connection \<open>h\<close>. It may queue replies; it
  neither reads nor writes the fields of the input side, and keeps the client steady.
\<close>

definition put_link :: "nat \<Rightarrow> bytes \<Rightarrow> int \<Rightarrow> client \<Rightarrow> client" where
  "put_link pk pend li c = c\<lparr>querybuf_peak := pk, pending_querybuf := pend, lastinteraction := li\<rparr>"

definition courteous :: "(client \<Rightarrow> bool) \<Rightarrow> (robj list \<Rightarrow> client \<Rightarrow> client) \<Rightarrow> bool" where
  "courteous J h \<longleftrightarrow> (\<forall>c. J c \<longrightarrow> steady c \<and> (\<forall>pk pend li. J (put_link pk pend li c)) \<and>
     (\<forall>args. J (h args c) \<and> has (h args c) CLIENT_MASTER = has c CLIENT_MASTER \<and>
       (\<forall>pk pend li. h args (put_link pk pend li c) = put_link pk pend li (h args c)) \<and>
       (\<forall>off ro r xs m b q. h args (put_parser off ro r xs m b q c) = put_parser off ro r xs m b q (h args c))))"

definition server_cmd :: "(robj list \<Rightarrow> net \<Rightarrow> net) \<Rightarrow> (robj list \<Rightarrow> client \<Rightarrow> client) \<Rightarrow> robj list \<Rightarrow> net \<times> client \<Rightarrow> net \<times> client" where
  "server_cmd k h args nc = (k args (fst nc), h args (snd nc))"

definition replies_of :: "(robj list \<Rightarrow> client \<Rightarrow> client) \<Rightarrow> bytes list list \<Rightarrow> client \<Rightarrow> client" where
  "replies_of h cmds c = fold (\<lambda>a. h (map Str_obj a)) cmds c"

lemma replies_of_simps [simp]:
  "replies_of h [] c = c" "replies_of h (a # cmds) c = replies_of h cmds (h (map Str_obj a) c)"
  "replies_of h (cmds @ cmds') c = replies_of h cmds' (replies_of h cmds c)"
  by (simp_all add: replies_of_def)

lemma courteousD:
  assumes "courteous J h" "J c"
  shows "steady c" "J (put_link pk pend li c)" "J (h args c)" "has (h args c) CLIENT_MASTER = has c CLIENT_MASTER"
    "h args (put_link pk pend li c) = put_link pk pend li (h args c)"
    "h args (put_parser off ro r xs m b q c) = put_parser off ro r xs m b q (h args c)"
  using assms(1) [unfolded courteous_def, THEN spec, THEN mp, OF assms(2)] by simp_all

lemma polite_server: "courteous J h \<Longrightarrow> polite (\<lambda>n c. J c) (server_cmd k h)"
  unfolding polite_def server_cmd_def by (simp add: courteousD(1,3,4,6))

lemma run_server: "run_cmds (server_cmd k h) cmds (n, c) = (n', c') \<Longrightarrow> c' = replies_of h cmds c"
  by (induction cmds arbitrary: n c) (simp_all add: server_cmd_def)

lemma replies_of_keeps: "courteous J h \<Longrightarrow> J c \<Longrightarrow> J (replies_of h cmds c) \<and> has (replies_of h cmds c) CLIENT_MASTER = has c CLIENT_MASTER \<and>
    replies_of h cmds (put_link pk pend li c) = put_link pk pend li (replies_of h cmds c)"
proof (induction cmds arbitrary: c)
  case (Cons a cmds)
  show ?case using Cons.IH [OF Cons.prems(1) courteousD(3) [OF Cons.prems]] courteousD(4,5) [OF Cons.prems] by simp
qed simp

text \<open>A client in the middle of a stream.\<close>

definition conn :: "client \<Rightarrow> nat \<Rightarrow> bytes \<Rightarrow> int \<Rightarrow> int \<Rightarrow> int \<Rightarrow> nat \<Rightarrow> pstate \<Rightarrow> bytes \<Rightarrow> client" where
  "conn c pk pend li off ro r st q = client_at (put_link pk pend li c) off ro r st q"

lemma conn_sel [simp]:
  "flags (conn c pk pend li off ro r st q) = flags c" "querybuf (conn c pk pend li off ro r st q) = q"
  "pending_querybuf (conn c pk pend li off ro r st q) = pend" "querybuf_peak (conn c pk pend li off ro r st q) = pk"
  "reploff (conn c pk pend li off ro r st q) = off" "read_reploff (conn c pk pend li off ro r st q) = ro"
  by (cases st; simp add: conn_def client_at_def with_state_def put_link_def)+

lemma conn_upd [simp]:
  "(conn c pk pend li off ro r st q)\<lparr>querybuf := q'\<rparr> = conn c pk pend li off ro r st q'"
  "(conn c pk pend li off ro r st q)\<lparr>pending_querybuf := pend'\<rparr> = conn c pk pend' li off ro r st q"
  "(conn c pk pend li off ro r st q)\<lparr>querybuf_peak := pk'\<rparr> = conn c pk' pend li off ro r st q"
  "(conn c pk pend li off ro r st q)\<lparr>lastinteraction := li'\<rparr> = conn c pk pend li' off ro r st q"
  "(conn c pk pend li off ro r st q)\<lparr>read_reploff := ro'\<rparr> = conn c pk pend li off ro' r st q"
  by (cases st; simp add: conn_def client_at_def with_state_def put_link_def)+

lemma conn_has [simp]: "has (conn c pk pend li off ro r st q) f = has c f"
  by (simp add: has_def)

abbreviation cmds_text :: "bytes list list \<Rightarrow> bytes" where
  "cmds_text cmds \<equiv> concat (map request_text cmds)"

lemma parked_left:
  assumes "parked todo st q w"
  shows "length w \<le> length (cmds_text todo)" "todo \<noteq> [] \<Longrightarrow> stuck st q \<Longrightarrow> length (cmds_text todo) < length w + length (request_text (hd todo))"
  using assms rest_text_le [of st] by (cases todo; auto simp: parked_def stuck_def dest!: arg_cong [of _ _ length])+

lemma drain_conn:
  assumes "courteous J h" "J c" "list_all cmd_fine todo" "parked todo st q w" "req_ok r st" "length q < 2 ^ 31"
  shows "\<exists>ex todo' st' q' off' r' n'. processInputBuffer junk (plain_exec (server_cmd k h)) False (n, conn c pk pend li off ro r st q) =
      Some (n', conn (replies_of h ex c) pk pend li off' ro r' st' q') \<and> todo = ex @ todo' \<and> parked todo' st' q' w \<and> req_ok r' st' \<and> stuck st' q' \<and>
    (has c CLIENT_MASTER \<longrightarrow> off' = (if ex \<noteq> [] then ro - int (length (cmds_text todo')) + int (length w) else off))"
proof -
  have J: "J (put_link pk pend li c)" "has (put_link pk pend li c) CLIENT_MASTER = has c CLIENT_MASTER"
    using courteousD(2) [OF assms(1,2)] by (simp_all add: put_link_def has_def)
  obtain ex todo' st' q' off' r' n' c' where d: "processInputBuffer junk (plain_exec (server_cmd k h)) False (n, conn c pk pend li off ro r st q) =
      Some (n', client_at c' off' ro r' st' q')" "run_cmds (server_cmd k h) ex (n, put_link pk pend li c) = (n', c')" "todo = ex @ todo'"
    "parked todo' st' q' w" "req_ok r' st'" "stuck st' q'"
    "off' = (if has c CLIENT_MASTER \<and> ex \<noteq> [] then ro - int (length (cmds_text todo')) + int (length w) else off)"
    using drain [OF polite_server [OF assms(1)] J(1) assms(3-6), of junk k n off ro] J(2) unfolding conn_def by auto
  have "c' = put_link pk pend li (replies_of h ex c)"
    using run_server [OF d(2)] replies_of_keeps [OF assms(1,2)] by simp
  then have "processInputBuffer junk (plain_exec (server_cmd k h)) False (n, conn c pk pend li off ro r st q) =
      Some (n', conn (replies_of h ex c) pk pend li off' ro r' st' q')"
    using d(1) by (simp add: conn_def)
  then show ?thesis using d(3-7)
    by (intro exI [of _ ex] exI [of _ todo'] exI [of _ st'] exI [of _ q'] exI [of _ off'] exI [of _ r'] exI [of _ n']) simp
qed


text \<open>What the server knows of its own slaves does not depend on the networking state.\<close>

lemma rnet_indep: "backlog_ok (s\<lparr>rnet := n\<rparr>) = backlog_ok s" "streamed (s\<lparr>rnet := n\<rparr>) t s' = streamed s t s'"
  by (simp_all add: backlog_ok_def streamed_def backlog_data_def)

lemma streamed_Nil: "backlog_ok s \<Longrightarrow> list_all (can_feed t) (slaves s) \<Longrightarrow> streamed s [] (s\<lparr>rnet := n\<rparr>)"
  using list_all2_fed_Nil [of "slaves s"] list_all_feed_front [of "[]" t "slaves s"]
  by (simp add: streamed_def rnet_indep last_n_def backlog_data_def backlog_ok_def)

lemma feed_from_master:
  assumes "backlog_ok s" "list_all (can_feed t) (slaves s)"
  shows "\<exists>s'. replicationFeedSlavesFromMasterStream t s = Some s' \<and> streamed s t s'"
proof -
  have "repl_backlog s \<noteq> None" using assms(1) by (auto simp: backlog_ok_def)
  then show ?thesis
    using streamed_step [OF assms feeds_backlog cl.emits_app] by (auto simp: replicationFeedSlavesFromMasterStream_def)
qed

text \<open>How one read of \<open>d\<close>, with \<open>w\<close> still to come, changes the server and the connection.\<close>

definition progress ::
  "(robj list \<Rightarrow> client \<Rightarrow> client) \<Rightarrow> repl \<Rightarrow> client \<Rightarrow> int \<Rightarrow> bytes list list \<Rightarrow> bytes \<Rightarrow> repl \<Rightarrow> client \<Rightarrow> bytes list list \<Rightarrow> client \<Rightarrow> int \<Rightarrow> bool" where
  "progress h s c off todo w s' c' todo' x off' \<longleftrightarrow>
     (\<exists>ex pk pend li ro r st q. todo = ex @ todo' \<and> c' = replies_of h ex c \<and> x = conn c' pk pend li off' ro r st q \<and>
        parked todo' st q w \<and> stuck st q \<and> req_ok r st \<and>
        (if has c CLIENT_MASTER
         then pend @ w = cmds_text todo' \<and> ro = off' + int (length pend) \<and> off' = off + int (length (cmds_text ex)) \<and> streamed s (cmds_text ex) s'
         else \<exists>n. s' = s\<lparr>rnet := n\<rparr>))"

lemma progressI:
  "todo = ex @ todo' \<Longrightarrow> parked todo' st q w \<Longrightarrow> stuck st q \<Longrightarrow> req_ok r st \<Longrightarrow>
    (if has c CLIENT_MASTER
     then pend @ w = cmds_text todo' \<and> ro = off' + int (length pend) \<and> off' = off + int (length (cmds_text ex)) \<and> streamed s (cmds_text ex) s'
     else \<exists>n. s' = s\<lparr>rnet := n\<rparr>) \<Longrightarrow>
    progress h s c off todo w s' (replies_of h ex c) todo' (conn (replies_of h ex c) pk pend li off' ro r st q) off'"
  unfolding progress_def by blast

lemma split_stream:
  assumes "pend @ w = e @ t" "length w \<le> length t"
  shows "rdn pend 0 (length e) = Some e" "drop (length e) pend @ w = t" "length e \<le> length pend"
proof -
  show l: "length e \<le> length pend" using arg_cong [OF assms(1), of length] assms(2) by simp
  have "take (length e) (pend @ w) = e" "drop (length e) (pend @ w) = t" unfolding assms(1) by simp_all
  then show "rdn pend 0 (length e) = Some e" "drop (length e) pend @ w = t" using l by (simp_all add: rdn_def)
qed

lemma request_text_not_Nil: "ex \<noteq> [] \<Longrightarrow> 0 < length (cmds_text ex)"
  by (cases ex) (auto simp: request_text_def hdr_def)

lemma readQuery_client:
  assumes "0 < read_len (conn c pk pend li off ro r st q)" "length d \<le> nat (read_len (conn c pk pend li off ro r st q))" "d \<noteq> []"
    "length (q @ d) \<le> maxq" "\<not> has c CLIENT_MASTER"
  shows "readQueryFromClient junk exec paused maxq (\<lambda>_. Read d) (s, conn c pk pend li off ro r st q) = do {
      (n, x) \<leftarrow> processInputBuffer junk exec paused ((rnet s)\<lparr>stat_net_input_bytes := stat_net_input_bytes (rnet s) + length d\<rparr>,
        conn c (if pk < length q then length q else pk) pend (unixtime (rnet s)) off ro r st (q @ d));
      Some (s\<lparr>rnet := n\<rparr>, Some x) }"
  using assms by (cases "pk < length q") (simp_all add: readQueryFromClient_def)

lemma readQuery_master:
  assumes "0 < read_len (conn c pk pend li off ro r st q)" "length d \<le> nat (read_len (conn c pk pend li off ro r st q))" "d \<noteq> []"
    "length (q @ d) \<le> maxq" "has c CLIENT_MASTER"
  shows "readQueryFromClient junk exec paused maxq (\<lambda>_. Read d) (s, conn c pk pend li off ro r st q) = do {
      (n, x) \<leftarrow> processInputBuffer junk exec paused ((rnet s)\<lparr>stat_net_input_bytes := stat_net_input_bytes (rnet s) + length d\<rparr>,
        conn c (if pk < length q then length q else pk) (pend @ d) (unixtime (rnet s)) off (ro + int (length d)) r st (q @ d));
      if (reploff x - off) mod 2 ^ 64 \<noteq> 0 then do {
        t \<leftarrow> rdn (pending_querybuf x) 0 (nat ((reploff x - off) mod 2 ^ 64));
        s \<leftarrow> replicationFeedSlavesFromMasterStream t (s\<lparr>rnet := n\<rparr>);
        Some (s, Some (x\<lparr>pending_querybuf := str_range (pending_querybuf x) (signed_take_bit 31 ((reploff x - off) mod 2 ^ 64)) (- 1)\<rparr>)) }
      else Some (s\<lparr>rnet := n\<rparr>, Some x) }"
  using assms by (cases "pk < length q") (simp_all add: readQueryFromClient_def Let_def cong: if_cong)

lemma read_len_conn:
  assumes "list_all cmd_fine todo" "todo \<noteq> []" "parked todo st q w" "stuck st q"
  shows "0 < read_len (conn c pk pend li off ro r st q)" "read_len (conn c pk pend li off ro r st q) \<le> 16384" "length q < 65536"
proof -
  obtain a where a: "all_args st = a" "cmd_fine a" using assms(1-3) by (cases todo) (auto simp: parked_def)
  show q: "length q < 65536" using assms(4) rest_text_le [of st] a by (simp add: stuck_def cmd_fine_def)
  then show "0 < read_len (conn c pk pend li off ro r st q)" "read_len (conn c pk pend li off ro r st q) \<le> 16384"
    using read_len_stuck [OF assms(4), of "put_link pk pend li c" off ro r] a by (simp_all add: conn_def cmd_fine_def)
qed

lemma read_one:
  assumes h: "courteous J h" "J c" and todo: "list_all cmd_fine todo" "todo \<noteq> []"
    and st: "parked todo st q (d @ w)" "stuck st q" "req_ok r st"
    and d: "d \<noteq> []" "int (length d) \<le> read_len (conn c pk pend li off ro r st q)" "81920 \<le> maxq"
    and m: "has c CLIENT_MASTER \<Longrightarrow> pend @ d @ w = cmds_text todo \<and> ro = off + int (length pend) \<and> backlog_ok s \<and> list_all (can_feed (cmds_text todo)) (slaves s)"
  shows "\<exists>s' c' todo' x off'. readQueryFromClient junk (plain_exec (server_cmd k h)) False maxq (\<lambda>_. Read d) (s, conn c pk pend li off ro r st q) =
      Some (s', Some x) \<and> progress h s c off todo w s' c' todo' x off'"
proof -
  let ?c = "conn c pk pend li off ro r st q" and ?a = "hd todo"
  note rl = read_len_conn(1,2) [OF todo st(1,2), of c pk pend li off ro r] read_len_conn(3) [OF todo st(1,2)]
  have a: "cmd_fine ?a" using todo by (cases todo) auto
  have dl: "length d \<le> nat (read_len ?c)" "length d \<le> 16384" using d(2) rl(1,2) by simp_all
  define pk1 where "pk1 = (if pk < length q then length q else pk)"
  define pend1 where "pend1 = (if has c CLIENT_MASTER then pend @ d else pend)"
  define ro1 where "ro1 = (if has c CLIENT_MASTER then ro + int (length d) else ro)"
  define li1 where "li1 = unixtime (rnet s)"
  define n1 where "n1 = (rnet s)\<lparr>stat_net_input_bytes := stat_net_input_bytes (rnet s) + length d\<rparr>"
  have q1: "parked todo st (q @ d) w" "length (q @ d) < 2 ^ 31" "length (q @ d) \<le> maxq"
    using st(1) todo(2) rl(3) dl(2) d(3) by (simp_all add: parked_def)
  obtain ex todo' st' q' off' r' n' where p: "processInputBuffer junk (plain_exec (server_cmd k h)) False (n1, conn c pk1 pend1 li1 off ro1 r st (q @ d)) =
      Some (n', conn (replies_of h ex c) pk1 pend1 li1 off' ro1 r' st' q')" "todo = ex @ todo'" "parked todo' st' q' w" "req_ok r' st'" "stuck st' q'"
    "has c CLIENT_MASTER \<Longrightarrow> off' = (if ex \<noteq> [] then ro1 - int (length (cmds_text todo')) + int (length w) else off)"
    using drain_conn [OF h todo(1) q1(1) st(3) q1(2), of junk k n1 pk1 pend1 li1 off ro1] by blast
  show ?thesis
  proof (cases "has c CLIENT_MASTER")
    case False
    have "readQueryFromClient junk (plain_exec (server_cmd k h)) False maxq (\<lambda>_. Read d) (s, ?c) =
        Some (s\<lparr>rnet := n'\<rparr>, Some (conn (replies_of h ex c) pk1 pend1 li1 off' ro1 r' st' q'))"
      using p(1) False unfolding readQuery_client [OF rl(1) dl(1) d(1) q1(3) False] pk1_def pend1_def li1_def ro1_def n1_def by simp
    moreover have "progress h s c off todo w (s\<lparr>rnet := n'\<rparr>) (replies_of h ex c) todo' (conn (replies_of h ex c) pk1 pend1 li1 off' ro1 r' st' q') off'"
      by (rule progressI [OF p(2,3,5,4)]) (use False in auto)
    ultimately show ?thesis by blast
  next
    case True
    let ?e = "length (cmds_text ex)" and ?x = "conn (replies_of h ex c) pk1 pend1 li1 off' ro1 r' st' q'"
    note mm = m [OF True]
    have pe: "pend1 @ w = cmds_text ex @ cmds_text todo'" using mm p(2) True by (simp add: pend1_def)
    note sp = split_stream [OF pe parked_left(1) [OF p(3)]]
    have "length pend + length d + length w = ?e + length (cmds_text todo')" using arg_cong [OF pe, of length] True by (simp add: pend1_def)
    then have off: "off' = off + int ?e" using p(6) [OF True] mm True by (cases "ex = []") (simp_all add: ro1_def)
    have "length pend < 65536" using mm parked_left(2) [OF st(1) todo(2) st(2)] a by (auto simp: cmd_fine_def dest!: arg_cong [of _ _ length])
    then have el: "?e < 2 ^ 31" using sp(3) dl(2) True by (simp add: pend1_def)
    have can: "list_all (can_feed (cmds_text ex)) (slaves s)" using mm p(2) list_all_feed_front [of "cmds_text ex" "cmds_text todo'"] by simp
    have eq: "readQueryFromClient junk (plain_exec (server_cmd k h)) False maxq (\<lambda>_. Read d) (s, ?c) =
        (if int ?e mod 2 ^ 64 \<noteq> 0 then do { t \<leftarrow> rdn pend1 0 (nat (int ?e mod 2 ^ 64)); s \<leftarrow> replicationFeedSlavesFromMasterStream t (s\<lparr>rnet := n'\<rparr>);
           Some (s, Some (?x\<lparr>pending_querybuf := str_range pend1 (signed_take_bit 31 (int ?e mod 2 ^ 64)) (- 1)\<rparr>)) }
         else Some (s\<lparr>rnet := n'\<rparr>, Some ?x))"
      using p(1) True off unfolding readQuery_master [OF rl(1) dl(1) d(1) q1(3) True] pk1_def pend1_def li1_def ro1_def n1_def by simp
    have ro: "ro1 = off' + int (length (drop ?e pend1))" using mm True sp(3) off by (simp add: ro1_def pend1_def of_nat_diff)
    have e64: "int ?e mod 2 ^ 64 = int ?e" "signed_take_bit 31 (int ?e) = int ?e" using el by (simp_all add: int32_id)
    obtain s' where s': "(if ?e \<noteq> 0 then replicationFeedSlavesFromMasterStream (cmds_text ex) (s\<lparr>rnet := n'\<rparr>) else Some (s\<lparr>rnet := n'\<rparr>)) = Some s'"
      "streamed s (cmds_text ex) s'"
      using feed_from_master [of "s\<lparr>rnet := n'\<rparr>" "cmds_text ex"] streamed_Nil [of s "cmds_text ex" n'] mm can request_text_not_Nil [of ex] by (cases "ex = []") (auto simp: rnet_indep)
    have "readQueryFromClient junk (plain_exec (server_cmd k h)) False maxq (\<lambda>_. Read d) (s, ?c) =
        Some (s', Some (conn (replies_of h ex c) pk1 (drop ?e pend1) li1 off' ro1 r' st' q'))"
      unfolding eq e64 using s'(1) sp(1) request_text_not_Nil [of ex] by (cases "ex = []") (auto simp: str_range_drop)
    moreover have "progress h s c off todo w s' (replies_of h ex c) todo' (conn (replies_of h ex c) pk1 (drop ?e pend1) li1 off' ro1 r' st' q') off'"
      by (rule progressI [OF p(2,3,5,4)]) (use True sp(2) ro off s'(2) in simp)
    ultimately show ?thesis by blast
  qed
qed


text \<open>The reads of a connection whose peer sends \<open>w\<close>: each returns at most \<open>k\<close> bytes and at most as
  many as it asks for.\<close>

fun read_all :: "(nat \<Rightarrow> u8) \<Rightarrow> exec \<Rightarrow> nat \<Rightarrow> nat list \<Rightarrow> repl \<times> client \<Rightarrow> bytes \<Rightarrow> (repl \<times> client option \<times> bytes) option" where
  "read_all junk exec maxq [] (s, c) w = Some (s, Some c, w)"
| "read_all junk exec maxq (k # ks) (s, c) w =
     (if w = [] then Some (s, Some c, w)
      else do {
        let m = min k (nat (read_len c));
        (s, co) \<leftarrow> readQueryFromClient junk exec False maxq (\<lambda>len. Read (take m w)) (s, c);
        case co of None \<Rightarrow> Some (s, None, w) | Some c \<Rightarrow> read_all junk exec maxq ks (s, c) (drop m w) })"

lemma parked_done: "parked todo st q [] \<Longrightarrow> stuck st q \<Longrightarrow> todo = []"
  by (cases "todo = []") (auto simp: parked_def stuck_def dest!: arg_cong [of _ _ length])

lemma read_nothing:
  assumes "has c CLIENT_MASTER \<Longrightarrow> pend = [] \<and> ro = off \<and> backlog_ok s \<and> list_all (can_feed []) (slaves s)"
  shows "\<exists>s' pk' pend' li' off' ro' r' st'. Some (s, Some (conn c pk pend li off ro r st []), []) = Some (s', Some (conn c pk' pend' li' off' ro' r' st' []), []) \<and>
    (if has c CLIENT_MASTER then pend' = [] \<and> off' = off + int 0 \<and> ro' = off' \<and> streamed s [] s' else \<exists>n. s' = s\<lparr>rnet := n\<rparr>)"
proof -
  have "\<exists>n. s = s\<lparr>rnet := n\<rparr>" by (rule exI [of _ "rnet s"]) simp
  then show ?thesis using assms streamed_Nil [of s "[]" "rnet s"]
    by (intro exI [of _ s] exI [of _ pk] exI [of _ pend] exI [of _ li] exI [of _ off] exI [of _ ro] exI [of _ r] exI [of _ st]) simp
qed

lemma read_stream:
  assumes "courteous J h" "J c" "list_all cmd_fine todo" "parked todo st q w" "stuck st q" "req_ok r st" "81920 \<le> maxq"
    and "has c CLIENT_MASTER \<Longrightarrow> pend @ w = cmds_text todo \<and> ro = off + int (length pend) \<and> backlog_ok s \<and> list_all (can_feed (cmds_text todo)) (slaves s)"
    and "list_all (\<lambda>k. 0 < k) ks" "length w \<le> length ks"
  shows "\<exists>s' pk' pend' li' off' ro' r' st'. read_all junk (plain_exec (server_cmd k h)) maxq ks (s, conn c pk pend li off ro r st q) w =
      Some (s', Some (conn (replies_of h todo c) pk' pend' li' off' ro' r' st' []), []) \<and>
    (if has c CLIENT_MASTER then pend' = [] \<and> off' = off + int (length (cmds_text todo)) \<and> ro' = off' \<and> streamed s (cmds_text todo) s'
     else \<exists>n. s' = s\<lparr>rnet := n\<rparr>)"
  using assms
proof (induction ks arbitrary: s c todo pk pend li off ro r st q w)
  case Nil
  then have "todo = []" using parked_done by simp
  then have z: "todo = []" "st = Fresh []" "q = []" "w = []" using Nil.prems(4) by (simp_all add: parked_def)
  show ?case unfolding z replies_of_simps(1) list.map(1) concat.simps(1) list.size(3) read_all.simps(1)
    by (rule read_nothing) (use Nil.prems(8) z in auto)
next
  case (Cons k0 ks)
  show ?case
  proof (cases "w = []")
    case True
    then have "todo = []" using Cons.prems(4,5) parked_done by simp
    then have z: "todo = []" "st = Fresh []" "q = []" "w = []" using Cons.prems(4) by (simp_all add: parked_def)
    show ?thesis unfolding z replies_of_simps(1) list.map(1) concat.simps(1) list.size(3) read_all.simps(2) eqTrueI [OF refl] if_True
      by (rule read_nothing) (use Cons.prems(8) z in auto)
  next
    case False
    then have todo: "todo \<noteq> []" using Cons.prems(4) by (auto simp: parked_def)
    let ?c = "conn c pk pend li off ro r st q"
    define m where "m = min k0 (nat (read_len ?c))"
    note rl = read_len_conn(1,2) [OF Cons.prems(3) todo Cons.prems(4,5), of c pk pend li off ro r]
    have m: "0 < m" "take m w \<noteq> []" "int (length (take m w)) \<le> read_len ?c" using Cons.prems(9) rl(1) False by (auto simp: m_def)
    obtain s1 c1 todo' x off1 where r1: "readQueryFromClient junk (plain_exec (server_cmd k h)) False maxq (\<lambda>_. Read (take m w)) (s, ?c) = Some (s1, Some x)"
      "progress h s c off todo (drop m w) s1 c1 todo' x off1"
      using read_one [OF Cons.prems(1-3) todo _ Cons.prems(5,6) m(2,3) Cons.prems(7), of "drop m w" s junk k] Cons.prems(4,8) by auto
    from r1(2) obtain ex pk1 pend1 li1 ro1 r1' st1 q1 where e: "todo = ex @ todo'" "c1 = replies_of h ex c" "x = conn c1 pk1 pend1 li1 off1 ro1 r1' st1 q1"
      "parked todo' st1 q1 (drop m w)" "stuck st1 q1" "req_ok r1' st1"
      "if has c CLIENT_MASTER then pend1 @ drop m w = cmds_text todo' \<and> ro1 = off1 + int (length pend1) \<and> off1 = off + int (length (cmds_text ex)) \<and>
         streamed s (cmds_text ex) s1 else \<exists>n. s1 = s\<lparr>rnet := n\<rparr>"
      unfolding progress_def by blast
    have k1: "J c1" "has c1 CLIENT_MASTER = has c CLIENT_MASTER" using replies_of_keeps [OF Cons.prems(1,2)] e(2) by auto
    have feed: "backlog_ok s1 \<and> list_all (can_feed (cmds_text todo')) (slaves s1)" if "has c CLIENT_MASTER"
      using e(1,7) that Cons.prems(8) list_all_feed_next [of "cmds_text ex" "cmds_text todo'" "slaves s" "slaves s1"] by (auto simp: streamed_def)
    have "length (drop m w) \<le> length ks" using Cons.prems(10) m(1) by simp
    then obtain s' pk' pend' li' off' ro' r' st' where f: "read_all junk (plain_exec (server_cmd k h)) maxq ks (s1, x) (drop m w) =
        Some (s', Some (conn (replies_of h todo' c1) pk' pend' li' off' ro' r' st' []), [])"
      "if has c CLIENT_MASTER then pend' = [] \<and> off' = off1 + int (length (cmds_text todo')) \<and> ro' = off' \<and> streamed s1 (cmds_text todo') s'
       else \<exists>n. s' = s1\<lparr>rnet := n\<rparr>"
      using Cons.IH [OF Cons.prems(1) k1(1) _ e(4-6) Cons.prems(7), of pend1 ro1 off1 s1 pk1 li1] feed k1(2) e(1,3,7) Cons.prems(3,9) by auto
    have "read_all junk (plain_exec (server_cmd k h)) maxq (k0 # ks) (s, ?c) w =
        Some (s', Some (conn (replies_of h todo c) pk' pend' li' off' ro' r' st' []), [])"
      using r1(1) f(1) False e(1,2) by (simp add: m_def [symmetric])
    moreover have "if has c CLIENT_MASTER then pend' = [] \<and> off' = off + int (length (cmds_text todo)) \<and> ro' = off' \<and> streamed s (cmds_text todo) s'
       else \<exists>n. s' = s\<lparr>rnet := n\<rparr>"
    proof (cases "has c CLIENT_MASTER")
      case True
      then show ?thesis using e(1,7) f(2) streamed_trans by auto
    next
      case False
      then obtain n n' where "s1 = s\<lparr>rnet := n\<rparr>" "s' = s1\<lparr>rnet := n'\<rparr>" using e(7) f(2) by auto
      then have "s' = s\<lparr>rnet := n'\<rparr>" by simp
      then have "\<exists>n. s' = s\<lparr>rnet := n\<rparr>" by blast
      then show ?thesis using False by simp
    qed
    ultimately show ?thesis by blast
  qed
qed


text \<open>The part of a client that the input side does not own.\<close>

definition output_part :: "client \<Rightarrow> client" where
  "output_part c = c\<lparr>querybuf := [], pending_querybuf := [], querybuf_peak := 0, argv := [], reqtype := 0, multibulklen := 0, bulklen := 0,
     lastinteraction := 0, read_reploff := 0, reploff := 0\<rparr>"

lemma output_part_conn: "output_part (conn c pk pend li off ro r st q) = output_part c"
  by (cases st) (simp_all add: output_part_def conn_def client_at_def with_state_def put_link_def)

definition idle :: "client \<Rightarrow> bool" where
  "idle c \<longleftrightarrow> querybuf c = [] \<and> pending_querybuf c = [] \<and> argv c = [] \<and> reqtype c = 0 \<and> multibulklen c = 0 \<and> bulklen c = - 1 \<and> read_reploff c = reploff c"

lemma idle_conn: "idle c \<Longrightarrow> conn c (querybuf_peak c) [] (lastinteraction c) (reploff c) (reploff c) 0 (Fresh []) [] = c"
  by (cases c) (simp add: idle_def conn_def client_at_def with_state_def put_link_def)

lemma parked_start:
  assumes "list_all cmd_fine cmds"
  obtains st where "parked cmds st [] (cmds_text cmds)" "stuck st []" "req_ok 0 st" "\<And>c pk pend li off ro. conn c pk pend li off ro 0 st [] = conn c pk pend li off ro 0 (Fresh []) []"
proof (cases cmds)
  case Nil
  then show ?thesis by (intro that [of "Fresh []"]) (simp_all add: parked_def stuck_def req_ok_def request_text_def hdr_def)
next
  case (Cons a cmds')
  then show ?thesis using assms
    by (intro that [of "Fresh a"]) (simp_all add: parked_def stuck_def req_ok_def request_text_def hdr_def cmd_fine_def conn_def client_at_def)
qed

lemma read_commands:
  assumes "courteous J h" "J c" "idle c" "list_all cmd_fine cmds" "81920 \<le> maxq"
    and "has c CLIENT_MASTER \<longrightarrow> backlog_ok s \<and> list_all (can_feed (cmds_text cmds)) (slaves s)"
    and "list_all (\<lambda>k. 0 < k) ks" "length (cmds_text cmds) \<le> length ks"
  shows "\<exists>s' c'. read_all junk (plain_exec (server_cmd k h)) maxq ks (s, c) (cmds_text cmds) = Some (s', Some c', []) \<and>
    output_part c' = output_part (replies_of h cmds c) \<and> querybuf c' = [] \<and>
    (if has c CLIENT_MASTER
     then pending_querybuf c' = [] \<and> reploff c' = reploff c + int (length (cmds_text cmds)) \<and> read_reploff c' = reploff c' \<and> streamed s (cmds_text cmds) s'
     else \<exists>n. s' = s\<lparr>rnet := n\<rparr>)"
proof -
  obtain st where st: "parked cmds st [] (cmds_text cmds)" "stuck st []" "req_ok 0 st"
    "conn c (querybuf_peak c) [] (lastinteraction c) (reploff c) (reploff c) 0 st [] = c"
    using parked_start [OF assms(4)] idle_conn [OF assms(3)] by metis
  have "has c CLIENT_MASTER \<Longrightarrow> [] @ cmds_text cmds = cmds_text cmds \<and> reploff c = reploff c + int (length ([] :: bytes)) \<and>
      backlog_ok s \<and> list_all (can_feed (cmds_text cmds)) (slaves s)" using assms(6) by simp
  from read_stream [OF assms(1,2,4) st(1-3) assms(5) this assms(7,8), of junk k "querybuf_peak c" "lastinteraction c"]
  show ?thesis unfolding st(4) using output_part_conn by fastforce
qed

subsection \<open>Properties\<close>

text \<open>C2: Pipelining works for any fragmentation of the input. Let a client send a sequence of commands in the multi
  bulk format, each at most 64 KB long, and let the reads return it in pieces of any sizes. Then every
  command is executed once, in order and with its own argument vector: what the commands leave on the
  connection, their replies, is what running them one after the other leaves. Nothing stays in the query
  buffer, and the slaves of the server and its backlog are not touched.\<close>

theorem pipelined_commands_in_order:
  assumes "courteous J h" "J c" "idle c" "\<not> has c CLIENT_MASTER" "list_all cmd_fine cmds" "81920 \<le> maxq"
    and "list_all (\<lambda>k. 0 < k) ks" "length (cmds_text cmds) \<le> length ks"
  shows "\<exists>n c'. read_all junk (plain_exec (server_cmd k h)) maxq ks (s, c) (cmds_text cmds) = Some (s\<lparr>rnet := n\<rparr>, Some c', []) \<and>
    output_part c' = output_part (replies_of h cmds c) \<and> querybuf c' = []"
  using read_commands [OF assms(1-3,5,6) _ assms(7,8), of s junk k] assms(4) by auto

text \<open>A connection for examples: every command queues its own arguments as a reply.\<close>

definition echo :: "robj list \<Rightarrow> client \<Rightarrow> client" where
  "echo args c = c\<lparr>reply := reply c @ [Some (concat (map obj_text args))]\<rparr>"

lemma courteous_echo: "courteous steady echo"
proof -
  have "has (c\<lparr>reply := x\<rparr>) f = has c f" "has (put_link pk pend li c) f = has c f" for c x f pk pend li by (simp_all add: has_def put_link_def)
  then show ?thesis
    by (auto simp: courteous_def echo_def steady_def put_link_def put_parser_def with_state_def)
qed

theorem pipelined_commands_in_order_witness:
  "\<exists>s' c'. read_all (\<lambda>_. 7) (plain_exec (server_cmd (\<lambda>args n. n) echo)) 1000000 (replicate 40 3) (master0, client0)
       (cmds_text [[str ''PING''], [str ''GET'', str ''x'']]) = Some (s', Some c', []) \<and>
     reply c' = [Some (str ''PING''), Some (str ''GETx'')]"
proof -
  let ?cmds = "[[str ''PING''], [str ''GET'', str ''x'']]"
  have t: "cmds_text ?cmds = str ''*1'' @ crlf @ str ''$4'' @ crlf @ str ''PING'' @ crlf @ str ''*2'' @ crlf @ str ''$3'' @ crlf @ str ''GET'' @ crlf @ str ''$1'' @ crlf @ str ''x'' @ crlf"
    by (simp add: request_text_def bulk_def hdr_def str_def dec_int_def dec_nat_small)
  have f: "list_all cmd_fine ?cmds"
    by (simp add: cmd_fine_def request_fine_def args_fine_def request_text_def bulk_def hdr_def str_def dec_int_def dec_nat_small)
  have c: "steady client0" "idle client0" "\<not> has client0 CLIENT_MASTER" by (simp_all add: steady_def idle_def has_def client0_def)
  have l: "list_all (\<lambda>k. 0 < k) (replicate 40 (3 :: nat))" "length (cmds_text ?cmds) \<le> length (replicate 40 (3 :: nat))" "81920 \<le> (1000000 :: nat)"
    unfolding t by (simp_all add: list_all_iff str_def)
  obtain s' c' where r: "read_all (\<lambda>_. 7) (plain_exec (server_cmd (\<lambda>args n. n) echo)) 1000000 (replicate 40 3) (master0, client0) (cmds_text ?cmds) =
      Some (s', Some c', [])" "output_part c' = output_part (replies_of echo ?cmds client0)"
    using pipelined_commands_in_order [OF courteous_echo c f l(3,1,2), of "\<lambda>_. 7" "\<lambda>args n. n" master0] by blast
  have "reply c' = [Some (str ''PING''), Some (str ''GETx'')]"
    using arg_cong [OF r(2), of reply] by (simp add: output_part_def echo_def client0_def str_def)
  with r(1) show ?thesis by blast
qed

text \<open>C4: A large argument that is completed while clients are paused costs the client its connection. When the
  parser waits for an argument of at least 32 KB, \<open>readQueryFromClient\<close> asks for what is missing of it. If
  clients are paused when the last of it arrives, the argument stays in the query buffer. The next read
  asks for zero bytes, gets zero, takes that for the end of the connection and frees the client, whatever
  the peer has sent.\<close>

theorem paused_large_argument_disconnects:
  assumes "reqtype c = PROTO_REQ_MULTIBULK" "multibulklen c \<noteq> 0" "bulklen c = int b" "32768 \<le> b" "b \<le> 512 * 1024 * 1024"
    and "length (querybuf c) + length d = b + 2" "d \<noteq> []" "length d \<le> 16384" "b + 2 \<le> maxq"
    and "\<not> has c CLIENT_SLAVE" "\<not> has c CLIENT_MASTER"
  shows "\<exists>s' c'. readQueryFromClient junk exec True maxq (\<lambda>len. Read (take len (d @ later))) (s, c) = Some (s', Some c') \<and>
    readQueryFromClient junk exec True maxq (\<lambda>len. Read (take len later)) (s', c') = Some (s', None)"
proof -
  have m: "(int b + 2) mod 2 ^ 32 = int b + 2" using assms(5) by simp
  have rem: "int b + 2 - int (length (querybuf c)) = int (length d)" using assms(6) by simp
  have rl: "read_len c = int (length d)"
    using assms(1-4,8) m int32_id [of "int (length d)"] by (simp add: read_len_def Let_def rem)
  define c1 where "c1 = c\<lparr>querybuf_peak := max (querybuf_peak c) (length (querybuf c)), querybuf := querybuf c @ d, lastinteraction := unixtime (rnet s)\<rparr>"
  define n1 where "n1 = (rnet s)\<lparr>stat_net_input_bytes := stat_net_input_bytes (rnet s) + length d\<rparr>"
  have f: "has c1 x = has c x" for x by (simp add: c1_def has_def)
  have "processInputBuffer junk exec True (n1, c1) = Some (n1, c1)"
    using assms(7,10) f by (subst processInputBuffer.simps) (simp add: c1_def)
  moreover have "readQueryFromClient junk exec True maxq (\<lambda>len. Read (take len (d @ later))) (s, c) = do {
      (n, c) \<leftarrow> processInputBuffer junk exec True (n1, c1); Some (s\<lparr>rnet := n\<rparr>, Some c) }"
    using assms(6,7,9,11) by (simp add: readQueryFromClient_def rl has_def n1_def c1_def max_def Let_def)
  moreover have "read_len c1 = 0"
    using assms(1-6) m by (simp add: read_len_def Let_def c1_def)
  then have "readQueryFromClient junk exec True maxq (\<lambda>len. Read (take len later)) (s\<lparr>rnet := n1\<rparr>, c1) = Some (s\<lparr>rnet := n1\<rparr>, None)"
    by (simp add: readQueryFromClient_def)
  ultimately show ?thesis by simp
qed

theorem paused_large_argument_disconnects_witness:
  "\<exists>s' c'. readQueryFromClient (\<lambda>_. 7) (plain_exec (\<lambda>args nc. nc)) True 1000000 (\<lambda>len. Read (take len ([13, 10] @ str ''*1'')))
       (master0, client0\<lparr>reqtype := 2, multibulklen := 1, bulklen := 32768, querybuf := replicate 32768 65\<rparr>) = Some (s', Some c') \<and>
     readQueryFromClient (\<lambda>_. 7) (plain_exec (\<lambda>args nc. nc)) True 1000000 (\<lambda>len. Read (take len (str ''*1''))) (s', c') = Some (s', None)"
  by (rule paused_large_argument_disconnects [where b = 32768]) (simp_all add: has_def client0_def)

end
