(* ===== verification/Request_Safe.thy ===== *)
theory Request_Safe
  imports Request
begin

unbundle bit_operations_syntax

text \<open>
  Whatever bytes a client sends, the parsers stay inside of the query buffer, keep the parser's fields
  in their ranges, and the loop over the commands of the buffer ends. A malformed request is answered
  with an error and the connection is closed behind it.
\<close>

subsection \<open>Errors\<close>

text \<open>A client with room in its output queue for an error message.\<close>

definition fit :: "client \<Rightarrow> bool" where
  "fit c \<longleftrightarrow> client_ok c \<and> length (queue c) + 200 \<le> out_max"

text \<open>The types of the parser's fields between two calls.\<close>

definition parser_ok :: "client \<Rightarrow> bool" where
  "parser_ok c \<longleftrightarrow> length (querybuf c) < 2 ^ 31 \<and>
     (if multibulklen c = 0 then argv c = [] \<and> bulklen c = - 1 \<and>
        (reqtype c = 0 \<or> reqtype c = PROTO_REQ_INLINE \<or> reqtype c = PROTO_REQ_MULTIBULK \<and> querybuf c \<noteq> [] \<and> hd (querybuf c) = 42)
      else reqtype c = PROTO_REQ_MULTIBULK \<and> 0 < multibulklen c \<and> multibulklen c \<le> 1024 * 1024 \<and>
        (bulklen c = - 1 \<or> 0 \<le> bulklen c \<and> bulklen c \<le> 512 * 1024 * 1024))"

definition rejected :: "client \<Rightarrow> client \<Rightarrow> bool" where
  "rejected c c' \<longleftrightarrow> has c' CLIENT_CLOSE_AFTER_REPLY \<and> client_ok c' \<and> length (querybuf c') \<le> length (querybuf c)"

lemma addReplyError_safe:
  assumes "fit c" "\<not> has c CLIENT_CLOSE_AFTER_REPLY" "length e \<le> 100"
  shows "\<exists>n' c'. addReplyErrorLength (n, c) e = Some (n', c') \<and> frame c' = frame c \<and> client_ok c'"
proof (cases "writable c")
  case True
  then have "accepting (frame c, None) (n, c)" using assms(1,2) by (simp add: accepting_def accepts_def fit_def)
  moreover have "length (out_queue (n, c)) + length (str ''-ERR '' @ e @ crlf) \<le> out_max" using assms(1,3) by (simp add: fit_def str_def)
  ultimately show ?thesis
    using cl.emitsD [OF emits_error(1)] by (fastforce simp: accepting_def)
next
  case False
  then show ?thesis using assms(1) by (simp add: addReplyErrorLength_def addReplyString_def prepare_refused fit_def)
qed

lemma client_ok_cong:
  "buf c' = buf c \<Longrightarrow> bufpos c' = bufpos c \<Longrightarrow> reply c' = reply c \<Longrightarrow> reply_bytes c' = reply_bytes c \<Longrightarrow> sentlen c' = sentlen c \<Longrightarrow>
    client_ok c' = client_ok c"
  by (simp add: client_ok_def sent_ok_def cong: list.case_cong option.case_cong)

lemma setProtocolError_safe:
  assumes "frame c' = frame c" "client_ok c'"
  shows "rejected c (setProtocolError c' (int pos))"
proof -
  have q: "querybuf c' = querybuf c" using frame_sel(5) [of c] frame_sel(5) [of c'] assms(1) by simp
  have "has (c'\<lparr>flags := flags c' OR CLIENT_CLOSE_AFTER_REPLY, querybuf := z\<rparr>) CLIENT_CLOSE_AFTER_REPLY" for z
    by (simp add: has_def bit.conj_disj_distrib2 or_eq_0_iff)
  moreover have "client_ok (c'\<lparr>flags := f, querybuf := z\<rparr>)" for f z
    using assms(2) client_ok_cong [of "c'\<lparr>flags := f, querybuf := z\<rparr>" c'] by simp
  ultimately show ?thesis by (simp add: rejected_def setProtocolError_def trim_query_drop q)
qed

lemma protocol_error_safe:
  assumes "fit c" "\<not> has c CLIENT_CLOSE_AFTER_REPLY" "length e \<le> 100"
  shows "\<exists>n' c'. protocol_error (n, c) e (int pos) = Some (n', c') \<and> rejected c c'"
proof -
  have "length (cstring e) \<le> 100" using assms(3) by (simp add: cstring_def order_trans [OF length_takeWhile_le])
  then obtain n' c' where "addReplyErrorLength (n, c) (cstring e) = Some (n', c')" "frame c' = frame c" "client_ok c'"
    using addReplyError_safe [OF assms(1,2)] by blast
  then show ?thesis using setProtocolError_safe [of c' c pos] by (simp add: protocol_error_def addReplyError_def)
qed

lemma fail_at_safe:
  assumes "fit c" "\<not> has c CLIENT_CLOSE_AFTER_REPLY" "length e \<le> 100"
  shows "\<exists>n' c'. fail_at (n, c) e (int pos) = Some (Fail (0, n', c')) \<and> rejected c c'"
  using protocol_error_safe [OF assms, of n pos] by (auto simp: fail_at_def)


subsection \<open>The multi bulk parser\<close>

text \<open>What each pass of the multi bulk loop keeps.\<close>

definition loop_ok :: "nat \<Rightarrow> client \<Rightarrow> bool" where
  "loop_ok pos c \<longleftrightarrow> pos \<le> length (querybuf c) \<and> length (querybuf c) < 2 ^ 31 \<and> 0 \<le> multibulklen c \<and> multibulklen c \<le> 1024 * 1024 \<and>
     (bulklen c = - 1 \<or> 0 \<le> bulklen c \<and> bulklen c \<le> 512 * 1024 * 1024 \<and> 0 < multibulklen c)"

definition core :: "client \<Rightarrow> client" where
  "core c = c\<lparr>querybuf := [], argv := [], multibulklen := 0, bulklen := 0\<rparr>"

definition only_parser :: "client \<Rightarrow> client \<Rightarrow> bool" where
  "only_parser c c' \<longleftrightarrow> core c' = core c \<and> length (querybuf c') \<le> length (querybuf c)"

text \<open>The number of bytes that are still to be parsed; \<open>k\<close> bounds it when a pass goes on.\<close>

definition left :: "nat \<Rightarrow> client \<Rightarrow> nat" where
  "left pos c = length (querybuf c) - pos"

primrec outcome_ok :: "nat \<Rightarrow> net \<Rightarrow> client \<Rightarrow> (nat \<times> net \<times> client) outcome \<Rightarrow> bool" where
  "outcome_ok k n c (Go r) \<longleftrightarrow> (case r of (pos, n', c') \<Rightarrow> n' = n \<and> loop_ok pos c' \<and> only_parser c c' \<and> left pos c' < k)"
| "outcome_ok k n c (Wait r) \<longleftrightarrow> (case r of (pos, n', c') \<Rightarrow> n' = n \<and> loop_ok pos c' \<and> only_parser c c' \<and> 0 < multibulklen c')"
| "outcome_ok k n c (Fail r) \<longleftrightarrow> rejected c (snd (snd r))"

lemma core_upd [simp]:
  "core (c\<lparr>querybuf := q\<rparr>) = core c" "core (c\<lparr>argv := xs\<rparr>) = core c" "core (c\<lparr>multibulklen := m\<rparr>) = core c" "core (c\<lparr>bulklen := b\<rparr>) = core c"
  by (simp_all add: core_def)

lemma only_parser_refl: "only_parser c c"
  by (simp add: only_parser_def)

lemma only_parser_trans: "only_parser c c' \<Longrightarrow> only_parser c' c'' \<Longrightarrow> only_parser c c''"
  by (simp add: only_parser_def)

lemma core_sel:
  "buf (core c) = buf c" "bufpos (core c) = bufpos c" "reply (core c) = reply c" "reply_bytes (core c) = reply_bytes c"
  "sentlen (core c) = sentlen c" "flags (core c) = flags c" "reqtype (core c) = reqtype c"
  by (simp_all add: core_def)

lemma only_parser_facts:
  assumes "only_parser c c'"
  shows "fit c' = fit c" "has c' f = has c f" "reqtype c' = reqtype c" "flags c' = flags c" "length (querybuf c') \<le> length (querybuf c)"
proof -
  have e: "core c' = core c" using assms by (simp add: only_parser_def)
  note f = core_sel [of c, folded e, unfolded core_sel]
  show "fit c' = fit c" using client_ok_cong [of c' c] f by (simp add: fit_def queue_def)
qed (use assms core_sel [of c] core_sel [of c'] in \<open>simp_all add: only_parser_def has_def\<close>)

lemma strchr_SomeD: "strchr s ch = Some k \<Longrightarrow> k < length s \<and> s ! k = ch"
  by (auto simp: strchr_def Let_def split: if_splits)

lemma outcome_ok_mono: "outcome_ok k n c r \<Longrightarrow> k \<le> k' \<Longrightarrow> outcome_ok k' n c r"
  by (cases r) auto

lemma read_bulklen_safe:
  assumes "fit c" "\<not> has c CLIENT_CLOSE_AFTER_REPLY" "loop_ok pos c" "0 < multibulklen c"
  shows "\<exists>r. read_bulklen pos (n, c) = Some r \<and> outcome_ok (left pos c) n c r"
proof -
  let ?q = "querybuf c"
  have pos: "pos \<le> length ?q" "signed_len ?q = int (length ?q)" using assms(3) by (auto simp: loop_ok_def signed_len_eq)
  have l: "length (str ''Protocol error: too big bulk count string'') \<le> 100" "length (str ''Protocol error: invalid bulk length'') \<le> 100"
    by (simp_all add: str_def)
  note err = fail_at_safe [OF assms(1,2) l(1), of n 0] fail_at_safe [OF assms(1,2) l(2), of n pos]
  have wait: "outcome_ok (left pos c) n c (Wait (pos, n, c))" using assms(3,4) only_parser_refl by simp
  show ?thesis
  proof (cases "strchr (drop pos ?q) 13")
    case None
    then show ?thesis using pos wait err(1) by (cases "length ?q > 65536") (auto simp: read_bulklen_def)
  next
    case (Some k)
    let ?nl = "pos + k"
    show ?thesis
    proof (cases "int ?nl > signed_len ?q - 2")
      case True
      then show ?thesis using Some pos wait by (auto simp: read_bulklen_def)
    next
      case False
      then have nl: "?nl + 2 \<le> length ?q" using pos by simp
      define s where "s = string2ll (take (k - Suc 0) (drop (Suc pos) ?q))"
      consider "?q ! pos \<noteq> 36" | "?q ! pos = 36" "s = None \<or> (\<exists>ll. s = Some ll \<and> (sint ll < 0 \<or> sint ll > 512 * 1024 * 1024))"
        | ll where "?q ! pos = 36" "s = Some ll" "0 \<le> sint ll" "sint ll \<le> 512 * 1024 * 1024"
        using linorder_not_less by (cases s) (blast, blast)
      then show ?thesis
      proof cases
        case 1
        let ?e = "str ''Protocol error: expected '' @ [39, 36, 39] @ str '', got '' @ [39, ?q ! pos, 39]"
        obtain n' c' where "addReplyErrorFormat (n, c) ?e = Some (n', c')" "frame c' = frame c" "client_ok c'"
          using addReplyError_safe [OF assms(1,2), of "map (\<lambda>b. if b = 13 \<or> b = 10 then 32 else b) ?e" n]
          by (auto simp: addReplyErrorFormat_def str_def)
        then show ?thesis using 1 Some pos False setProtocolError_safe [of c' c pos] by (simp add: read_bulklen_def Let_def)
      next
        case 2
        then show ?thesis using Some pos False err(2) by (auto simp: read_bulklen_def Let_def s_def [symmetric])
      next
        case 3
        then have eq: "read_bulklen pos (n, c) = Some (Go (if sint ll \<ge> 32768 then (0, n, trim_query (int (?nl + 2)) c\<lparr>bulklen := sint ll\<rparr>)
            else (?nl + 2, n, c\<lparr>bulklen := sint ll\<rparr>)))"
          using Some pos False by (simp add: read_bulklen_def Let_def s_def [symmetric])
        show ?thesis unfolding eq trim_query_drop using 3(3,4) nl assms(3,4) by (auto simp: loop_ok_def only_parser_def left_def)
      qed
    qed
  qed
qed


lemma read_bulk_safe:
  assumes "loop_ok pos c" "0 < multibulklen c" "0 \<le> bulklen c"
  shows "\<exists>r. read_bulk pos (n, c) = Some r \<and> outcome_ok (left pos c) n c r \<and> (\<forall>p. r = Go p \<longrightarrow> bulklen (snd (snd p)) = - 1)"
proof -
  obtain k where k: "bulklen c = int k" using assms(3) nonneg_int_cases by blast
  let ?q = "querybuf c"
  have b: "k \<le> 512 * 1024 * 1024" "pos \<le> length ?q" "length ?q < 2 ^ 31" using assms k by (auto simp: loop_ok_def)
  have m: "(int (length ?q) - int pos) mod 2 ^ 64 < (bulklen c + 2) mod 2 ^ 32 \<longleftrightarrow> length ?q - pos < k + 2"
  proof -
    have "int (length ?q) - int pos = int (length ?q - pos)" "int k + 2 = int (k + 2)" using b(2) by simp_all
    moreover have "int (length ?q - pos) mod 2 ^ 64 = int (length ?q - pos)" "int (k + 2) mod 2 ^ 32 = int (k + 2)" using b by simp_all
    ultimately show ?thesis unfolding k by (simp only: of_nat_less_iff)
  qed
  show ?thesis
  proof (cases "length ?q - pos < k + 2")
    case True
    then have "read_bulk pos (n, c) = Some (Wait (pos, n, c))" unfolding read_bulk_def prod.case Let_def m by simp
    then show ?thesis using assms only_parser_refl by simp
  next
    case False
    then have r: "rdn ?q pos k = Some (take k (drop pos ?q))" using b by (simp add: rdn_def)
    show ?thesis
    proof (cases "pos = 0 \<and> bulklen c \<ge> 32768 \<and> signed_len ?q = bulklen c + 2")
      case True
      then have "read_bulk pos (n, c) = Some (Go (0, n, c\<lparr>querybuf := [], argv := argv c @ [Str_obj (take (length ?q - 2) ?q)], bulklen := - 1,
          multibulklen := multibulklen c - 1\<rparr>))"
        unfolding read_bulk_def prod.case Let_def m using False by simp
      then show ?thesis using assms(1,2) False by (auto simp: loop_ok_def only_parser_def left_def)
    next
      case nf: False
      then have "read_bulk pos (n, c) = Some (Go (pos + k + 2, n, c\<lparr>argv := argv c @ [Str_obj (take k (drop pos ?q))], bulklen := - 1,
          multibulklen := multibulklen c - 1\<rparr>))"
        unfolding read_bulk_def prod.case Let_def m using False r k by simp
      then show ?thesis using False assms(1,2) b by (auto simp: loop_ok_def only_parser_def left_def)
    qed
  qed
qed

lemma mb_loop_safe:
  assumes "fit c" "\<not> has c CLIENT_CLOSE_AFTER_REPLY" "loop_ok pos c"
  shows "\<exists>r. mb_loop pos (n, c) = Some r \<and> outcome_ok (if 0 < multibulklen c then left pos c else left pos c + 1) n c r \<and> (\<forall>p. r = Go p \<longrightarrow> multibulklen (snd (snd p)) = 0)"
  using assms
proof (induction "nat (multibulklen c)" arbitrary: pos c rule: less_induct)
  case less
  show ?case
  proof (cases "multibulklen c \<le> 0")
    case True
    then show ?thesis using less.prems(3) only_parser_refl by (subst mb_loop.simps) (auto simp: loop_ok_def)
  next
    case False
    then have pos: "(if 0 < multibulklen c then left pos c else left pos c + 1) = left pos c" by simp
    let ?first = "if bulklen c = - 1 then read_bulklen pos (n, c) else Some (Go (pos, n, c))"
    obtain r where r: "?first = Some r" "outcome_ok (left pos c + 1) n c r"
      using read_bulklen_safe [OF less.prems, of n] False less.prems(3) only_parser_refl by (cases "bulklen c = - 1") (auto dest: outcome_ok_mono [where k' = "left pos c + 1"])
    show ?thesis
    proof (cases r)
      case (Go p)
      obtain pos1 n1 c1 where p: "p = (pos1, n1, c1)" by (metis surj_pair)
      have 1: "n1 = n" "loop_ok pos1 c1" "only_parser c c1" "left pos1 c1 \<le> left pos c" using r(2) Go p by auto
      have keep: "multibulklen c1 = multibulklen c \<and> 0 \<le> bulklen c1" using r(1) Go p less.prems(3)
        by (auto simp: read_bulklen_def fail_at_def trim_query_def Let_def bind_eq_Some_conv loop_ok_def split: if_splits option.splits prod.splits)
      obtain r2 where r2: "read_bulk pos1 (n, c1) = Some r2" "outcome_ok (left pos1 c1) n c1 r2" "\<forall>p. r2 = Go p \<longrightarrow> bulklen (snd (snd p)) = - 1"
        using read_bulk_safe [OF 1(2), of n] keep False by (metis linorder_not_le)
      have eq: "mb_loop pos (n, c) = (case r2 of Go (pos, nc) \<Rightarrow> mb_loop pos nc | _ \<Rightarrow> Some r2)"
        using False r(1) Go p 1(1) r2(1) by (subst mb_loop.simps) simp
      show ?thesis
      proof (cases r2)
        case go2: (Go p2)
        obtain pos2 n2 c2 where p2: "p2 = (pos2, n2, c2)" by (metis surj_pair)
        have 2: "n2 = n" "loop_ok pos2 c2" "only_parser c1 c2" "left pos2 c2 < left pos1 c1" using r2(2) go2 p2 by auto
        have "multibulklen c2 = multibulklen c1 - 1" using r2(1) go2 p2
          by (auto simp: read_bulk_def Let_def bind_eq_Some_conv split: if_splits)
        then have less2: "nat (multibulklen c2) < nat (multibulklen c)" using keep False by simp
        have o: "only_parser c c2" using only_parser_trans [OF 1(3) 2(3)] .
        obtain r3 where r3: "mb_loop pos2 (n, c2) = Some r3" "outcome_ok (left pos c) n c2 r3" "\<forall>p. r3 = Go p \<longrightarrow> multibulklen (snd (snd p)) = 0"
        proof -
          have "(if 0 < multibulklen c2 then left pos2 c2 else left pos2 c2 + 1) \<le> left pos c" using 1(4) 2(4) by simp
          then show ?thesis using that less.hyps [OF less2 _ _ 2(2)] less.prems(1,2) only_parser_facts(1,2) [OF o] outcome_ok_mono by metis
        qed
        have "outcome_ok (left pos c) n c r3" using r3(2) only_parser_trans [OF o] only_parser_facts(5) [OF o]
          by (cases r3) (auto simp: rejected_def)
        then show ?thesis unfolding pos using eq go2 p2 2(1) r3 by simp
      qed (use pos eq r2(2) only_parser_trans [OF 1(3)] only_parser_facts(5) [OF 1(3)] in \<open>auto simp: rejected_def\<close>)
    qed (use r False in \<open>(subst mb_loop.simps, simp)+\<close>)
  qed
qed


subsection \<open>One request\<close>

definition parsed :: "net \<Rightarrow> client \<Rightarrow> bool \<Rightarrow> net \<Rightarrow> client \<Rightarrow> bool" where
  "parsed n c ok n' c' \<longleftrightarrow>
     (if ok then n' = n \<and> fit c' \<and> flags c' = flags c \<and> multibulklen c' = 0 \<and> bulklen c' = - 1 \<and>
        length (querybuf c') < length (querybuf c)
      else rejected c c' \<or> n' = n \<and> fit c' \<and> flags c' = flags c \<and> parser_ok c' \<and> length (querybuf c') \<le> length (querybuf c))"

lemma parser_ok_type: "parser_ok c \<Longrightarrow> reqtype c = 0 \<Longrightarrow> querybuf c \<noteq> [] \<Longrightarrow>
    parser_ok (c\<lparr>reqtype := if hd (querybuf c) = 42 then PROTO_REQ_MULTIBULK else PROTO_REQ_INLINE\<rparr>)"
  by (auto simp: parser_ok_def split: if_splits)

lemma read_multibulklen_safe:
  assumes "fit c" "\<not> has c CLIENT_CLOSE_AFTER_REPLY" "parser_ok c" "reqtype c = PROTO_REQ_MULTIBULK" "multibulklen c = 0"
  shows "\<exists>r. read_multibulklen (n, c) = Some r \<and> (case r of Inl (ok, n', c') \<Rightarrow> parsed n c ok n' c'
    | Inr (pos, n', c') \<Rightarrow> n' = n \<and> (\<exists>m. c' = c\<lparr>multibulklen := m, argv := []\<rparr> \<and> 0 < m \<and> m \<le> 1024 * 1024) \<and> pos \<le> length (querybuf c))"
proof -
  let ?q = "querybuf c"
  have q: "?q \<noteq> []" "?q ! 0 = 42" "argv c = []" "bulklen c = - 1" "signed_len ?q = int (length ?q)"
    using assms(3-5) by (auto simp: parser_ok_def hd_conv_nth signed_len_eq)
  have l: "length (str ''Protocol error: too big mbulk count string'') \<le> 100" "length (str ''Protocol error: invalid multibulk length'') \<le> 100"
    by (simp_all add: str_def)
  note err = protocol_error_safe [OF assms(1,2) l(1), of n 0] protocol_error_safe [OF assms(1,2) l(2), of n 0]
  have wait: "parsed n c False n c" using assms(1,3) by (simp add: parsed_def)
  show ?thesis
  proof (cases "strchr ?q 13")
    case None
    then show ?thesis using q wait err(1) by (cases "length ?q > 65536") (auto simp: read_multibulklen_def parsed_def)
  next
    case (Some nl)
    show ?thesis
    proof (cases "int nl > signed_len ?q - 2")
      case True
      then show ?thesis using Some q wait by (auto simp: read_multibulklen_def)
    next
      case False
      then have nl: "nl + 2 \<le> length ?q" using q(5) by simp
      define z where "z = string2ll (take (nl - Suc 0) (drop (Suc 0) ?q))"
      consider "z = None \<or> (\<exists>ll. z = Some ll \<and> sint ll > 1024 * 1024)" | ll where "z = Some ll" "sint ll \<le> 0"
        | ll where "z = Some ll" "0 < sint ll" "sint ll \<le> 1024 * 1024"
        using linorder_not_less by (cases z) (blast, blast)
      then show ?thesis
      proof cases
        case 1
        then show ?thesis using Some q(2,3) False err(2) by (auto simp: read_multibulklen_def Let_def z_def [symmetric] parsed_def)
      next
        case 2
        then have eq: "read_multibulklen (n, c) = Some (Inl (True, n, trim_query (int (nl + 2)) c))"
          using Some q(2,3) False by (simp add: read_multibulklen_def Let_def z_def [symmetric])
        have "only_parser c (c\<lparr>querybuf := drop (nl + 2) ?q\<rparr>)" by (simp add: only_parser_def)
        from only_parser_facts [OF this] show ?thesis
          unfolding eq trim_query_drop using assms(1,5) q nl by (simp add: parsed_def)
      next
        case 3
        then have "read_multibulklen (n, c) = Some (Inr (nl + 2, n, c\<lparr>multibulklen := sint ll, argv := []\<rparr>))"
          using Some q(2,3) False by (simp add: read_multibulklen_def Let_def z_def [symmetric])
        then show ?thesis using 3 nl by auto
      qed
    qed
  qed
qed

lemma mb_result:
  assumes "only_parser c c'" "loop_ok pos c'" "fit c" "reqtype c = PROTO_REQ_MULTIBULK"
    and "c'' = (if pos \<noteq> 0 then trim_query (int pos) c' else c')"
  shows "fit c''" "flags c'' = flags c" "multibulklen c'' = multibulklen c'" "bulklen c'' = bulklen c'" "length (querybuf c'') = left pos c'"
    "0 < multibulklen c' \<Longrightarrow> parser_ok c''" "length (querybuf c'') \<le> length (querybuf c)"
proof -
  have c: "c'' = c'\<lparr>querybuf := drop pos (querybuf c')\<rparr>" using assms(5) by (simp add: trim_query_drop)
  have o: "only_parser c c''" using assms(1) unfolding c only_parser_def by auto
  show "fit c''" "flags c'' = flags c" "length (querybuf c'') \<le> length (querybuf c)" using only_parser_facts [OF o] assms(3) by simp_all
  show "multibulklen c'' = multibulklen c'" "bulklen c'' = bulklen c'" "length (querybuf c'') = left pos c'" using c by (simp_all add: left_def)
  show "parser_ok c''" if "0 < multibulklen c'"
    using that assms(2,4) only_parser_facts(3) [OF o] unfolding c by (auto simp: parser_ok_def loop_ok_def)
qed

lemma processMultibulkBuffer_safe:
  assumes "fit c" "\<not> has c CLIENT_CLOSE_AFTER_REPLY" "parser_ok c" "reqtype c = PROTO_REQ_MULTIBULK"
  shows "\<exists>ok n' c'. processMultibulkBuffer (n, c) = Some (ok, n', c') \<and> parsed n c ok n' c'"
proof -
  let ?first = "if multibulklen c = 0 then read_multibulklen (n, c) else Some (Inr (0, n, c))"
  consider ok n' c' where "?first = Some (Inl (ok, n', c'))" "parsed n c ok n' c'"
    | pos c1 where "?first = Some (Inr (pos, n, c1))" "only_parser c c1" "loop_ok pos c1" "0 < multibulklen c1" "left pos c1 \<le> length (querybuf c)"
  proof (cases "multibulklen c = 0")
    case True
    obtain r where r: "read_multibulklen (n, c) = Some r" "case r of Inl (ok, n', c') \<Rightarrow> parsed n c ok n' c'
      | Inr (pos, n', c') \<Rightarrow> n' = n \<and> (\<exists>m. c' = c\<lparr>multibulklen := m, argv := []\<rparr> \<and> 0 < m \<and> m \<le> 1024 * 1024) \<and> pos \<le> length (querybuf c)"
      using read_multibulklen_safe [OF assms True] by blast
    have b: "bulklen c = - 1" "length (querybuf c) < 2 ^ 31" using assms(3) True by (simp_all add: parser_ok_def)
    show thesis
    proof (cases r)
      case (Inl x)
      then show thesis using r True that(1) [of "fst x" "fst (snd x)" "snd (snd x)"] by (cases x) simp
    next
      case (Inr x)
      obtain p n1 c1 where x: "x = (p, n1, c1)" by (metis surj_pair)
      have "n1 = n" "loop_ok p c1" "only_parser c c1" "0 < multibulklen c1" "left p c1 \<le> length (querybuf c)"
        using r(2) b unfolding Inr x by (auto simp: only_parser_def loop_ok_def left_def)
      then show thesis using r(1) True Inr x by (intro that(2) [of p c1]) simp_all
    qed
  next
    case False
    then show thesis using assms(3) by (intro that(2)) (auto simp: parser_ok_def only_parser_refl loop_ok_def left_def)
  qed
  then show ?thesis
  proof cases
    case 1
    then show ?thesis by (simp add: processMultibulkBuffer_def)
  next
    case 2
    have c1: "fit c1" "\<not> has c1 CLIENT_CLOSE_AFTER_REPLY" using assms(1,2) only_parser_facts [OF 2(2)] by simp_all
    obtain r where r: "mb_loop pos (n, c1) = Some r" "outcome_ok (left pos c1) n c1 r" "\<forall>p. r = Go p \<longrightarrow> multibulklen (snd (snd p)) = 0"
      using mb_loop_safe [OF c1 2(3), of n] 2(4) by auto
    have eq: "processMultibulkBuffer (n, c) = (case r of Fail (_, n, c) \<Rightarrow> Some (False, n, c)
        | Go (pos, n, c) \<Rightarrow> let c = (if pos \<noteq> 0 then trim_query (int pos) c else c) in Some (multibulklen c = 0, n, c)
        | Wait (pos, n, c) \<Rightarrow> let c = (if pos \<noteq> 0 then trim_query (int pos) c else c) in Some (multibulklen c = 0, n, c))"
      using 2(1,4) r(1) by (cases r) (simp_all add: processMultibulkBuffer_def split: prod.split)
    show ?thesis
    proof (cases r)
      case (Go x)
      then obtain p c2 where x: "x = (p, n, c2)" "loop_ok p c2" "only_parser c1 c2" "left p c2 < left pos c1" "multibulklen c2 = 0"
        using r(2,3) by (cases x) auto
      define c3 where "c3 = (if p \<noteq> 0 then trim_query (int p) c2 else c2)"
      note f = mb_result [OF only_parser_trans [OF 2(2) x(3)] x(2) assms(1,4) c3_def]
      have "bulklen c2 = - 1" using x(2,5) by (simp add: loop_ok_def)
      then have "parsed n c True n c3" using f x(4,5) 2(5) by (simp add: parsed_def)
      moreover have "processMultibulkBuffer (n, c) = Some (True, n, c3)" using eq Go x(1,5) f(3) by (simp add: Let_def c3_def)
      ultimately show ?thesis by blast
    next
      case (Wait x)
      then obtain p c2 where x: "x = (p, n, c2)" "loop_ok p c2" "only_parser c1 c2" "0 < multibulklen c2"
        using r(2) by (cases x) auto
      define c3 where "c3 = (if p \<noteq> 0 then trim_query (int p) c2 else c2)"
      note f = mb_result [OF only_parser_trans [OF 2(2) x(3)] x(2) assms(1,4) c3_def]
      have "parsed n c False n c3" using f x(4) by (simp add: parsed_def)
      moreover have "processMultibulkBuffer (n, c) = Some (False, n, c3)" using eq Wait x(1,4) f(3) by (simp add: Let_def c3_def)
      ultimately show ?thesis by blast
    next
      case (Fail x)
      then have "rejected c (snd (snd x))" using r(2) only_parser_facts(5) [OF 2(2)] by (simp add: rejected_def)
      then show ?thesis using eq Fail by (cases x) (auto simp: parsed_def)
    qed
  qed
qed


lemma processInlineBuffer_safe:
  assumes "fit c" "\<not> has c CLIENT_CLOSE_AFTER_REPLY" "parser_ok c" "reqtype c = PROTO_REQ_INLINE" "querybuf c \<noteq> []"
  shows "\<exists>ok n' c'. processInlineBuffer junk (n, c) = Some (ok, n', c') \<and> parsed n c ok n' c'"
proof -
  let ?q = "querybuf c"
  have p: "length ?q < 2 ^ 31" "multibulklen c = 0" "bulklen c = - 1" using assms(3,4) by (auto simp: parser_ok_def split: if_splits)
  have l: "length (str ''Protocol error: too big inline request'') \<le> 100" "length (str ''Protocol error: unbalanced quotes in request'') \<le> 100"
    by (simp_all add: str_def)
  note err = protocol_error_safe [OF assms(1,2) l(1), of n 0] protocol_error_safe [OF assms(1,2) l(2), of n 0]
  show ?thesis
  proof (cases "strchr ?q 10")
    case None
    have "parsed n c False n c" using assms(1,3) by (simp add: parsed_def)
    then show ?thesis using None err(1) by (cases "length ?q > 65536") (auto simp: processInlineBuffer_def parsed_def)
  next
    case (Some nl)
    define k where "k = (if nl \<noteq> 0 \<and> ?q ! (nl - 1) = 13 then nl - 1 else nl)"
    have "length (take k ?q) < sds_max" using p(1) by (simp add: sds_max_def SDS_MAX_PREALLOC_def)
    then obtain res where res: "sdssplitargs junk (take k ?q @ [0]) = Some res" using sdssplitargs_safe [of "take k ?q" junk] by blast
    have eq: "processInlineBuffer junk (n, c) = (case res of
        None \<Rightarrow> do { nc \<leftarrow> protocol_error (n, c) (str ''Protocol error: unbalanced quotes in request'') 0; Some (False, nc) }
      | Some args \<Rightarrow> Some (True, n, (trim_query (int k + 2) (if k = 0 \<and> has c CLIENT_SLAVE then c\<lparr>repl_ack_time := unixtime n\<rparr> else c))
          \<lparr>argv := map (Str_obj \<circ> sds_str) (filter (\<lambda>a. sdslen a \<noteq> 0) args)\<rparr>))"
      unfolding processInlineBuffer_def Let_def prod.case Some option.case k_def [symmetric] res by (cases res) simp_all
    show ?thesis
    proof (cases res)
      case None
      then show ?thesis using eq err(2) by (auto simp: parsed_def)
    next
      case args: (Some args)
      define c' where "c' = (if k = 0 \<and> has c CLIENT_SLAVE then c\<lparr>repl_ack_time := unixtime n\<rparr> else c)
        \<lparr>querybuf := drop (k + 2) ?q, argv := map (Str_obj \<circ> sds_str) (filter (\<lambda>a. sdslen a \<noteq> 0) args)\<rparr>"
      have "int k + 2 = int (k + 2)" by simp
      then have "processInlineBuffer junk (n, c) = Some (True, n, c')"
        unfolding eq args c'_def by (simp only: trim_query_drop option.case) simp
      moreover have "client_ok c' = client_ok c" by (rule client_ok_cong) (simp_all add: c'_def)
      then have "parsed n c True n c'"
        using assms(1,5) p by (auto simp: parsed_def fit_def c'_def queue_def neq_Nil_conv)
      ultimately show ?thesis by blast
    qed
  qed
qed

lemma process_request_safe:
  assumes "fit c" "\<not> has c CLIENT_CLOSE_AFTER_REPLY" "parser_ok c" "querybuf c \<noteq> []"
  shows "\<exists>ok n' c'. process_request junk (n, c) = Some (ok, n', c') \<and> parsed n c ok n' c'"
proof -
  define c1 where "c1 = (if reqtype c = 0
    then c\<lparr>reqtype := (if hd (querybuf c) = 42 then PROTO_REQ_MULTIBULK else PROTO_REQ_INLINE)\<rparr> else c)"
  have s: "flags c1 = flags c" "querybuf c1 = querybuf c" "client_ok c1 = client_ok c" "queue c1 = queue c"
    using client_ok_cong [of c1 c] by (simp_all add: c1_def queue_def)
  have "parser_ok c1" using parser_ok_type [OF assms(3) _ assms(4)] assms(3) by (auto simp: c1_def)
  moreover have "fit c1" "\<not> has c1 CLIENT_CLOSE_AFTER_REPLY" using assms(1,2) s by (simp_all add: fit_def has_def)
  moreover have t: "reqtype c1 = PROTO_REQ_INLINE \<or> reqtype c1 = PROTO_REQ_MULTIBULK" using \<open>parser_ok c1\<close>
    by (auto simp: c1_def parser_ok_def split: if_splits)
  ultimately obtain ok n' c' where r: "(if reqtype c1 = PROTO_REQ_INLINE then processInlineBuffer junk (n, c1) else processMultibulkBuffer (n, c1)) = Some (ok, n', c')"
    "parsed n c1 ok n' c'"
    using processInlineBuffer_safe [of c1 junk n] processMultibulkBuffer_safe [of c1 n] assms(4) s(2) by (cases "reqtype c1 = PROTO_REQ_INLINE") auto
  have "process_request junk (n, c) = Some (ok, n', c')"
    using r(1) t unfolding process_request_def prod.case Let_def c1_def [symmetric] by auto
  moreover have "parsed n c ok n' c'" using r(2) s by (auto simp: parsed_def rejected_def split: if_splits)
  ultimately show ?thesis by blast
qed

subsection \<open>The loop over the buffer\<close>

text \<open>Commands that return and, while the client is alive, leave the query buffer and the parser alone and
  room in the output queue.\<close>

definition obedient :: "exec \<Rightarrow> bool" where
  "obedient exec \<longleftrightarrow> (\<forall>n c. fit c \<longrightarrow> multibulklen c = 0 \<longrightarrow> bulklen c = - 1 \<longrightarrow>
     (\<exists>ok current asking n' c'. exec (n, c) = Some (ok, current, asking, n', c') \<and>
        (current \<longrightarrow> ok \<and> fit c' \<and> querybuf c' = querybuf c)))"

text \<open>How the loop may leave a client: ready for more input, rejected with an error, blocked by a command,
  or freed by one.\<close>

definition left_well :: "exec \<Rightarrow> client \<Rightarrow> bool" where
  "left_well exec c \<longleftrightarrow> fit c \<and> parser_ok c \<or> client_ok c \<and> has c CLIENT_CLOSE_AFTER_REPLY \<or> has c CLIENT_BLOCKED \<or>
     (\<exists>nc ok asking n' c'. exec nc = Some (ok, False, asking, n', c') \<and> c = after_command ok asking c')"

lemma resetClient_facts:
  "querybuf (resetClient a c) = querybuf c" "fit (resetClient a c) = fit c"
  "length (querybuf c) < 2 ^ 31 \<Longrightarrow> parser_ok (resetClient a c)"
proof -
  show "fit (resetClient a c) = fit c"
    using client_ok_cong [of "resetClient a c" c] by (simp add: fit_def resetClient_def Let_def queue_def)
qed (simp_all add: resetClient_def Let_def parser_ok_def)

lemma after_command_cases:
  "has (after_command True asking c) CLIENT_BLOCKED \<or>
   (\<exists>c'. after_command True asking c = resetClient asking c' \<and> fit c' = fit c \<and> querybuf c' = querybuf c)"
proof -
  define c1 where "c1 = (if has c CLIENT_MASTER \<and> \<not> has c CLIENT_MULTI then c\<lparr>reploff := read_reploff c - int (length (querybuf c))\<rparr> else c)"
  have "fit c1 = fit c" "querybuf c1 = querybuf c" using client_ok_cong [of c1 c] by (simp_all add: c1_def fit_def queue_def)
  moreover have "after_command True asking c = (if \<not> has c1 CLIENT_BLOCKED \<or> btype c1 \<noteq> 3 then resetClient asking c1 else c1)"
    by (simp add: after_command_def c1_def)
  ultimately show ?thesis by auto
qed

subsection \<open>A line of one word\<close>

definition plain_char :: "u8 \<Rightarrow> bool" where
  "plain_char b \<longleftrightarrow> b \<notin> {0, 34, 39} \<and> \<not> isspace b"

lemma arg_loop_word:
  "list_all plain_char w \<Longrightarrow> sds_ok cur \<Longrightarrow> length (sds_str cur) + length w \<le> sds_max \<Longrightarrow>
    \<exists>t. arg_loop junk Plain (w @ [0]) cur = Some (Some ([0], t)) \<and> sds_str t = sds_str cur @ w"
proof (induction w arbitrary: cur)
  case Nil
  then show ?case by (subst arg_loop.simps) (simp add: rd_def)
next
  case (Cons b w)
  have b: "b \<notin> {32, 10, 13, 9, 0, 34, 39}" using Cons.prems(1) by (auto simp: plain_char_def isspace_def)
  obtain cur' where c: "sdscatlen junk cur [b] = Some cur'" "sds_ok cur'" "sds_str cur' = sds_str cur @ [b]"
    using sb.app_law [OF Cons.prems(2), of "[b]" junk] Cons.prems(3) by auto
  then show ?case using Cons.IH [of cur'] Cons.prems b by (subst arg_loop.simps) (simp add: rd_def)
qed

lemma splitargs_word:
  assumes "list_all plain_char w" "w \<noteq> []" "length w \<le> sds_max"
  shows "\<exists>t. sdssplitargs junk (w @ [0]) = Some (Some [t]) \<and> sds_str t = w"
proof -
  obtain e where e: "sdsempty junk = Some e" "sds_ok e" "sds_str e = []" using sdsempty_spec [of junk] by blast
  obtain t where t: "arg_loop junk Plain (w @ [0]) e = Some (Some ([0], t))" "sds_str t = w"
    using arg_loop_word [OF assms(1) e(2)] e(3) assms(3) by auto
  have "splitargs_loop junk [0] [t] = Some (Some [t])" by (subst splitargs_loop.simps) (simp add: rd_def)
  moreover have "skip_blanks (w @ [0]) = Some (w @ [0])" "rd (w @ [0]) 0 = Some (hd w)" "hd w \<noteq> 0"
    using assms(1,2) by (cases w; simp add: plain_char_def rd_def)+
  ultimately show ?thesis unfolding sdssplitargs_def using e(1) t by (subst splitargs_loop.simps) simp
qed

subsection \<open>Properties\<close>

text \<open>C3: The input loop accepts any bytes. For a client whose parser fields are in their ranges and whose
  output queue has room for an error message, with any contents of the query buffer below 2 GB and any
  commands that return and leave the buffer alone, \<open>processInputBuffer\<close> reads nothing outside of the
  buffer, fails no assertion and returns. The client is then ready for more input with its parser fields
  in their ranges again, or flagged to be closed after the queued error, or blocked or freed by a command.\<close>

theorem processInputBuffer_any_input:
  assumes "obedient exec" "fit c" "parser_ok c"
  shows "\<exists>n' c'. processInputBuffer junk exec paused (n, c) = Some (n', c') \<and> left_well exec c'"
  using assms(2,3)
proof (induction "length (querybuf c)" arbitrary: n c rule: less_induct)
  case less
  let ?stop = "querybuf c = [] \<or> (\<not> has c CLIENT_SLAVE \<and> paused) \<or> has c CLIENT_BLOCKED \<or> has c (CLIENT_CLOSE_AFTER_REPLY OR CLIENT_CLOSE_ASAP)"
  show ?case
  proof (cases ?stop)
    case True
    then have "processInputBuffer junk exec paused (n, c) = Some (n, c)" by (subst processInputBuffer.simps) auto
    then show ?thesis using less.prems by (simp add: left_well_def)
  next
    case False
    then have c: "\<not> has c CLIENT_CLOSE_AFTER_REPLY" "querybuf c \<noteq> []" unfolding has_or by simp_all
    obtain ok n1 c1 where r: "process_request junk (n, c) = Some (ok, n1, c1)" "parsed n c ok n1 c1"
      using process_request_safe [OF less.prems(1) c(1) less.prems(2) c(2)] by blast
    have eq: "processInputBuffer junk exec paused (n, c) = (if \<not> ok then Some (n1, c1)
        else if argv c1 = [] then processInputBuffer junk exec paused (n1, resetClient False c1)
        else Option.bind (exec (n1, c1)) (\<lambda>(ok, current, asking, n, c).
          if \<not> current then Some (n, after_command ok asking c)
          else processInputBuffer junk exec paused (n, after_command ok asking c)))"
      using False r(1) by (subst processInputBuffer.simps) auto
    have again: "\<exists>n' c'. processInputBuffer junk exec paused (m, resetClient a d) = Some (n', c') \<and> left_well exec c'"
      if "length (querybuf d) < length (querybuf c)" "fit d" for m a d
    proof -
      have "length (querybuf c) < 2 ^ 31" using less.prems(2) by (simp add: parser_ok_def)
      then show ?thesis using less.hyps [of "resetClient a d"] that resetClient_facts [where a = a and c = d] by simp
    qed
    show ?thesis
    proof (cases ok)
      case fine: True
      then have c1: "fit c1" "multibulklen c1 = 0" "bulklen c1 = - 1" "length (querybuf c1) < length (querybuf c)"
        using r(2) by (simp_all add: parsed_def)
      show ?thesis
      proof (cases "argv c1 = []")
        case True
        then show ?thesis using eq fine again [OF c1(4,1)] by simp
      next
        case args: False
        obtain ok2 cur ask n2 c2 where e: "exec (n1, c1) = Some (ok2, cur, ask, n2, c2)" "cur \<Longrightarrow> ok2 \<and> fit c2 \<and> querybuf c2 = querybuf c1"
          using assms(1) c1(1-3) unfolding obedient_def by blast
        show ?thesis
        proof (cases cur)
          case False
          then have "exec (n1, c1) = Some (ok2, False, ask, n2, c2)" using e(1) by simp
          then have "left_well exec (after_command ok2 ask c2)" unfolding left_well_def by blast
          then show ?thesis using eq fine args e(1) False by simp
        next
          case True
          then have x: "processInputBuffer junk exec paused (n, c) = processInputBuffer junk exec paused (n2, after_command True ask c2)"
            using eq fine args e by simp
          from after_command_cases [of ask c2] show ?thesis
          proof
            assume b: "has (after_command True ask c2) CLIENT_BLOCKED"
            then have "processInputBuffer junk exec paused (n2, after_command True ask c2) = Some (n2, after_command True ask c2)"
              by (subst processInputBuffer.simps) simp
            then show ?thesis using x b by (simp add: left_well_def)
          next
            assume "\<exists>c'. after_command True ask c2 = resetClient ask c' \<and> fit c' = fit c2 \<and> querybuf c' = querybuf c2"
            then show ?thesis using x again e(2) True c1(4) by (metis (no_types, lifting))
          qed
        qed
      qed
    qed (use eq r(2) in \<open>auto simp: parsed_def left_well_def rejected_def\<close>)
  qed
qed

definition garbage :: client where
  "garbage = client0\<lparr>querybuf := [42, 255, 0, 13, 10, 36, 49]\<rparr>"

theorem processInputBuffer_any_input_witness:
  "\<exists>n' c'. processInputBuffer (\<lambda>_. 7) (plain_exec (\<lambda>args nc. nc)) False (net0, garbage) = Some (n', c') \<and>
     left_well (plain_exec (\<lambda>args nc. nc)) c'"
proof (rule processInputBuffer_any_input)
  show "obedient (plain_exec (\<lambda>args nc. nc))" by (auto simp: obedient_def plain_exec_def)
  show "fit garbage" using client0_ok client_ok_cong [of garbage client0] by (simp add: fit_def garbage_def queue_def client0_def out_max_def)
  show "parser_ok garbage" by (simp add: parser_ok_def garbage_def client0_def)
qed

text \<open>C5: A line that ends in a line feed alone loses the first byte that follows it. When \<open>processInlineBuffer\<close>
  accepts a line that is not ended by a carriage return, it removes the line and two bytes from the
  query buffer, although the line break is one byte long: the first byte of the next pipelined request
  is thrown away.\<close>

theorem inline_line_feed_loses_byte:
  assumes "querybuf c = line @ [10] @ b # rest" "10 \<notin> set line" "0 \<notin> set line" "line \<noteq> []" "hd (rev line) \<noteq> 13"
    and "processInlineBuffer junk (n, c) = Some (True, n', c')"
  shows "querybuf c' = rest"
proof -
  let ?q = "querybuf c" and ?k = "length line"
  have f: "strchr ?q 10 = Some ?k" using strchr_found [OF assms(2,3), of "b # rest"] assms(1) by simp
  have "?q ! (?k - 1) \<noteq> 13" using assms(1,4,5) by (simp add: nth_append hd_rev last_conv_nth)
  then have "(if ?k \<noteq> 0 \<and> ?q ! (?k - 1) = 13 then ?k - 1 else ?k) = ?k" by simp
  note eq = assms(6) [unfolded processInlineBuffer_def Let_def prod.case f option.case this]
  have "querybuf c' = querybuf (trim_query (int ?k + 2) c)"
    using eq assms(4) by (auto simp: bind_eq_Some_conv trim_query_def split: option.splits)
  also have "int ?k + 2 = int (?k + 2)" by simp
  finally show ?thesis using assms(1) by (simp only: trim_query_drop) simp
qed

theorem inline_line_feed_loses_byte_witness:
  "\<exists>n' c'. processInlineBuffer (\<lambda>_. 7) (net0, client0\<lparr>querybuf := str ''PING'' @ [10] @ str ''PING'' @ [10]\<rparr>) = Some (True, n', c') \<and>
     querybuf c' = str ''ING'' @ [10]"
proof -
  let ?c = "client0\<lparr>querybuf := str ''PING'' @ [10] @ str ''PING'' @ [10]\<rparr>"
  have "list_all plain_char [80, 73, 78, 71]" "length [80, 73, 78, 71 :: u8] \<le> sds_max"
    by (simp_all add: plain_char_def isspace_def sds_max_def SDS_MAX_PREALLOC_def)
  then obtain args where a: "sdssplitargs (\<lambda>_. 7) [80, 73, 78, 71, 0] = Some (Some args)"
    using splitargs_word [of "[80, 73, 78, 71]" "\<lambda>_. 7"] by auto
  have "strchr (querybuf ?c) 10 = Some 4" by (simp add: strchr_def str_def)
  then obtain n' c' where r: "processInlineBuffer (\<lambda>_. 7) (net0, ?c) = Some (True, n', c')"
    using a by (simp add: processInlineBuffer_def Let_def str_def)
  have "querybuf c' = str ''ING'' @ [10]"
    by (rule inline_line_feed_loses_byte [OF _ _ _ _ _ r, where line = "str ''PING''" and b = 80]) (simp_all add: str_def)
  with r show ?thesis by blast
qed

end
