(* ===== verification/Rdb.thy ===== *)
theory Rdb
  imports Reply Sds_Text Lzf Crc Endian
begin

text \<open>
  The serialization of string values (\<open>src/rdb.c\<close>) over the stream abstraction (\<open>src/rio.h\<close>,
  \<open>src/rio.c\<close>), and the self-contained payloads of DUMP and RESTORE (\<open>src/cluster.c\<close>). A stream is a
  record with the callbacks of its backend; the contract of a backend is the locale \<open>rio_backend\<close>, which
  the memory buffer interprets. \<open>None\<close> is a memory error or a failed assertion; the ways in which
  loading fails without one are the values of \<open>loaded\<close>.
\<close>

unbundle bit_operations_syntax

subsection \<open>Streams\<close>

record 'b rio =
  rio_read :: "'b \<Rightarrow> nat \<Rightarrow> (bytes option \<times> 'b) option"
  rio_write :: "'b \<Rightarrow> bytes \<Rightarrow> (bool \<times> 'b) option"
  update_cksum :: "(u64 \<Rightarrow> bytes \<Rightarrow> u64) option"
  cksum :: u64
  processed_bytes :: u64
  max_processing_chunk :: nat
  rio_io :: 'b

definition rioGenericUpdateChecksum :: "u64 \<Rightarrow> bytes \<Rightarrow> u64" where
  "rioGenericUpdateChecksum ck bf = crc64 ck bf"

text \<open>\<open>if (r->update_cksum) r->update_cksum(r, buf, len)\<close>\<close>

definition call_update_cksum :: "'b rio \<Rightarrow> bytes \<Rightarrow> 'b rio" where
  "call_update_cksum r bf = (case update_cksum r of None \<Rightarrow> r | Some f \<Rightarrow> r\<lparr>cksum := f (cksum r) bf\<rparr>)"

definition chunk_size :: "'b rio \<Rightarrow> nat \<Rightarrow> nat" where
  "chunk_size r len = (if max_processing_chunk r \<noteq> 0 \<and> max_processing_chunk r < len then max_processing_chunk r else len)"

lemma chunk_size_bounds [simp]: "0 < len \<Longrightarrow> 0 < chunk_size r len" "chunk_size r len \<le> len"
  by (auto simp: chunk_size_def)

function rioWrite :: "'b rio \<Rightarrow> bytes \<Rightarrow> (bool \<times> 'b rio) option" where
  "rioWrite r bf =
     (if length bf = 0 then Some (True, r)
      else
        let bytes_to_write = chunk_size r (length bf);
            r = call_update_cksum r (take bytes_to_write bf)
        in do {
          (ok, x) \<leftarrow> rio_write r (rio_io r) (take bytes_to_write bf);
          if \<not> ok then Some (False, r\<lparr>rio_io := x\<rparr>)
          else rioWrite (r\<lparr>rio_io := x, processed_bytes := processed_bytes r + word_of_nat bytes_to_write\<rparr>) (drop bytes_to_write bf) })"
  by pat_completeness auto
termination by (relation "measure (\<lambda>(r, bf). length bf)") auto

text \<open>The bytes read, or nothing when the backend reported an error.\<close>

function rioRead :: "'b rio \<Rightarrow> nat \<Rightarrow> (bytes option \<times> 'b rio) option" where
  "rioRead r len =
     (if len = 0 then Some (Some [], r)
      else
        let bytes_to_read = chunk_size r len
        in do {
          (d, x) \<leftarrow> rio_read r (rio_io r) bytes_to_read;
          case d of
            None \<Rightarrow> Some (None, r\<lparr>rio_io := x\<rparr>)
          | Some bf \<Rightarrow>
              let r = call_update_cksum (r\<lparr>rio_io := x\<rparr>) bf
              in do {
                (rest, r) \<leftarrow> rioRead (r\<lparr>processed_bytes := processed_bytes r + word_of_nat bytes_to_read\<rparr>) (len - bytes_to_read);
                Some (map_option (\<lambda>bs. bf @ bs) rest, r) } })"
  by pat_completeness auto
termination by (relation "measure (\<lambda>(r, len). len)") auto

declare rioWrite.simps [simp del] rioRead.simps [simp del]

text \<open>The memory buffer. The number of bytes left is computed in 64 bits, as in the code.\<close>

record rio_buffer =
  buf_ptr :: sds
  buf_pos :: nat

definition rioBufferWrite :: "(nat \<Rightarrow> u8) \<Rightarrow> rio_buffer \<Rightarrow> bytes \<Rightarrow> (bool \<times> rio_buffer) option" where
  "rioBufferWrite junk b bf = do {
     s \<leftarrow> sdscatlen junk (buf_ptr b) bf;
     Some (True, b\<lparr>buf_ptr := s, buf_pos := buf_pos b + length bf\<rparr>) }"

definition rioBufferRead :: "rio_buffer \<Rightarrow> nat \<Rightarrow> (bytes option \<times> rio_buffer) option" where
  "rioBufferRead b len =
     (if (int (sdslen (buf_ptr b)) - int (buf_pos b)) mod 2 ^ 64 < int len then Some (None, b)
      else do {
        bf \<leftarrow> rdn (hdr_buf (buf_ptr b)) (buf_pos b) len;
        Some (Some bf, b\<lparr>buf_pos := buf_pos b + len\<rparr>) })"

definition rioInitWithBuffer :: "(nat \<Rightarrow> u8) \<Rightarrow> sds \<Rightarrow> rio_buffer rio" where
  "rioInitWithBuffer junk s =
     \<lparr>rio_read = rioBufferRead, rio_write = rioBufferWrite junk, update_cksum = None, cksum = 0, processed_bytes = 0,
      max_processing_chunk = 0, rio_io = \<lparr>buf_ptr = s, buf_pos = 0\<rparr>\<rparr>"

subsection \<open>Saving\<close>

text \<open>A save function has the number of bytes written, or -1, as its result. The stream may be NULL, and
  then only the size is computed.\<close>

type_synonym 'b saver = "'b rio option \<Rightarrow> (int \<times> 'b rio option) option"

definition c_int :: "int \<Rightarrow> int" where
  "c_int n = sint (word_of_int n :: 32 word)"

definition rdbWriteRaw :: "bytes \<Rightarrow> 'b saver" where
  "rdbWriteRaw p rdb =
     (case rdb of
        None \<Rightarrow> Some (c_int (int (length p)), None)
      | Some r \<Rightarrow> do {
          (ok, r) \<leftarrow> rioWrite r p;
          Some (if \<not> ok then - 1 else c_int (int (length p)), Some r) })"

text \<open>\<open>if ((n = f()) == -1) return -1; nwritten += n;\<close> and then \<open>g\<close> in the same way.\<close>

definition save_then :: "'b saver \<Rightarrow> 'b saver \<Rightarrow> 'b saver" where
  "save_then f g rdb = do {
     (n, rdb) \<leftarrow> f rdb;
     if n = - 1 then Some (- 1, rdb)
     else do {
       (m, rdb) \<leftarrow> g rdb;
       Some (if m = - 1 then - 1 else n + m, rdb) } }"

definition rdbSaveType :: "u8 \<Rightarrow> 'b saver" where
  "rdbSaveType ty = rdbWriteRaw [ty]"

definition rdbSaveMillisecondTime :: "i64 \<Rightarrow> 'b saver" where
  "rdbSaveMillisecondTime t = rdbWriteRaw (le_bytes 8 (sint t))"

text \<open>\<open>htonl\<close> of the system and \<open>htonu64\<close> of \<open>endianconv.h\<close> on a little-endian host, and the bytes in memory.\<close>

definition htonl_bytes :: "u64 \<Rightarrow> bytes" where
  "htonl_bytes len = rev (le_bytes 4 (uint (ucast len :: u32)))"

definition htonu64_bytes :: "u64 \<Rightarrow> bytes option" where
  "htonu64_bytes len = map_option (\<lambda>v. le_bytes 8 (uint v)) (intrev64 len)"

definition RDB_6BITLEN :: u8 where "RDB_6BITLEN = 0"
definition RDB_14BITLEN :: u8 where "RDB_14BITLEN = 1"
definition RDB_32BITLEN :: u8 where "RDB_32BITLEN = 0x80"
definition RDB_64BITLEN :: u8 where "RDB_64BITLEN = 0x81"
definition RDB_ENCVAL :: u8 where "RDB_ENCVAL = 3"
definition RDB_LENERR :: u64 where "RDB_LENERR = - 1"
definition RDB_ENC_INT8 :: u8 where "RDB_ENC_INT8 = 0"
definition RDB_ENC_INT16 :: u8 where "RDB_ENC_INT16 = 1"
definition RDB_ENC_INT32 :: u8 where "RDB_ENC_INT32 = 2"
definition RDB_ENC_LZF :: u8 where "RDB_ENC_LZF = 3"
definition RDB_TYPE_STRING :: u8 where "RDB_TYPE_STRING = 0"
definition RDB_VERSION :: u16 where "RDB_VERSION = 8"

lemmas rdb_consts = RDB_6BITLEN_def RDB_14BITLEN_def RDB_32BITLEN_def RDB_64BITLEN_def RDB_ENCVAL_def RDB_LENERR_def
  RDB_ENC_INT8_def RDB_ENC_INT16_def RDB_ENC_INT32_def RDB_ENC_LZF_def RDB_TYPE_STRING_def RDB_VERSION_def

definition rdbSaveLen :: "u64 \<Rightarrow> 'b saver" where
  "rdbSaveLen len rdb =
     (if unat len < 2 ^ 6 then
        rdbWriteRaw [ucast len OR push_bit 6 RDB_6BITLEN] rdb
      else if unat len < 2 ^ 14 then
        rdbWriteRaw [ucast (drop_bit 8 len) OR push_bit 6 RDB_14BITLEN, ucast len] rdb
      else if unat len \<le> 2 ^ 32 - 1 then
        save_then (rdbWriteRaw [RDB_32BITLEN]) (rdbWriteRaw (htonl_bytes len)) rdb
      else do {
        bs \<leftarrow> htonu64_bytes len;
        save_then (rdbWriteRaw [RDB_64BITLEN]) (rdbWriteRaw bs) rdb })"

text \<open>The bytes put into \<open>enc\<close>; none when the value is out of range.\<close>

definition enc_byte :: "int \<Rightarrow> nat \<Rightarrow> u8" where
  "enc_byte v k = word_of_int (drop_bit k v)"

definition rdbEncodeInteger :: "i64 \<Rightarrow> bytes" where
  "rdbEncodeInteger value =
     (let v = sint value in
      if - (2 ^ 7) \<le> v \<and> v \<le> 2 ^ 7 - 1 then
        [push_bit 6 RDB_ENCVAL OR RDB_ENC_INT8, enc_byte v 0]
      else if - (2 ^ 15) \<le> v \<and> v \<le> 2 ^ 15 - 1 then
        [push_bit 6 RDB_ENCVAL OR RDB_ENC_INT16, enc_byte v 0, enc_byte v 8]
      else if - (2 ^ 31) \<le> v \<and> v \<le> 2 ^ 31 - 1 then
        [push_bit 6 RDB_ENCVAL OR RDB_ENC_INT32, enc_byte v 0, enc_byte v 8, enc_byte v 16, enc_byte v 24]
      else [])"

definition rdbTryIntegerEncoding :: "(nat \<Rightarrow> u8) \<Rightarrow> bytes \<Rightarrow> bytes option" where
  "rdbTryIntegerEncoding junk s =
     (let (value, endptr) = strtoll s in
      if endptr \<noteq> [] \<and> hd endptr \<noteq> 0 then Some []
      else do {
        (bf, n) \<leftarrow> ll2string (map junk [0..<32]) 32 (word_of_int value);
        if cstring bf \<noteq> s then Some [] else Some (rdbEncodeInteger (word_of_int value)) })"

definition rdbSaveLzfBlob :: "bytes \<Rightarrow> nat \<Rightarrow> nat \<Rightarrow> 'b saver" where
  "rdbSaveLzfBlob data compress_len original_len rdb = do {
     bs \<leftarrow> rdn data 0 compress_len;
     save_then (rdbWriteRaw [push_bit 6 RDB_ENCVAL OR RDB_ENC_LZF])
       (save_then (rdbSaveLen (word_of_nat compress_len))
         (save_then (rdbSaveLen (word_of_nat original_len))
           (rdbWriteRaw bs))) rdb }"

definition rdbSaveLzfStringObject :: "(nat \<Rightarrow> u8) \<Rightarrow> htab \<Rightarrow> bytes \<Rightarrow> 'b saver" where
  "rdbSaveLzfStringObject junk htab s rdb =
     (if length s \<le> 4 then Some (0, rdb)
      else
        let outlen = length s - 4 in do {
          c \<leftarrow> lzf_compress htab s (map junk [0..<outlen + 1]) outlen;
          case c of
            None \<Rightarrow> Some (0, rdb)
          | Some (comprlen, out) \<Rightarrow>
              if comprlen = 0 then Some (0, rdb) else rdbSaveLzfBlob out comprlen (length s) rdb })"

definition save_verbatim :: "bytes \<Rightarrow> 'b saver" where
  "save_verbatim s rdb = do {
     (n, rdb) \<leftarrow> rdbSaveLen (word_of_nat (length s)) rdb;
     if n = - 1 then Some (- 1, rdb)
     else if length s > 0 then do {
       (m, rdb) \<leftarrow> rdbWriteRaw s rdb;
       Some (if m = - 1 then - 1 else n + int (length s), rdb) }
     else Some (n, rdb) }"

definition rdbSaveRawString :: "(nat \<Rightarrow> u8) \<Rightarrow> htab \<Rightarrow> bool \<Rightarrow> bytes \<Rightarrow> 'b saver" where
  "rdbSaveRawString junk htab rdb_compression s rdb = do {
     enc \<leftarrow> (if length s \<le> 11 then rdbTryIntegerEncoding junk s else Some []);
     if 0 < length enc then do {
       (n, rdb) \<leftarrow> rdbWriteRaw enc rdb;
       Some (if n = - 1 then - 1 else int (length enc), rdb) }
     else do {
       (n, rdb) \<leftarrow> (if rdb_compression \<and> length s > 20 then rdbSaveLzfStringObject junk htab s rdb else Some (0, rdb));
       if n = - 1 then Some (- 1, rdb)
       else if n > 0 then Some (n, rdb)
       else save_verbatim s rdb } }"

definition rdbSaveLongLongAsStringObject :: "(nat \<Rightarrow> u8) \<Rightarrow> i64 \<Rightarrow> 'b saver" where
  "rdbSaveLongLongAsStringObject junk value rdb =
     (let enc = rdbEncodeInteger value in
      if 0 < length enc then rdbWriteRaw enc rdb
      else do {
        (bf, enclen) \<leftarrow> ll2string (map junk [0..<32]) 32 value;
        if \<not> enclen < 32 then None
        else save_then (rdbSaveLen (word_of_nat enclen)) (rdbWriteRaw (take enclen bf)) rdb })"

definition rdbSaveStringObject :: "(nat \<Rightarrow> u8) \<Rightarrow> htab \<Rightarrow> bool \<Rightarrow> robj \<Rightarrow> 'b saver" where
  "rdbSaveStringObject junk htab rdb_compression obj rdb = do {
     (n, rdb) \<leftarrow> (case obj of
        Int_obj v \<Rightarrow> rdbSaveLongLongAsStringObject junk v rdb
      | Str_obj s \<Rightarrow> rdbSaveRawString junk htab rdb_compression s rdb);
     Some (c_int n, rdb) }"

text \<open>The string case of \<open>rdbSaveObjectType\<close> and \<open>rdbSaveObject\<close>.\<close>

definition rdbSaveObjectType :: "robj \<Rightarrow> 'b saver" where
  "rdbSaveObjectType o' = rdbSaveType RDB_TYPE_STRING"

definition rdbSaveObject :: "(nat \<Rightarrow> u8) \<Rightarrow> htab \<Rightarrow> bool \<Rightarrow> robj \<Rightarrow> 'b saver" where
  "rdbSaveObject junk htab rdb_compression o' rdb = rdbSaveStringObject junk htab rdb_compression o' rdb"

subsection \<open>Loading\<close>

text \<open>\<open>Load_error\<close> is the NULL or -1 that a load function returns; \<open>Corrupt_exit\<close> is the end of the process in
  \<open>rdbExitReportCorruptRDB\<close>.\<close>

datatype 'a loaded = Loaded 'a | Load_error | Corrupt_exit

type_synonym ('a, 'b) loader = "'b rio \<Rightarrow> ('a loaded \<times> 'b rio) option"

definition load_then :: "('a, 'b) loader \<Rightarrow> ('a \<Rightarrow> ('c, 'b) loader) \<Rightarrow> ('c, 'b) loader" where
  "load_then f g r = do {
     (x, r) \<leftarrow> f r;
     case x of
       Loaded v \<Rightarrow> g v r
     | Load_error \<Rightarrow> Some (Load_error, r)
     | Corrupt_exit \<Rightarrow> Some (Corrupt_exit, r) }"

definition load_ret :: "'a \<Rightarrow> ('a, 'b) loader" where
  "load_ret v r = Some (Loaded v, r)"

definition load_bytes :: "nat \<Rightarrow> (bytes, 'b) loader" where
  "load_bytes n r = do {
     (d, r) \<leftarrow> rioRead r n;
     Some (case d of None \<Rightarrow> Load_error | Some bs \<Rightarrow> Loaded bs, r) }"

definition rdbLoadType :: "(u8, 'b) loader" where
  "rdbLoadType = load_then (load_bytes 1) (\<lambda>bs. load_ret (bs ! 0))"

text \<open>Both times are -1 after a read error, as is a time of -1 that was read.\<close>

definition rdbLoadTime :: "(int, 'b) loader" where
  "rdbLoadTime r = do {
     (d, r) \<leftarrow> rioRead r 4;
     Some (Loaded (case d of None \<Rightarrow> - 1 | Some bs \<Rightarrow> le_sval bs), r) }"

definition rdbLoadMillisecondTime :: "(int, 'b) loader" where
  "rdbLoadMillisecondTime r = do {
     (d, r) \<leftarrow> rioRead r 8;
     Some (Loaded (case d of None \<Rightarrow> - 1 | Some bs \<Rightarrow> le_sval bs), r) }"

text \<open>Whether the length is an encoding type, and the length.\<close>

definition ntohl_bytes :: "bytes \<Rightarrow> u64" where
  "ntohl_bytes bs = word_of_nat (le_val (rev bs))"

definition ntohu64_bytes :: "bytes \<Rightarrow> u64 option" where
  "ntohu64_bytes bs = intrev64 (word_of_nat (le_val bs))"

definition load_len_body :: "u8 \<Rightarrow> (bool \<times> u64, 'b) loader" where
  "load_len_body b0 =
     (let ty = drop_bit 6 (b0 AND 0xC0) in
      if ty = RDB_ENCVAL then load_ret (True, ucast (b0 AND 0x3F))
      else if ty = RDB_6BITLEN then load_ret (False, ucast (b0 AND 0x3F))
      else if ty = RDB_14BITLEN then
        load_then (load_bytes 1) (\<lambda>b1. load_ret (False, push_bit 8 (ucast (b0 AND 0x3F)) OR ucast (b1 ! 0)))
      else if b0 = RDB_32BITLEN then
        load_then (load_bytes 4) (\<lambda>bs. load_ret (False, ntohl_bytes bs))
      else if b0 = RDB_64BITLEN then
        load_then (load_bytes 8) (\<lambda>bs r. do { v \<leftarrow> ntohu64_bytes bs; load_ret (False, v) r })
      else (\<lambda>r. Some (Corrupt_exit, r)))"

definition rdbLoadLenByRef :: "(bool \<times> u64, 'b) loader" where
  "rdbLoadLenByRef = load_then (load_bytes 1) (\<lambda>b0. load_len_body (b0 ! 0))"

definition rdbLoadLen :: "(bool \<times> u64, 'b) loader" where
  "rdbLoadLen r = do {
     (x, r) \<leftarrow> rdbLoadLenByRef r;
     Some (case x of Load_error \<Rightarrow> Loaded (False, RDB_LENERR) | _ \<Rightarrow> x, r) }"

definition RDB_LOAD_NONE :: u32 where "RDB_LOAD_NONE = 0"
definition RDB_LOAD_ENC :: u32 where "RDB_LOAD_ENC = 1"
definition RDB_LOAD_PLAIN :: u32 where "RDB_LOAD_PLAIN = 2"
definition RDB_LOAD_SDS :: u32 where "RDB_LOAD_SDS = 4"

definition asks :: "u32 \<Rightarrow> u32 \<Rightarrow> bool" where
  "asks fl f \<longleftrightarrow> fl AND f \<noteq> 0"

lemmas load_flags = RDB_LOAD_NONE_def RDB_LOAD_ENC_def RDB_LOAD_PLAIN_def RDB_LOAD_SDS_def asks_def

text \<open>What a string loader returns: an object, a plain block or an \<open>sds\<close>, each by its contents.\<close>

datatype rdb_string = As_object robj | As_plain bytes | As_sds bytes

definition createStringObjectFromLongLong :: "i64 \<Rightarrow> robj" where
  "createStringObjectFromLongLong v = Int_obj v"

definition integer_object :: "(nat \<Rightarrow> u8) \<Rightarrow> u32 \<Rightarrow> i64 \<Rightarrow> rdb_string option" where
  "integer_object junk fl val =
     (if asks fl RDB_LOAD_PLAIN \<or> asks fl RDB_LOAD_SDS then do {
        (bf, len) \<leftarrow> ll2string (map junk [0..<21]) 21 val;
        if asks fl RDB_LOAD_PLAIN then Some (As_plain (take len bf))
        else do { s \<leftarrow> sdsnewlen junk None len; p \<leftarrow> wrn (hdr_buf s) 0 (take len bf); Some (As_sds (sds_str (s\<lparr>hdr_buf := p\<rparr>))) } }
      else if asks fl RDB_LOAD_ENC then Some (As_object (createStringObjectFromLongLong val))
      else do { s \<leftarrow> sdsfromlonglong junk val; Some (As_object (Str_obj (sds_str s))) })"

definition rdbLoadIntegerObject :: "(nat \<Rightarrow> u8) \<Rightarrow> u8 \<Rightarrow> u32 \<Rightarrow> (rdb_string, 'b) loader" where
  "rdbLoadIntegerObject junk enctype fl =
     (let finish = (\<lambda>val r. do { x \<leftarrow> integer_object junk fl val; load_ret x r }) in
      if enctype = RDB_ENC_INT8 then
        load_then (load_bytes 1) (\<lambda>enc. finish (scast (enc ! 0)))
      else if enctype = RDB_ENC_INT16 then
        load_then (load_bytes 2) (\<lambda>enc. finish (scast (ucast (enc ! 0) OR push_bit 8 (ucast (enc ! 1)) :: u16)))
      else if enctype = RDB_ENC_INT32 then
        load_then (load_bytes 4) (\<lambda>enc. finish (scast
          (ucast (enc ! 0) OR push_bit 8 (ucast (enc ! 1)) OR push_bit 16 (ucast (enc ! 2)) OR push_bit 24 (ucast (enc ! 3)) :: u32)))
      else (\<lambda>r. Some (Corrupt_exit, r)))"

text \<open>A length that must not be the error value.\<close>

definition load_len :: "(u64, 'b) loader" where
  "load_len = load_then rdbLoadLen (\<lambda>(e, len) r. if len = RDB_LENERR then Some (Load_error, r) else load_ret len r)"

definition rdbLoadLzfStringObject :: "(nat \<Rightarrow> u8) \<Rightarrow> u32 \<Rightarrow> (rdb_string, 'b) loader" where
  "rdbLoadLzfStringObject junk fl =
     load_then load_len (\<lambda>clen. load_then load_len (\<lambda>len r. do {
       val \<leftarrow> (if asks fl RDB_LOAD_PLAIN then Some (map junk [0..<unat len])
              else do { s \<leftarrow> sdsnewlen junk None (unat len); Some (sds_str s) });
       load_then (load_bytes (unat clen)) (\<lambda>c r. do {
         (n, val) \<leftarrow> lzf_decompress c val (unat len);
         if n = 0 then Some (Load_error, r)
         else load_ret (if asks fl RDB_LOAD_PLAIN then As_plain val else if asks fl RDB_LOAD_SDS then As_sds val
                        else As_object (Str_obj val)) r }) r }))"

definition load_verbatim :: "(nat \<Rightarrow> u8) \<Rightarrow> u32 \<Rightarrow> u64 \<Rightarrow> (rdb_string, 'b) loader" where
  "load_verbatim junk fl len r = do {
     ok \<leftarrow> (if asks fl RDB_LOAD_PLAIN then Some True else do { s \<leftarrow> sdsnewlen junk None (unat len); Some True });
     load_then (load_bytes (unat len)) (\<lambda>bs. load_ret
       (if asks fl RDB_LOAD_PLAIN then As_plain bs else if asks fl RDB_LOAD_SDS then As_sds bs else As_object (Str_obj bs))) r }"

definition load_string_body :: "(nat \<Rightarrow> u8) \<Rightarrow> u32 \<Rightarrow> bool \<times> u64 \<Rightarrow> (rdb_string, 'b) loader" where
  "load_string_body junk fl = (\<lambda>(isencoded, len).
     if isencoded then
       if len = ucast RDB_ENC_INT8 \<or> len = ucast RDB_ENC_INT16 \<or> len = ucast RDB_ENC_INT32 then
         rdbLoadIntegerObject junk (ucast len) fl
       else if len = ucast RDB_ENC_LZF then rdbLoadLzfStringObject junk fl
       else (\<lambda>r. Some (Corrupt_exit, r))
     else if len = RDB_LENERR then (\<lambda>r. Some (Load_error, r))
     else load_verbatim junk fl len)"

definition rdbGenericLoadStringObject :: "(nat \<Rightarrow> u8) \<Rightarrow> u32 \<Rightarrow> (rdb_string, 'b) loader" where
  "rdbGenericLoadStringObject junk fl = load_then rdbLoadLen (load_string_body junk fl)"

definition as_object :: "rdb_string \<Rightarrow> (robj, 'b) loader" where
  "as_object x r = (case x of As_object obj \<Rightarrow> load_ret obj r | _ \<Rightarrow> None)"

definition rdbLoadStringObject :: "(nat \<Rightarrow> u8) \<Rightarrow> (robj, 'b) loader" where
  "rdbLoadStringObject junk = load_then (rdbGenericLoadStringObject junk RDB_LOAD_NONE) as_object"

definition rdbLoadEncodedStringObject :: "(nat \<Rightarrow> u8) \<Rightarrow> (robj, 'b) loader" where
  "rdbLoadEncodedStringObject junk = load_then (rdbGenericLoadStringObject junk RDB_LOAD_ENC) as_object"

text \<open>Shared integers are integers here, and the two string encodings are one.\<close>

definition tryObjectEncoding :: "robj \<Rightarrow> robj" where
  "tryObjectEncoding obj =
     (case obj of
        Int_obj v \<Rightarrow> obj
      | Str_obj s \<Rightarrow>
          if length s \<le> 20 then (case string2l s of Some v \<Rightarrow> Int_obj v | None \<Rightarrow> obj) else obj)"

definition rdbIsObjectType :: "u8 \<Rightarrow> bool" where
  "rdbIsObjectType t \<longleftrightarrow> t \<le> 7 \<or> 9 \<le> t \<and> t \<le> 14"

definition rdbLoadObjectType :: "(u8, 'b) loader" where
  "rdbLoadObjectType = load_then rdbLoadType (\<lambda>t r. if \<not> rdbIsObjectType t then Some (Load_error, r) else load_ret t r)"

text \<open>\<open>rdbLoadObject\<close>: strings here, the loader of every other type is the argument \<open>others\<close>.\<close>

definition rdbLoadObject :: "(nat \<Rightarrow> u8) \<Rightarrow> (u8 \<Rightarrow> (robj, 'b) loader) \<Rightarrow> u8 \<Rightarrow> (robj, 'b) loader" where
  "rdbLoadObject junk others rdbtype =
     (if rdbtype = RDB_TYPE_STRING then
        load_then (rdbLoadEncodedStringObject junk) (\<lambda>obj. load_ret (tryObjectEncoding obj))
      else others rdbtype)"

subsection \<open>DUMP and RESTORE\<close>

definition createDumpPayload :: "(nat \<Rightarrow> u8) \<Rightarrow> htab \<Rightarrow> bool \<Rightarrow> robj \<Rightarrow> sds option" where
  "createDumpPayload junk htab rdb_compression obj = do {
     s \<leftarrow> sdsempty junk;
     (n, p) \<leftarrow> rdbSaveObjectType obj (Some (rioInitWithBuffer junk s));
     if n = 0 then None
     else do {
       (n, p) \<leftarrow> rdbSaveObject junk htab rdb_compression obj p;
       if n = 0 then None
       else do {
         payload \<leftarrow> p;
         s \<leftarrow> sdscatlen junk (buf_ptr (rio_io payload)) [ucast (RDB_VERSION AND 0xff), ucast (drop_bit 8 RDB_VERSION AND 0xff)];
         sdscatlen junk s (le_bytes 8 (uint (crc64 0 (sds_str s)))) } } }"

definition verifyDumpPayload :: "bytes \<Rightarrow> bool" where
  "verifyDumpPayload p =
     (let len = length p in
      if len < 10 then False
      else
        let footer = drop (len - 10) p;
            rdbver = push_bit 8 (ucast (footer ! 1)) OR ucast (footer ! 0) :: u16
        in if rdbver > RDB_VERSION then False
           else le_bytes 8 (uint (crc64 0 (take (len - 8) p))) = take 8 (drop 2 footer))"

text \<open>The part of \<open>restoreCommand\<close> that turns its payload argument into an object.\<close>

datatype restored = Restored robj | Wrong_payload | Bad_format | Process_exit

definition restore_object :: "(nat \<Rightarrow> u8) \<Rightarrow> (u8 \<Rightarrow> (robj, rio_buffer) loader) \<Rightarrow> sds \<Rightarrow> restored option" where
  "restore_object junk others s =
     (if \<not> verifyDumpPayload (sds_str s) then Some Wrong_payload
      else do {
        (x, r) \<leftarrow> load_then rdbLoadObjectType (rdbLoadObject junk others) (rioInitWithBuffer junk s);
        Some (case x of Loaded obj \<Rightarrow> Restored obj | Load_error \<Rightarrow> Bad_format | Corrupt_exit \<Rightarrow> Process_exit) })"

subsection \<open>Bits of an encoded length\<close>

lemma bit_small: "unat (w :: 'a :: len word) < 2 ^ k \<Longrightarrow> bit w n \<Longrightarrow> n < k"
proof (rule ccontr)
  assume a: "unat w < 2 ^ k" "bit w n" "\<not> n < k"
  then have "bit (unat w) n" by (simp add: bit_unsigned_iff bit_imp_le_length)
  moreover have "unat w < 2 ^ n" using a(1,3) power_increasing [of k n "2 :: nat"] by linarith
  ultimately show False by (simp add: bit_iff_odd)
qed

lemma mask_bytes:
  "bit (0x3F :: u8) n \<longleftrightarrow> n < 6" "bit (0x40 :: u8) n \<longleftrightarrow> n = 6" "bit (0xC0 :: u8) n \<longleftrightarrow> n = 6 \<or> n = 7"
proof -
  have m: "(0x3F :: u8) = mask 6" "(0xC0 :: u8) = push_bit 6 (mask 2)" "(64 :: u8) = push_bit 6 1"
    by (simp_all add: mask_eq_exp_minus_1 push_bit_eq_mult)
  show "bit (0x3F :: u8) n \<longleftrightarrow> n < 6" unfolding m by (auto simp: bit_mask_iff)
  show "bit (0x40 :: u8) n \<longleftrightarrow> n = 6" unfolding m by (simp only: bit_push_bit_iff bit_1_iff) auto
  show "bit (0xC0 :: u8) n \<longleftrightarrow> n = 6 \<or> n = 7" unfolding m by (simp only: bit_push_bit_iff bit_mask_iff) auto
qed

lemma six_bits:
  assumes b: "unat (b :: u8) < 64"
  shows "drop_bit 6 (b AND 0xC0) = 0" "b AND 0x3F = b" "drop_bit 6 ((b OR 64) AND 0xC0) = 1" "(b OR 64) AND 0x3F = b"
proof -
  have s: "bit b n \<Longrightarrow> n < 6" for n using bit_small [of b 6 n] b by simp
  then have n: "\<not> bit b (6 + n)" for n using leD by fastforce
  show "drop_bit 6 (b AND 0xC0) = 0" "drop_bit 6 ((b OR 64) AND 0xC0) = 1"
    by (rule bit_eqI; auto simp: bit_drop_bit_eq bit_and_iff bit_or_iff mask_bytes n bit_1_iff)+
  show "b AND 0x3F = b" "(b OR 64) AND 0x3F = b"
    by (rule bit_eqI; simp only: bit_and_iff bit_or_iff mask_bytes; use s in auto)+
qed

lemma unat_len_byte:
  "unat (len :: u64) < 2 ^ 6 \<Longrightarrow> unat (ucast len :: u8) < 64" 
  "unat (len :: u64) < 2 ^ 14 \<Longrightarrow> unat (ucast (drop_bit 8 len) :: u8) < 64"
proof -
  show "unat (ucast len :: u8) < 64" if "unat len < 2 ^ 6"
    using that by (simp add: unsigned_ucast_eq take_bit_nat_eq_self)
  have "unat (drop_bit 8 len) = unat len div 256" by (simp add: drop_bit_eq_div unat_div)
  then show "unat (ucast (drop_bit 8 len) :: u8) < 64" if "unat len < 2 ^ 14"
    using that by (simp only: unsigned_ucast_eq) (simp add: take_bit_eq_mod)
qed

lemma ucast_back: "unat (len :: u64) < 2 ^ 8 \<Longrightarrow> (ucast (ucast len :: u8) :: u64) = len"
  by (rule bit_eqI) (use bit_small [of len 8] in \<open>auto simp: bit_ucast_iff\<close>)

lemma len14: "unat (len :: u64) < 2 ^ 14 \<Longrightarrow> push_bit 8 (ucast (ucast (drop_bit 8 len) :: u8) :: u64) OR ucast (ucast len :: u8) = len"
proof (rule bit_eqI)
  fix n assume l: "unat len < 2 ^ 14"
  show "bit (push_bit 8 (ucast (ucast (drop_bit 8 len) :: u8) :: u64) OR ucast (ucast len :: u8)) n = bit len n"
    using bit_small [OF l, of n] by (auto simp: bit_simps)
qed

text \<open>The encoding of a length.\<close>

definition len_text :: "u64 \<Rightarrow> bytes" where
  "len_text len =
     (if unat len < 2 ^ 6 then [ucast len]
      else if unat len < 2 ^ 14 then [ucast (drop_bit 8 len) OR 64, ucast len]
      else if unat len < 2 ^ 32 then 0x80 # rev (le_bytes 4 (uint len))
      else 0x81 # rev (le_bytes 8 (uint len)))"

lemma length_len_text: "0 < length (len_text len)" "length (len_text len) \<le> 9" "unat len < 2 ^ 32 \<Longrightarrow> length (len_text len) \<le> 5"
  by (simp_all add: len_text_def)

lemma htonl_bytes_rev: "unat len < 2 ^ 32 \<Longrightarrow> htonl_bytes len = rev (le_bytes 4 (uint len))"
proof -
  assume "unat len < 2 ^ 32"
  then have "int (unat (ucast len :: u32)) = int (unat len)" by (simp only: unsigned_ucast_eq) (simp add: take_bit_nat_eq_self)
  then show ?thesis by (simp add: htonl_bytes_def)
qed

lemma ntohl_bytes_rev: "unat len < 2 ^ 32 \<Longrightarrow> ntohl_bytes (rev (le_bytes 4 (uint len))) = len"
proof -
  assume "unat len < 2 ^ 32"
  then have "int (unat len) < 2 ^ 32" by (simp del: of_nat_unat)
  then have "int (le_val (le_bytes 4 (uint len))) = int (unat len)" by (simp add: le_val_le_bytes)
  then have "le_val (le_bytes 4 (uint len)) = unat len" by (simp only: of_nat_eq_iff)
  then show ?thesis by (simp add: ntohl_bytes_def)
qed

lemma hton64: "htonu64_bytes len = Some (rev (le_bytes 8 (uint len)))" "ntohu64_bytes (rev (le_bytes 8 (uint len))) = Some len"
proof -
  show "htonu64_bytes len = Some (rev (le_bytes 8 (uint len)))"
    by (simp add: htonu64_bytes_def intrev64_def memrev64_rev rev_bytes_twice)
  show "ntohu64_bytes (rev (le_bytes 8 (uint len))) = Some len"
    by (simp add: ntohu64_bytes_def intrev64_def memrev64_rev rev_bytes_twice word_of_le_bytes)
qed

lemma rdbSaveLen_text:
  "rdbSaveLen len rdb =
     (if unat len < 2 ^ 14 then rdbWriteRaw (len_text len)
      else save_then (rdbWriteRaw [hd (len_text len)]) (rdbWriteRaw (tl (len_text len)))) rdb"
proof -
  have "unat len \<le> 2 ^ 32 - 1 \<longleftrightarrow> unat len < 2 ^ 32" by auto
  then show ?thesis by (simp add: rdbSaveLen_def len_text_def rdb_consts htonl_bytes_rev hton64)
qed

lemma load_len_body_6: "unat len < 2 ^ 6 \<Longrightarrow> load_len_body (ucast len) = load_ret (False, len)"
proof -
  assume len: "unat len < 2 ^ 6"
  note b = six_bits(1,2) [OF unat_len_byte(1) [OF len]]
  have "(ucast (ucast len :: u8) :: u64) = len" using len by (intro ucast_back) simp
  then show ?thesis unfolding load_len_body_def Let_def b by (simp only: rdb_consts) simp
qed

lemma load_len_body_14: "unat (len :: u64) < 2 ^ 14 \<Longrightarrow> load_len_body (ucast (drop_bit 8 len) OR 64) =
    load_then (load_bytes 1) (\<lambda>b1. load_ret (False, push_bit 8 (ucast (ucast (drop_bit 8 len) :: u8)) OR ucast (b1 ! 0)))"
proof -
  assume "unat len < 2 ^ 14"
  note b = six_bits(3,4) [OF unat_len_byte(2) [OF this]]
  show ?thesis unfolding load_len_body_def Let_def b by (simp only: rdb_consts) simp
qed

lemma load_len_body_words:
  "load_len_body 0x80 = load_then (load_bytes 4) (\<lambda>bs. load_ret (False, ntohl_bytes bs))"
  "load_len_body 0x81 = load_then (load_bytes 8) (\<lambda>bs r. do { v \<leftarrow> ntohu64_bytes bs; load_ret (False, v) r })"
  by (simp_all add: load_len_body_def rdb_consts)

lemma load_len_body_enc:
  "load_len_body 0xC0 = load_ret (True, 0)" "load_len_body 0xC1 = load_ret (True, 1)"
  "load_len_body 0xC2 = load_ret (True, 2)" "load_len_body 0xC3 = load_ret (True, 3)"
  "load_len_body 0xC4 = load_ret (True, 4)"
  by (simp_all add: load_len_body_def rdb_consts)

subsection \<open>The contract of a backend\<close>

text \<open>A stream after \<open>t\<close> went through it and its backend became \<open>x\<close>.\<close>

definition advance :: "'b rio \<Rightarrow> bytes \<Rightarrow> 'b \<Rightarrow> 'b rio" where
  "advance r t x = (call_update_cksum r t)\<lparr>rio_io := x, processed_bytes := processed_bytes r + word_of_nat (length t)\<rparr>"

lemma processed_update [simp]: "processed_bytes (call_update_cksum r t) = processed_bytes r"
  by (simp add: call_update_cksum_def split: option.split)

text \<open>Checksum functions that may be fed in pieces.\<close>

definition additive :: "'b rio \<Rightarrow> bool" where
  "additive r \<longleftrightarrow> (\<forall>f. update_cksum r = Some f \<longrightarrow> (\<forall>c. f c [] = c) \<and> (\<forall>c t u. f c (t @ u) = f (f c t) u))"

lemma advance_fields [simp]:
  "rio_read (advance r t x) = rio_read r" "rio_write (advance r t x) = rio_write r" "update_cksum (advance r t x) = update_cksum r"
  "max_processing_chunk (advance r t x) = max_processing_chunk r" "rio_io (advance r t x) = x"
  "processed_bytes (advance r t x) = processed_bytes r + word_of_nat (length t)"
  "cksum (advance r t x) = (case update_cksum r of None \<Rightarrow> cksum r | Some f \<Rightarrow> f (cksum r) t)"
  by (simp_all add: advance_def call_update_cksum_def split: option.split)

lemma advance_additive [simp]: "additive (advance r t x) \<longleftrightarrow> additive r"
  by (simp add: additive_def)

lemma advance_nil: "additive r \<Longrightarrow> advance r [] (rio_io r) = r"
  by (simp add: advance_def call_update_cksum_def additive_def split: option.split)

lemma advance_advance: "additive r \<Longrightarrow> advance (advance r t x) u y = advance r (t @ u) y"
  by (rule rio.equality) (auto simp: additive_def add.assoc advance_def call_update_cksum_def split: option.split)

lemma additive_crc64: "update_cksum r = Some rioGenericUpdateChecksum \<Longrightarrow> additive r"
  by (simp add: additive_def rioGenericUpdateChecksum_def crc64_append)

lemma c_int_small: "0 \<le> n \<Longrightarrow> n < 2 ^ 31 \<Longrightarrow> c_int n = n"
  by (simp add: c_int_def sint_sbintrunc' signed_take_bit_int_eq_self)

locale rio_backend =
  fixes rfn :: "'b \<Rightarrow> nat \<Rightarrow> (bytes option \<times> 'b) option" and wfn :: "'b \<Rightarrow> bytes \<Rightarrow> (bool \<times> 'b) option"
    and good :: "'b \<Rightarrow> bool" and out :: "'b \<Rightarrow> bytes" and inp :: "'b \<Rightarrow> bytes" and cap :: nat
  assumes write_law: "good x \<Longrightarrow> length (out x) + length b \<le> cap \<Longrightarrow>
      \<exists>x'. wfn x b = Some (True, x') \<and> good x' \<and> out x' = out x @ b"
    and read_law: "good x \<Longrightarrow> inp x = b @ rest \<Longrightarrow> \<exists>x'. rfn x (length b) = Some (Some b, x') \<and> good x' \<and> inp x' = rest"
begin

definition sound :: "'b rio \<Rightarrow> bool" where
  "sound r \<longleftrightarrow> rio_read r = rfn \<and> rio_write r = wfn \<and> additive r \<and> good (rio_io r)"

text \<open>A saver that writes \<open>t\<close> wherever it fits and returns its size, which it also returns without a stream;
  a loader that consumes \<open>t\<close> and returns \<open>v\<close>.\<close>

definition writes :: "'b saver \<Rightarrow> bytes \<Rightarrow> bool" where
  "writes f t \<longleftrightarrow> f None = Some (int (length t), None) \<and>
     (\<forall>r. sound r \<longrightarrow> length (out (rio_io r)) + length t \<le> cap \<longrightarrow>
       (\<exists>x. f (Some r) = Some (int (length t), Some (advance r t x)) \<and> good x \<and> out x = out (rio_io r) @ t))"

definition reads :: "('a, 'b) loader \<Rightarrow> 'a \<Rightarrow> bytes \<Rightarrow> bool" where
  "reads f v t \<longleftrightarrow> (\<forall>r rest. sound r \<longrightarrow> inp (rio_io r) = t @ rest \<longrightarrow>
     (\<exists>x. f r = Some (Loaded v, advance r t x) \<and> good x \<and> inp x = rest))"

lemma sound_advance: "sound r \<Longrightarrow> good x \<Longrightarrow> sound (advance r t x)"
  by (simp add: sound_def)

lemma rioWrite_law:
  "sound r \<Longrightarrow> length (out (rio_io r)) + length t \<le> cap \<Longrightarrow>
    \<exists>x. rioWrite r t = Some (True, advance r t x) \<and> good x \<and> out x = out (rio_io r) @ t"
proof (induction "length t" arbitrary: r t rule: less_induct)
  case less
  show ?case
  proof (cases "t = []")
    case True
    then show ?thesis using less.prems
      by (intro exI [of _ "rio_io r"]) (simp add: rioWrite.simps [of r] advance_nil sound_def)
  next
    case False
    define n where "n = chunk_size r (length t)"
    have n: "0 < n" "n \<le> length t" using False by (simp_all add: n_def)
    then have shorter: "length (drop n t) < length t" by simp
    obtain x where x: "wfn (rio_io r) (take n t) = Some (True, x)" "good x" "out x = out (rio_io r) @ take n t"
      using write_law [of "rio_io r" "take n t"] less.prems n by (auto simp: sound_def)
    have s: "rioWrite r t = rioWrite (advance r (take n t) x) (drop n t)"
      using False less.prems(1) x(1) n
      by (subst rioWrite.simps)
        (simp add: n_def [symmetric] Let_def sound_def advance_def call_update_cksum_def split: option.split)
    obtain y where y: "rioWrite (advance r (take n t) x) (drop n t) = Some (True, advance (advance r (take n t) x) (drop n t) y)"
      "good y" "out y = out x @ drop n t"
      using less.hyps [OF shorter, of "advance r (take n t) x"] n x(2,3) less.prems sound_advance [of r x "take n t"] by auto
    then show ?thesis using s x(3) less.prems(1) by (auto simp: advance_advance sound_def)
  qed
qed

lemma rioRead_law:
  "sound r \<Longrightarrow> inp (rio_io r) = t @ rest \<Longrightarrow>
    \<exists>x. rioRead r (length t) = Some (Some t, advance r t x) \<and> good x \<and> inp x = rest"
proof (induction "length t" arbitrary: r t rule: less_induct)
  case less
  show ?case
  proof (cases "t = []")
    case True
    then show ?thesis using less.prems
      by (intro exI [of _ "rio_io r"]) (simp add: rioRead.simps [of r] advance_nil sound_def)
  next
    case False
    define n where "n = chunk_size r (length t)"
    have n: "0 < n" "n \<le> length t" using False by (simp_all add: n_def)
    then have shorter: "length (drop n t) < length t" by simp
    obtain x where x: "rfn (rio_io r) n = Some (Some (take n t), x)" "good x" "inp x = drop n t @ rest"
      using read_law [of "rio_io r" "take n t" "drop n t @ rest"] less.prems n
      by (auto simp: sound_def simp flip: append_assoc)
    obtain y where y: "rioRead (advance r (take n t) x) (length (drop n t)) = Some (Some (drop n t), advance (advance r (take n t) x) (drop n t) y)"
      "good y" "inp y = rest"
      using less.hyps [OF shorter, of "advance r (take n t) x"] n x(2,3) less.prems sound_advance [of r x "take n t"] by auto
    have "(call_update_cksum (r\<lparr>rio_io := x\<rparr>) (take n t))\<lparr>processed_bytes := processed_bytes r + word_of_nat n\<rparr> = advance r (take n t) x"
      using n by (simp add: advance_def call_update_cksum_def split: option.split)
    then have "rioRead r (length t) = Some (Some t, advance (advance r (take n t) x) (drop n t) y)"
      using False less.prems(1) x(1) y(1) n
      by (subst rioRead.simps)
        (simp add: n_def [symmetric] Let_def sound_def)
    then show ?thesis using y less.prems(1) by (auto simp: advance_advance sound_def)
  qed
qed

lemma writes_raw: "length t < 2 ^ 31 \<Longrightarrow> writes (rdbWriteRaw t) t"
proof -
  assume t: "length t < 2 ^ 31"
  have c: "c_int (int (length t)) = int (length t)" using t by (intro c_int_small) simp_all
  show ?thesis unfolding writes_def
  proof (intro conjI allI impI)
    fix r assume "sound r" "length (out (rio_io r)) + length t \<le> cap"
    then obtain x where "rioWrite r t = Some (True, advance r t x)" "good x" "out x = out (rio_io r) @ t"
      using rioWrite_law by blast
    then show "\<exists>x. rdbWriteRaw t (Some r) = Some (int (length t), Some (advance r t x)) \<and> good x \<and> out x = out (rio_io r) @ t"
      using c by (intro exI [of _ x]) (simp add: rdbWriteRaw_def)
  qed (simp add: rdbWriteRaw_def c)
qed

lemma writes_then: "writes f t \<Longrightarrow> writes g u \<Longrightarrow> writes (save_then f g) (t @ u)"
proof -
  assume f: "writes f t" and g: "writes g u"
  show ?thesis unfolding writes_def
  proof (intro conjI allI impI)
    fix r assume r: "sound r" "length (out (rio_io r)) + length (t @ u) \<le> cap"
    obtain x where x: "f (Some r) = Some (int (length t), Some (advance r t x))" "good x" "out x = out (rio_io r) @ t"
      using f r by (auto simp: writes_def)
    obtain y where y: "g (Some (advance r t x)) = Some (int (length u), Some (advance (advance r t x) u y))"
      "good y" "out y = out x @ u"
      using g r x sound_advance [OF r(1) x(2), of t] by (fastforce simp: writes_def)
    then show "\<exists>x. save_then f g (Some r) = Some (int (length (t @ u)), Some (advance r (t @ u) x)) \<and> good x \<and> out x = out (rio_io r) @ t @ u"
      using x r(1) by (intro exI [of _ y]) (simp add: save_then_def advance_advance sound_def)
  qed (use f g in \<open>simp add: writes_def save_then_def\<close>)
qed

lemma reads_ret: "reads (load_ret v) v []"
  unfolding reads_def by (auto simp: load_ret_def advance_nil sound_def intro!: exI)

lemma reads_bytes: "reads (load_bytes (length t)) t t"
  unfolding reads_def
proof (intro allI impI)
  fix r rest assume "sound r" "inp (rio_io r) = t @ rest"
  then obtain x where "rioRead r (length t) = Some (Some t, advance r t x)" "good x" "inp x = rest" using rioRead_law by blast
  then show "\<exists>x. load_bytes (length t) r = Some (Loaded t, advance r t x) \<and> good x \<and> inp x = rest"
    by (intro exI [of _ x]) (simp add: load_bytes_def)
qed

lemma reads_then: "reads f v t \<Longrightarrow> reads (g v) w u \<Longrightarrow> reads (load_then f g) w (t @ u)"
proof -
  assume f: "reads f v t" and g: "reads (g v) w u"
  show ?thesis unfolding reads_def
  proof (intro allI impI)
    fix r rest assume r: "sound r" "inp (rio_io r) = (t @ u) @ rest"
    obtain x where x: "f r = Some (Loaded v, advance r t x)" "good x" "inp x = u @ rest"
      using f r by (force simp: reads_def)
    obtain y where "g v (advance r t x) = Some (Loaded w, advance (advance r t x) u y)" "good y" "inp y = rest"
      using g x sound_advance [OF r(1) x(2), of t] by (force simp: reads_def)
    then show "\<exists>x. load_then f g r = Some (Loaded w, advance r (t @ u) x) \<and> good x \<and> inp x = rest"
      using x r(1) by (intro exI [of _ y]) (simp add: load_then_def advance_advance sound_def)
  qed
qed

lemma reads_cong: "reads f v t \<Longrightarrow> (\<And>r. f r = g r) \<Longrightarrow> reads g v t"
  by (simp add: reads_def)

lemma writes_cong: "writes f t \<Longrightarrow> (\<And>r. f r = g r) \<Longrightarrow> writes g t"
  by (simp add: writes_def)

end

subsection \<open>Lengths\<close>

context rio_backend
begin

lemma reads_then_byte: "reads (g [b]) w u \<Longrightarrow> reads (load_then (load_bytes 1) g) w (b # u)"
  using reads_then [OF reads_bytes [of "[b]"], of g w u] by simp

lemma reads_len_ref_body: "reads (load_len_body b) v u \<Longrightarrow> reads rdbLoadLenByRef v (b # u)"
  unfolding rdbLoadLenByRef_def by (rule reads_then_byte) simp

lemma reads_len_ref: "reads rdbLoadLenByRef (False, len) (len_text len)"
proof -
  consider "unat len < 2 ^ 6" | "2 ^ 6 \<le> unat len" "unat len < 2 ^ 14" | "2 ^ 14 \<le> unat len" "unat len < 2 ^ 32" | "2 ^ 32 \<le> unat len"
    by linarith
  then show ?thesis
  proof cases
    case 1
    then have "load_len_body (ucast len) = (load_ret (False, len) :: (bool \<times> u64, 'b) loader)" by (rule load_len_body_6)
    with 1 reads_len_ref_body [of "ucast len" "(False, len)" "[]"] reads_ret [of "(False, len)"] show ?thesis by (simp add: len_text_def)
  next
    case 2
    have "reads (load_len_body (ucast (drop_bit 8 len) OR 64)) (False, len) [ucast len]"
      unfolding load_len_body_14 [OF 2(2)]
      by (rule reads_then_byte) (simp add: len14 [OF 2(2)] reads_ret)
    with 2 show ?thesis by (simp add: len_text_def reads_len_ref_body)
  next
    case 3
    have "reads (load_then (load_bytes 4) (\<lambda>bs. load_ret (False, ntohl_bytes bs))) (False, len) (rev (le_bytes 4 (uint len)))"
      using reads_then [OF reads_bytes [of "rev (le_bytes 4 (uint len))"] , of "\<lambda>bs. load_ret (False, ntohl_bytes bs)" "(False, len)" "[]"]
        3(2) reads_ret [of "(False, len)"] by (simp add: ntohl_bytes_rev)
    with 3 show ?thesis by (simp add: len_text_def reads_len_ref_body load_len_body_words)
  next
    case 4
    have "reads (load_then (load_bytes 8) (\<lambda>bs r. do { v \<leftarrow> ntohu64_bytes bs; load_ret (False, v) r })) (False, len) (rev (le_bytes 8 (uint len)))"
      using reads_then [OF reads_bytes [of "rev (le_bytes 8 (uint len))"], of "\<lambda>bs r. do { v \<leftarrow> ntohu64_bytes bs; load_ret (False, v) r }" "(False, len)" "[]"]
        reads_ret [of "(False, len)"] by (simp add: hton64)
    with 4 show ?thesis by (simp add: len_text_def reads_len_ref_body load_len_body_words)
  qed
qed

lemma reads_rdbLoadLen: "reads rdbLoadLenByRef v t \<Longrightarrow> reads rdbLoadLen v t"
proof -
  assume f: "reads rdbLoadLenByRef v t"
  show ?thesis unfolding reads_def
  proof (intro allI impI)
    fix r rest assume "sound r" "inp (rio_io r) = t @ rest"
    then obtain x where "rdbLoadLenByRef r = Some (Loaded v, advance r t x)" "good x" "inp x = rest"
      using f [unfolded reads_def, THEN spec, THEN spec, THEN mp, THEN mp] by blast
    then show "\<exists>x. rdbLoadLen r = Some (Loaded v, advance r t x) \<and> good x \<and> inp x = rest"
      by (intro exI [of _ x]) (simp add: rdbLoadLen_def)
  qed
qed

lemma reads_load_len: "len \<noteq> - 1 \<Longrightarrow> reads load_len len (len_text len)"
  using reads_then [OF reads_rdbLoadLen [OF reads_len_ref [of len]],
      of "\<lambda>(e, len) r. if len = RDB_LENERR then Some (Load_error, r) else load_ret len r" len "[]"] reads_ret [of len]
  by (simp add: load_len_def RDB_LENERR_def)

lemma writes_len: "writes (rdbSaveLen len) (len_text len)"
proof -
  have two: "writes (save_then (rdbWriteRaw [b]) (rdbWriteRaw bs)) (b # bs)" if "length bs < 2 ^ 31" for b bs
    using writes_then [OF writes_raw [of "[b]"] writes_raw [OF that]] by simp
  have one: "writes (rdbWriteRaw [b]) [b]" "writes (rdbWriteRaw [b, c]) [b, c]" for b c
    by (rule writes_raw; simp)+
  show ?thesis
    by (rule writes_cong [OF _ rdbSaveLen_text [symmetric]]) (simp add: len_text_def one two)
qed

end

subsection \<open>Integers\<close>

primrec text_of :: "rdb_string \<Rightarrow> bytes" where
  "text_of (As_object obj) = obj_text obj"
| "text_of (As_plain b) = b"
| "text_of (As_sds b) = b"

text \<open>The form of the result that the flags ask for.\<close>

definition shape :: "u32 \<Rightarrow> rdb_string \<Rightarrow> bool" where
  "shape fl x \<longleftrightarrow>
     (if asks fl RDB_LOAD_PLAIN then \<exists>b. x = As_plain b
      else if asks fl RDB_LOAD_SDS then \<exists>b. x = As_sds b
      else \<exists>obj. x = As_object obj \<and> (asks fl RDB_LOAD_ENC \<or> (\<exists>b. obj = Str_obj b)))"

lemma integer_object_spec:
  assumes "sint v \<noteq> LLONG_MIN"
  shows "\<exists>x. integer_object junk fl v = Some x \<and> text_of x = dec_int (sint v) \<and> shape fl x"
proof -
  let ?t = "dec_int (sint v)"
  have l: "length ?t \<le> 20" by (rule length_dec_int_le)
  have ll: "ll2string (map junk [0..<21]) 21 v = Some (?t @ 0 # drop (Suc (length ?t)) (map junk [0..<21]), length ?t)"
    using ll2string_spec [of 21 "map junk [0..<21]" v] l by simp
  obtain s where s: "sdsnewlen junk None (length ?t) = Some s" "sds_ok s" "sds_str s = replicate (length ?t) 0"
    using sdsnewlen_spec [where n = "length ?t" and init = None and t = "replicate (length ?t) 0" and junk = junk] l by auto
  have h: "hdr_len s = length ?t" "length ?t \<le> length (hdr_buf s)"
    using s(2) arg_cong [OF s(3), of length] by (auto simp: sds_ok_def sds_str_def)
  obtain u where u: "sdsfromlonglong junk v = Some u" "sds_str u = ?t" using sdsfromlonglong_spec [OF assms] by blast
  show ?thesis
    by (simp add: integer_object_def shape_def ll s(1) u u(2) [unfolded sds_str_def] wrn_def h put_def sds_str_def createStringObjectFromLongLong_def)
qed

lemma enc_word16: "ucast (enc_byte v 0) OR push_bit 8 (ucast (enc_byte v 8)) = (word_of_int v :: u16)"
  by (rule bit_eqI) (auto simp: enc_byte_def bit_simps)

lemma enc_word32:
  "ucast (enc_byte v 0) OR push_bit 8 (ucast (enc_byte v 8)) OR push_bit 16 (ucast (enc_byte v 16)) OR push_bit 24 (ucast (enc_byte v 24)) =
    (word_of_int v :: u32)"
proof (rule bit_eqI)
  fix n
  show "bit (ucast (enc_byte v 0) OR push_bit 8 (ucast (enc_byte v 8)) OR push_bit 16 (ucast (enc_byte v 16)) OR
      push_bit 24 (ucast (enc_byte v 24)) :: u32) n = bit (word_of_int v :: u32) n"
    by (cases "24 \<le> n"; cases "16 \<le> n"; cases "8 \<le> n") (auto simp: enc_byte_def bit_simps)
qed

lemma scast_back:
  assumes "- (2 ^ (LENGTH('a :: len) - 1)) \<le> sint v" "sint v < 2 ^ (LENGTH('a) - 1)"
  shows "scast (word_of_int (sint v) :: 'a word) = (v :: i64)"
proof -
  have "sint (word_of_int (sint v) :: 'a word) = sint v"
    using assms by (simp only: signed_of_int) (simp add: signed_take_bit_int_eq_self)
  then show ?thesis by (simp only: scast_eq signed_word_inverse)
qed

context rio_backend
begin

lemma reads_pure: "f v = Some x \<Longrightarrow> reads (\<lambda>r. do { y \<leftarrow> f v; load_ret y r }) x []"
  using reads_ret [of x] by simp

lemma reads_encoded:
  assumes "load_len_body b = (load_ret (True, k) :: (bool \<times> u64, 'b) loader)" "reads (load_string_body junk fl (True, k)) x u"
  shows "reads (rdbGenericLoadStringObject junk fl) x (b # u)"
  using reads_then [OF reads_rdbLoadLen [OF reads_len_ref_body [of b "(True, k)" "[]"]], where g = "load_string_body junk fl"] assms
    reads_ret [of "(True, k)"] by (simp add: rdbGenericLoadStringObject_def)

lemma reads_integer:
  assumes x: "integer_object junk fl v = Some x" and e: "rdbEncodeInteger v \<noteq> []"
  shows "reads (rdbGenericLoadStringObject junk fl) x (rdbEncodeInteger v)"
proof -
  have load: "reads (load_then (load_bytes n) (\<lambda>bs r. do { y \<leftarrow> integer_object junk fl (dec bs); load_ret y r })) x bs"
    if "dec bs = v" "length bs = n" for dec bs n
    using reads_then [OF reads_bytes [of bs], of "\<lambda>bs r. do { y \<leftarrow> integer_object junk fl (dec bs); load_ret y r }" x "[]"]
      reads_pure [of "integer_object junk fl" v x] x that by simp
  let ?v = "sint v"
  consider "- (2 ^ 7) \<le> ?v \<and> ?v \<le> 2 ^ 7 - 1" | "\<not> (- (2 ^ 7) \<le> ?v \<and> ?v \<le> 2 ^ 7 - 1)" "- (2 ^ 15) \<le> ?v \<and> ?v \<le> 2 ^ 15 - 1"
    | "\<not> (- (2 ^ 7) \<le> ?v \<and> ?v \<le> 2 ^ 7 - 1)" "\<not> (- (2 ^ 15) \<le> ?v \<and> ?v \<le> 2 ^ 15 - 1)" "- (2 ^ 31) \<le> ?v \<and> ?v \<le> 2 ^ 31 - 1"
    using e by (auto simp: rdbEncodeInteger_def Let_def split: if_splits)
  then show ?thesis
  proof cases
    case 1
    have "reads (rdbGenericLoadStringObject junk fl) x (0xC0 # [enc_byte ?v 0])"
      by (rule reads_encoded [OF load_len_body_enc(1)])
        (use load [of "\<lambda>enc. scast (enc ! 0)" "[enc_byte ?v 0]" 1] 1 scast_back [where v = v and 'a = 8] in
          \<open>simp add: load_string_body_def rdbLoadIntegerObject_def rdb_consts Let_def enc_byte_def\<close>)
    with 1 show ?thesis by (auto simp: rdbEncodeInteger_def Let_def rdb_consts)
  next
    case 2
    have "reads (rdbGenericLoadStringObject junk fl) x (0xC1 # [enc_byte ?v 0, enc_byte ?v 8])"
      by (rule reads_encoded [OF load_len_body_enc(2)])
        (use load [of "\<lambda>enc. scast (ucast (enc ! 0) OR push_bit 8 (ucast (enc ! 1)) :: u16)" "[enc_byte ?v 0, enc_byte ?v 8]" 2] 2
          scast_back [where v = v and 'a = 16] in
          \<open>simp add: load_string_body_def rdbLoadIntegerObject_def rdb_consts Let_def enc_word16\<close>)
    with 2 show ?thesis by (auto simp: rdbEncodeInteger_def Let_def rdb_consts)
  next
    case 3
    have "reads (rdbGenericLoadStringObject junk fl) x (0xC2 # [enc_byte ?v 0, enc_byte ?v 8, enc_byte ?v 16, enc_byte ?v 24])"
      by (rule reads_encoded [OF load_len_body_enc(3)])
        (use load [of "\<lambda>enc. scast (ucast (enc ! 0) OR push_bit 8 (ucast (enc ! 1)) OR push_bit 16 (ucast (enc ! 2)) OR push_bit 24 (ucast (enc ! 3)) :: u32)"
            "[enc_byte ?v 0, enc_byte ?v 8, enc_byte ?v 16, enc_byte ?v 24]" 4] 3 scast_back [where v = v and 'a = 32] in
          \<open>simp add: load_string_body_def rdbLoadIntegerObject_def rdb_consts Let_def enc_word32\<close>)
    with 3 show ?thesis by (auto simp: rdbEncodeInteger_def Let_def rdb_consts)
  qed
qed

end

end
