(* ===== verification/Spec2Isabelle.thy ===== *)
theory Spec2Isabelle
  imports Dict_Types Glob Intset Adlist Lzf Crc Link Request_Safe Rdb
begin

text \<open>
  Verification of the Redis 4.0.6 server that the application carries under \<open>src/redis-4.0.6\<close>. All C
  files named below are in \<open>src/redis-4.0.6/src\<close>.

  \<^bold>\<open>The program.\<close> The application keeps the status of its background tasks in this server
  (\<open>src/docs/dev/Asynchronus.md\<close>). The server reads requests from its connections into query buffers (\<open>networking.c\<close>), parses them into
  argument vectors, executes each command on a key space that is a hash table from strings to values
  (\<open>dict.c\<close>, \<open>siphash.c\<close>), queues the reply in the output buffers of the client and drains them into
  the socket. A write command is also fed to a circular backlog and to the output buffers of the slaves
  (\<open>replication.c\<close>), which are servers that read it as a client connection with the master flag. Below
  these are the libraries: strings (\<open>sds.c\<close>), integer sets (\<open>intset.c\<close>), linked lists (\<open>adlist.c\<close>),
  number conversions and glob patterns (\<open>util.c\<close>), byte order (\<open>endianconv.c\<close>), checksums (\<open>crc16.c\<close>,
  \<open>crc64.c\<close>) and compression (\<open>lzf_c.c\<close>, \<open>lzf_d.c\<close>).

  \<^bold>\<open>Conventions.\<close> The host is a 64-bit little-endian one. A byte is \<open>u8\<close>, a buffer a list of bytes, a
  pointer into a buffer an offset or the suffix it points to. Machine integers are words, or \<open>nat\<close> and
  \<open>int\<close> where the code cannot wrap on the states the invariant describes, with the bound written in
  the invariant. An operation that can read or write outside of a buffer, follow NULL, fail an assertion
  or fail to return has an \<open>option\<close> result, and \<open>None\<close> is that event; error returns of the code are values inside of it.
  The contents of uninitialised memory are the argument \<open>junk\<close>. Allocation does not fail: the
  server's allocator aborts the process instead.

  \<^bold>\<open>Theories and what they show.\<close>
  \<^item> \<open>Prelude\<close>: C integer types, checked reads and writes of buffers, shared facts on words and lists.
  \<^item> \<open>Siphash\<close> (\<open>siphash.c\<close>): both hash functions, and that the case-insensitive one is the plain one on
    the lower-cased text.
  \<^item> \<open>Dict\<close> (\<open>dict.c\<close>, \<open>dict.h\<close>): records \<open>dict\<close>, \<open>dictht\<close>, \<open>dictEntry\<close>, \<open>dictType\<close> and one definition per
    function. \<open>Dict_Refine\<close> has the invariant \<open>dict_ok\<close> and the abstraction to a map and shows that
    expansion and rehashing keep both; \<open>Dict_Map\<close> has the contract of a dictionary type as the locale
    \<open>dict_type\<close> and shows that lookup, insertion, replacement and deletion act on the map;
    \<open>Dict_Scan\<close> treats the cursor iteration; \<open>Dict_Types\<close> (\<open>server.c\<close>) interprets the locale for the
    key space and for the command table and states the properties there.
  \<^item> \<open>Util\<close> and \<open>Glob\<close> (\<open>util.c\<close>): conversions between integers and text with their bounds and round
    trips, sizes with units, and glob matching against a declarative matcher.
  \<^item> \<open>Endian\<close> (\<open>endianconv.c\<close>): integers in memory and byte reversals.
  \<^item> \<open>Set_Store\<close> and \<open>Intset\<close> (\<open>intset.c\<close>): the contract of a set container as a locale, and the sorted
    array with in-place widening as an interpretation of it.
  \<^item> \<open>Adlist\<close> (\<open>adlist.c\<close>): the list on an explicit heap of nodes; well-formedness, insertion, iteration
    under deletion and copying.
  \<^item> \<open>Lzf\<close> (\<open>lzf_c.c\<close>, \<open>lzf_d.c\<close>): memory safety of both directions and the round trip.
  \<^item> \<open>Crc\<close> (\<open>crc16.c\<close>, \<open>crc64.c\<close>, \<open>keyHashSlot\<close> of \<open>cluster.c\<close>): the tables against bitwise polynomial
    division, detection of burst errors, hash tags.
  \<^item> \<open>Str_Builder\<close>, \<open>Sds\<close> and \<open>Sds_Text\<close> (\<open>sds.c\<close>, \<open>sds.h\<close>): the contract of a growable string as a locale; the
    string with its five header types as an interpretation; printing, formatting, splitting, quoting
    and parsing on top of it.
  \<^item> \<open>Reply\<close> (\<open>networking.c\<close>): the record \<open>client\<close> (the fields of the C struct these functions use), the
    reply buffer and list, all \<open>addReply\<close> functions, output limits and \<open>writeToClient\<close>. Queueing is an
    interpretation of \<open>str_builder\<close> too: the reply is one stream of bytes.
  \<^item> \<open>Replication\<close> (\<open>replication.c\<close>): the circular backlog, \<open>replicationFeedSlaves\<close>, partial
    resynchronization and replication ids.
  \<^item> \<open>Request\<close> (\<open>networking.c\<close>): the inline and the multi bulk parser, protocol errors and the command loop
    \<open>processInputBuffer\<close>; the lemmas describe how a stream of well-formed commands is executed.
    \<open>Request_Safe\<close> shows that arbitrary input is handled inside of the buffer. \<open>Link\<close> adds the read
    handler \<open>readQueryFromClient\<close> and shows that fragmentation of the input does not matter.
  \<^item> This theory connects the master's side of \<open>Replication\<close> to the replica's side of \<open>Link\<close>.

  \<^bold>\<open>Loops and bounds.\<close> Loops whose end is evident are structural or have a measure. The command loop
  \<open>processInputBuffer\<close> and the list loops that follow pointers are partial functions whose result \<open>None\<close>
  includes not returning, and their lemmas state the \<open>Some\<close> they return. The one loop with fuel is the
  inner loop of \<open>dictScan\<close>, with the number of buckets of the larger table, which is proved to be
  enough. Size
  hypotheses are those the code itself enforces or assumes: strings below 512 MB, query buffers below
  1 GB, lists and tables below the range of their counters.

  \<^bold>\<open>Parameters.\<close> The results of \<open>read\<close> and \<open>write\<close>, the execution of a command, whether clients are paused,
  random replication ids and the seed of the hash function are arguments.

  \<^bold>\<open>Not modelled.\<close> The event loop and sockets (\<open>ae*.c\<close>, \<open>anet.c\<close>, \<open>syncio.c\<close>, \<open>bio.c\<close>), which are calls of the
  operating system; the commands themselves and the value types other than integer sets (\<open>t_*.c\<close>,
  \<open>db.c\<close>, \<open>expire.c\<close>, \<open>ziplist.c\<close>, \<open>quicklist.c\<close>, \<open>rax.c\<close>, \<open>hyperloglog.c\<close>, \<open>geo*.c\<close>); files on disk (\<open>rdb.c\<close>,
  \<open>aof.c\<close>); cluster bus, sentinel, modules and scripting; command line tools; the
  floating point conversions, for which HOL-Library has no IEEE type; the iterators and random
  sampling of \<open>dict.c\<close>, which hand out pointers to the caller and draw from the C library's generator;
  the slave's handshake and the snapshot transfer in \<open>replication.c\<close>; the Python application, whose behaviour is that of its database and of third-party
  packages; third-party libraries under \<open>deps\<close>.
\<close>


unbundle bit_operations_syntax

section \<open>A master and its replica\<close>

lemma cmd_text_request: "cmd_text = request_text \<circ> map obj_text"
  by (rule ext) (simp add: cmd_text_def request_text_def comp_def)

text \<open>C1: A replica executes what its master propagates. Let a master feed a sequence of write commands to a slave
  whose output queue is empty, and let the replica at the other end read that queue in pieces of any
  sizes. Then the replica executes exactly these commands, each once and in order, with a command that
  selects the database wherever it changes; the offset of the replica advances as much as that of the
  master; and the replica hands on to its own backlog and slaves exactly the bytes it was sent.\<close>

theorem replica_executes_propagated_commands:
  assumes master: "backlog_ok s" "masterhost s = None" "list_all write_fine cs"
    and stream: "sent = concat (map cmd_text (stream_cmds (slaveseldb s) cs))" "list_all (can_feed sent) (slaves s)"
    and slave: "i < length (slaves s)" "replstate (slaves s ! i) \<noteq> SLAVE_STATE_WAIT_BGSAVE_START" "queue (slaves s ! i) = []"
    and replica: "courteous J h" "J c" "idle c" "has c CLIENT_MASTER" "backlog_ok r" "list_all (can_feed sent) (slaves r)" "81920 \<le> maxq"
    and cmds: "cmds = map (map obj_text) (stream_cmds (slaveseldb s) cs)" "list_all cmd_fine cmds"
    and reads: "list_all (\<lambda>k. 0 < k) ks" "length sent \<le> length ks"
  shows "\<exists>s' r' c'. propagate junk cs s = Some s' \<and>
    read_all junk' (plain_exec (server_cmd k h)) maxq ks (r, c) (queue (slaves s' ! i)) = Some (r', Some c', []) \<and>
    output_part c' = output_part (replies_of h cmds c) \<and>
    reploff c' - reploff c = master_repl_offset s' - master_repl_offset s \<and>
    streamed r (queue (slaves s' ! i)) r'"
proof -
  have t: "sent = cmds_text cmds" by (simp add: stream(1) cmds(1) cmd_text_request)
  obtain s' where s': "propagate junk cs s = Some s'" "streamed s sent s'"
    using propagate_streams [OF master] stream by blast
  then have "fed_slave sent (slaves s ! i) (slaves s' ! i)" using slave(1) by (simp add: streamed_def list_all2_conv_all_nth)
  then have q: "queue (slaves s' ! i) = sent" using slave(2,3) by (simp add: fed_slave_def)
  obtain r' c' where "read_all junk' (plain_exec (server_cmd k h)) maxq ks (r, c) sent = Some (r', Some c', [])"
    "output_part c' = output_part (replies_of h cmds c)" "reploff c' = reploff c + int (length sent)" "streamed r sent r'"
    using read_commands [OF replica(1-3) cmds(2) replica(7) _ reads(1), of r junk' k] replica(4-6) reads(2) unfolding t by auto
  moreover have "master_repl_offset s' - master_repl_offset s = int (length sent)" using s'(2) by (simp add: streamed_def)
  ultimately show ?thesis using s'(1) q by (intro exI [of _ s'] exI [of _ r'] exI [of _ c']) simp
qed

definition replica0 :: client where
  "replica0 = client0\<lparr>flags := CLIENT_MASTER, reploff := 100, read_reploff := 100\<rparr>"

theorem replica_executes_propagated_commands_witness:
  "\<exists>s' r' c'. propagate (\<lambda>_. 7) [(0, [Str_obj (str ''INCR''), Str_obj (str ''x'')])] master0 = Some s' \<and>
    read_all (\<lambda>_. 7) (plain_exec (server_cmd (\<lambda>args n. n) echo)) 1000000 (replicate 30 5) (master0, replica0) (queue (slaves s' ! 0)) = Some (r', Some c', []) \<and>
    output_part c' = output_part (replies_of echo [[str ''INCR'', str ''x'']] replica0) \<and>
    reploff c' - reploff replica0 = master_repl_offset s' - master_repl_offset master0 \<and>
    streamed master0 (queue (slaves s' ! 0)) r'"
proof -
  let ?cs = "[(0, [Str_obj (str ''INCR''), Str_obj (str ''x'')])]"
  define sent where "sent = concat (map cmd_text (stream_cmds (slaveseldb master0) ?cs))"
  have t: "sent = str ''*2'' @ crlf @ str ''$4'' @ crlf @ str ''INCR'' @ crlf @ str ''$1'' @ crlf @ str ''x'' @ crlf"
    by (simp add: sent_def master0_def cmd_text_def bulk_def hdr_def str_def dec_int_def dec_nat_small)
  have m: "slaves master0 = [slave0]" "masterhost master0 = None" "slaveseldb master0 = 0" by (simp_all add: master0_def)
  have can: "list_all (can_feed sent) (slaves master0)" unfolding t using slave0_ok by (simp add: m can_feed_def str_def out_max_def)
  have f: "list_all cmd_fine [[str ''INCR'', str ''x'']]"
    by (simp add: cmd_fine_def request_fine_def args_fine_def request_text_def bulk_def hdr_def str_def dec_int_def dec_nat_small)
  have r: "steady replica0" "idle replica0" "has replica0 CLIENT_MASTER"
    by (simp_all add: steady_def idle_def has_def replica0_def client0_def)
  have l: "length sent \<le> length (replicate 30 (5 :: nat))" unfolding t by (simp add: str_def)
  have w: "list_all write_fine ?cs" by (simp add: write_fine_def arg_fine_def str_def)
  show ?thesis
    by (rule replica_executes_propagated_commands [OF master0_ok m(2) w sent_def can _ _ _ courteous_echo r master0_ok can _ _ f _ l])
      (simp_all add: m slave0_ok list_all_iff, simp add: slave0_def)
qed

end
